(* ===== verification/Prelude.thy ===== *)
theory Prelude
  imports Main "HOL-Library.Word"
begin

text \<open>
  The vocabulary the components share: the fixed-width integers of the C++ sources, byte
  strings and the conversion between them and \<open>std::string\<close>, the big-endian wire order of
  \<open>htons\<close>, \<open>htonl\<close> and \<open>htonll\<close>, \<open>memcpy\<close> into and out of a fixed array, the faults that
  stand for undefined behaviour and for exceptions, and the generic lemmas on lists and words
  that the component proofs use.

  \<open>size_t\<close> is 64 bits wide on the platform (x86-64 Windows). It is kept as a word where the
  source relies on wrap-around (the ring buffer's and the bounded queue's indices) and is a
  \<open>nat\<close> where it holds the length of an object in memory.
\<close>

unbundle bit_operations_syntax

named_theorems wire_simps \<open>lengths and decoding of the big-endian encodings\<close>
named_theorems mem_simps \<open>reading from and writing to byte arrays\<close>

type_synonym byte = "8 word"
type_synonym u16 = "16 word"
type_synonym u32 = "32 word"
type_synonym u64 = "64 word"
type_synonym bytes = "byte list"
type_synonym SOCKET = u64

text \<open>
  What the source leaves undefined or raises: reading or writing outside an array, calling
  through a null pointer, \<open>front()\<close> of an empty \<open>std::queue\<close>, a loop that never ends, an uncaught
  \<open>std::runtime_error\<close>.
\<close>

datatype fault = OutOfBounds | NullDeref | EmptyFront | RuntimeError string | BadIterator | Diverges

type_synonym 'a res = "fault + 'a"

fun bind_res :: "'a res \<Rightarrow> ('a \<Rightarrow> 'b res) \<Rightarrow> 'b res" where
  "bind_res (Inl f) k = Inl f"
| "bind_res (Inr x) k = k x"

definition is_ok :: "'a res \<Rightarrow> bool" where
  "is_ok r \<longleftrightarrow> (case r of Inl _ \<Rightarrow> False | Inr _ \<Rightarrow> True)"

lemma is_ok_simps [simp]: "is_ok (Inr x)" "\<not> is_ok (Inl f)"
  by (simp_all add: is_ok_def)

lemma is_ok_iff: "is_ok r \<longleftrightarrow> (\<exists>x. r = Inr x)"
  by (cases r) simp_all

lemma bind_res_Inr_iff:
  "bind_res r k = Inr y \<longleftrightarrow> (\<exists>x. r = Inr x \<and> k x = Inr y)"
  by (cases r) simp_all

subsection \<open>Characters and bytes\<close>

text \<open>A \<open>std::string\<close> is a sequence of bytes; the model keeps it as a HOL \<open>string\<close>.\<close>

definition ord8 :: "char \<Rightarrow> byte" where
  "ord8 c = of_nat (of_char c)"

definition chr8 :: "byte \<Rightarrow> char" where
  "chr8 b = char_of (unat b)"

definition str_bytes :: "string \<Rightarrow> bytes" where
  "str_bytes s = map ord8 s"

definition bytes_str :: "bytes \<Rightarrow> string" where
  "bytes_str bs = map chr8 bs"

lemma unat_ord8: "unat (ord8 c) = of_char c"
proof -
  have "(of_char c :: nat) < 256" by simp
  then show ?thesis by (simp add: ord8_def unat_of_nat)
qed

lemma chr8_ord8 [simp]: "chr8 (ord8 c) = c"
  by (simp add: chr8_def unat_ord8)

lemma ord8_chr8 [simp]: "ord8 (chr8 b) = b"
proof -
  have "unat b < 256" using unsigned_less [of b] by simp
  then have "(of_char (char_of (unat b) :: char) :: nat) = unat b" by simp
  then show ?thesis by (simp add: ord8_def chr8_def)
qed

lemma bytes_str_str_bytes [simp]: "bytes_str (str_bytes s) = s"
  by (simp add: bytes_str_def str_bytes_def comp_def)

lemma str_bytes_bytes_str [simp]: "str_bytes (bytes_str bs) = bs"
  by (simp add: bytes_str_def str_bytes_def comp_def)

lemma length_str_bytes [simp]: "length (str_bytes s) = length s"
  by (simp add: str_bytes_def)

lemma length_bytes_str [simp]: "length (bytes_str bs) = length bs"
  by (simp add: bytes_str_def)

lemma str_bytes_inject [simp]: "str_bytes s = str_bytes t \<longleftrightarrow> s = t"
  by (metis bytes_str_str_bytes)

lemma bytes_str_inject [simp]: "bytes_str s = bytes_str t \<longleftrightarrow> s = t"
  by (metis str_bytes_bytes_str)

subsection \<open>Big-endian integers\<close>

text \<open>
  \<open>be16 x\<close> is the byte sequence in memory after \<open>htons(x)\<close> is stored on the little-endian
  host; \<open>rd16\<close> is \<open>ntohs\<close> of the two bytes read back. Likewise for 32 and 64 bits.
\<close>

definition be16 :: "u16 \<Rightarrow> bytes" where
  "be16 x = [ucast (drop_bit 8 x), ucast x]"

definition be32 :: "u32 \<Rightarrow> bytes" where
  "be32 x = [ucast (drop_bit 24 x), ucast (drop_bit 16 x), ucast (drop_bit 8 x), ucast x]"

definition be64 :: "u64 \<Rightarrow> bytes" where
  "be64 x = be32 (ucast (drop_bit 32 x)) @ be32 (ucast x)"

fun rd16 :: "bytes \<Rightarrow> u16" where
  "rd16 (a # b # _) = push_bit 8 (ucast a) OR ucast b"
| "rd16 _ = 0"

fun rd32 :: "bytes \<Rightarrow> u32" where
  "rd32 (a # b # c # d # _) =
     push_bit 24 (ucast a) OR push_bit 16 (ucast b) OR push_bit 8 (ucast c) OR ucast d"
| "rd32 _ = 0"

definition rd64 :: "bytes \<Rightarrow> u64" where
  "rd64 bs = push_bit 32 (ucast (rd32 bs)) OR ucast (rd32 (drop 4 bs))"

text \<open>The host's own order: what \<open>memcpy(&num, number, 4)\<close> reads.\<close>

fun le32 :: "bytes \<Rightarrow> u32" where
  "le32 (a # b # c # d # _) =
     ucast a OR push_bit 8 (ucast b) OR push_bit 16 (ucast c) OR push_bit 24 (ucast d)"
| "le32 _ = 0"

lemma length_be [simp, wire_simps]:
  "length (be16 x) = 2" "length (be32 y) = 4" "length (be64 z) = 8"
  by (simp_all add: be16_def be32_def be64_def)

lemma rd16_be16 [simp, wire_simps]: "rd16 (be16 x @ r) = x"
  by (auto simp: be16_def bit_simps intro!: bit_word_eqI)

lemma rd32_be32 [simp, wire_simps]: "rd32 (be32 x @ r) = x"
proof (rule bit_word_eqI)
  fix n assume "n < LENGTH(32)"
  then consider "n < 8" | "8 \<le> n \<and> n < 16" | "16 \<le> n \<and> n < 24" | "24 \<le> n \<and> n < 32"
    by fastforce
  then show "bit (rd32 (be32 x @ r)) n \<longleftrightarrow> bit x n"
    by cases (auto simp: be32_def bit_simps)
qed

lemma rd64_be64 [simp, wire_simps]: "rd64 (be64 x @ r) = x"
proof -
  have "rd32 (drop 4 (be64 x @ r)) = ucast x"
    by (simp add: be64_def)
  moreover have "rd32 (be64 x @ r) = ucast (drop_bit 32 x)"
    by (simp add: be64_def)
  ultimately show ?thesis
    by (auto simp: rd64_def bit_simps intro!: bit_word_eqI)
qed

lemma rd_be_Nil [simp, wire_simps]:
  "rd16 (be16 x) = x" "rd32 (be32 y) = y" "rd64 (be64 z) = z"
  using rd16_be16 [of x "[]"] rd32_be32 [of y "[]"] rd64_be64 [of z "[]"] by simp_all

lemma be16_inject: "be16 x = be16 y \<longleftrightarrow> x = y"
  by (metis rd_be_Nil(1))

lemma be32_inject: "be32 x = be32 y \<longleftrightarrow> x = y"
  by (metis rd_be_Nil(2))

subsection \<open>Arrays\<close>

text \<open>
  \<open>segment off n xs\<close> are the \<open>n\<close> elements from \<open>off\<close>; \<open>read_bytes\<close> is the same with the
  bounds of the array checked, a fault where the source would read outside it; \<open>blit\<close> is
  \<open>memcpy\<close> to an offset.
\<close>

definition segment :: "nat \<Rightarrow> nat \<Rightarrow> 'a list \<Rightarrow> 'a list" where
  "segment off n xs = take n (drop off xs)"

definition read_bytes :: "nat \<Rightarrow> nat \<Rightarrow> bytes \<Rightarrow> bytes res" where
  "read_bytes off n xs = (if off + n \<le> length xs then Inr (segment off n xs) else Inl OutOfBounds)"

definition blit :: "'a list \<Rightarrow> nat \<Rightarrow> 'a list \<Rightarrow> 'a list" where
  "blit xs off ys = take off xs @ ys @ drop (off + length ys) xs"

lemma length_segment [simp, mem_simps]: "off + n \<le> length xs \<Longrightarrow> length (segment off n xs) = n"
  by (simp add: segment_def)

lemma length_blit [simp, mem_simps]:
  "off + length ys \<le> length xs \<Longrightarrow> length (blit xs off ys) = length xs"
  by (simp add: blit_def)

lemma drop_blit [mem_simps]:
  "off \<le> length xs \<Longrightarrow> drop off (blit xs off ys) = ys @ drop (off + length ys) xs"
  by (simp add: blit_def)

lemma take_blit [mem_simps]: "off \<le> length xs \<Longrightarrow> take off (blit xs off ys) = take off xs"
  by (simp add: blit_def)

lemma blit_blit [mem_simps]:
  assumes "off + length ys + length zs \<le> length xs"
  shows "blit (blit xs off ys) (off + length ys) zs = blit xs off (ys @ zs)"
  using assms by (simp add: blit_def ac_simps)

lemma segment_append [mem_simps]: "segment 0 (length xs) (xs @ ys) = xs"
  by (simp add: segment_def)

lemma take_drop_split: "a + b \<le> length xs \<Longrightarrow> take (a + b) xs = take a xs @ segment a b xs"
  by (simp add: segment_def take_add)

lemma read_bytes_Inr_iff:
  "read_bytes off n xs = Inr ys \<longleftrightarrow> off + n \<le> length xs \<and> ys = segment off n xs"
  by (auto simp: read_bytes_def)

subsection \<open>Words\<close>

lemma unat_and_mask: "unat (x AND mask n :: 'a :: len word) = unat x mod 2 ^ n"
  by (metis take_bit_eq_mask take_bit_eq_mod unsigned_take_bit_eq)

lemma unat_add_small: "unat x + unat y < 2 ^ LENGTH('a) \<Longrightarrow> unat (x + y) = unat x + unat y"
  for x y :: "'a :: len word"
  by (simp add: unat_word_ariths)

lemma unat_sub_le: "y \<le> x \<Longrightarrow> unat (x - y) = unat x - unat y" for x y :: "'a :: len word"
  by (simp add: unat_sub)

subsection \<open>Positions in a ring\<close>

lemma mod_wrap: "a < 2 * n \<Longrightarrow> a mod n = (if a < n then a else a - n)" for a n :: nat
  by (simp add: le_mod_geq not_less)

lemma mod_shift_neq: "0 < j \<Longrightarrow> j < n \<Longrightarrow> (a + j) mod n \<noteq> a mod n" for a j n :: nat
  using nat_dvd_not_less [of j n] by (simp add: mod_eq_dvd_iff_nat)

lemma mod_add_inject:
  fixes a i j n :: nat
  assumes "i < n" "j < n"
  shows "(a + i) mod n = (a + j) mod n \<longleftrightarrow> i = j"
proof (cases i j rule: linorder_cases)
  case less
  then show ?thesis using assms mod_shift_neq [of "j - i" n "a + i"] by (simp add: less_imp_diff_less)
next
  case greater
  then show ?thesis using assms mod_shift_neq [of "i - j" n "a + j"] by (simp add: less_imp_diff_less)
qed simp

text \<open>An index masked by \<open>2 ^ k - 1\<close>; the counter itself wraps at 64 bits.\<close>

lemma unat_and_pow2: "unat (p AND (2 ^ k - 1) :: u64) = unat p mod 2 ^ k"
  using unat_and_mask [of p k] by (simp add: mask_eq_exp_minus_1)

lemma unat_add_mod_pow2:
  assumes "k \<le> 64"
  shows "unat (p + of_nat j :: u64) mod 2 ^ k = (unat p + j) mod 2 ^ k"
proof -
  have "unat (p + of_nat j) = (unat p + j) mod 2 ^ 64"
    by (simp add: unat_word_ariths unat_of_nat mod_simps)
  moreover have "((unat p + j) mod 2 ^ 64) mod 2 ^ k = (unat p + j) mod 2 ^ k"
    using assms by (intro mod_mod_cancel le_imp_power_dvd)
  ultimately show ?thesis by simp
qed

section \<open>Numbers as text\<close>

text \<open>\<open>std::to_string\<close> of an unsigned integer.\<close>

definition digit :: "nat \<Rightarrow> char" where
  "digit n = char_of (48 + n)"

fun to_string :: "nat \<Rightarrow> string" where
  "to_string n = (if n < 10 then [digit n] else to_string (n div 10) @ [digit (n mod 10)])"

declare to_string.simps [simp del]

lemma digit_inject: "m < 10 \<Longrightarrow> n < 10 \<Longrightarrow> digit m = digit n \<longleftrightarrow> m = n"
  unfolding digit_def by (simp add: char_of_eq_iff take_bit_eq_mod)

lemma to_string_Nil [simp]: "to_string n \<noteq> []"
  by (subst to_string.simps) simp

lemma to_string_inject: "to_string m = to_string n \<longleftrightarrow> m = n"
proof (induction m arbitrary: n rule: to_string.induct)
  case (1 m)
  show ?case
  proof (cases "m < 10"; cases "n < 10")
    assume "\<not> m < 10" "\<not> n < 10"
    moreover from this have "to_string m = to_string (m div 10) @ [digit (m mod 10)]"
      "to_string n = to_string (n div 10) @ [digit (n mod 10)]" by (subst to_string.simps, simp)+
    ultimately show ?thesis using "1.IH" by (auto simp: digit_inject) (metis mult_div_mod_eq)
  qed (subst to_string.simps, subst (2) to_string.simps, simp add: digit_inject)+
qed

end
