(* ===== verification/CRC32C.thy ===== *)
theory CRC32C
  imports Prelude
begin

text \<open>
  \<open>protocol/CRC32C.h\<close> and \<open>protocol/CRC32C.cpp\<close>: the lookup table, the table-driven
  \<open>compute\<close>, and both variants of the hardware path. The build the repository carries
  (\<open>build/CMakeCache.txt\<close>: GNU \<open>g++\<close>) takes the \<open>#else\<close> branch, in which
  \<open>supportsHardwareAcceleration()\<close> is constantly false; \<open>CRC32C_compute\<close> is the function of
  that build. The MSVC branch is modelled over its two processor intrinsics as parameters.
\<close>

section \<open>The table and the table-driven checksum\<close>

definition kCrc32cTable :: "u32 list" where
  "kCrc32cTable = [
    0x00000000, 0xF26B8303, 0xE13B70F7, 0x1350F3F4, 0xC2A7E8EE, 0x30CC6BED,
    0x239C9819, 0xD1F71B1A, 0x85AE4EDD, 0x77C5CDDE, 0x64953E2A, 0x96FEBF29,
    0x4709A433, 0xB5622730, 0xA632D4C4, 0x545957C7, 0x0B5D9DAB, 0xF9361EA8,
    0xEA66ED5C, 0x180D6E5F, 0xC9FA7545, 0x3B91F646, 0x28C105B2, 0xDAAA86B1,
    0x8EF3D376, 0x7C985075, 0x6FC8A381, 0x9DA32082, 0x4C543B98, 0xBE3FB89B,
    0xAD6F4B6F, 0x5F04C86C, 0x17BB3B57, 0xE5D0B854, 0xF6804BA0, 0x04EBC8A3,
    0xD51CD3B9, 0x277750BA, 0x3427A34E, 0xC64C204D, 0x9215758A, 0x607EF689,
    0x732E057D, 0x8145867E, 0x50B29D64, 0xA2D91E67, 0xB189ED93, 0x43E26E90,
    0x1CE6A4FC, 0xEE8D27FF, 0xFDDDD40B, 0x0FB65708, 0xDE414C12, 0x2C2ACF11,
    0x3F7A3CE5, 0xCD11BFE6, 0x9948EA21, 0x6B236922, 0x78739AD6, 0x8A1819D5,
    0x5BEF02CF, 0xA98481CC, 0xBAD47238, 0x48BFF13B, 0x2F7676AE, 0xDD1DF5AD,
    0xCE4D0659, 0x3C26855A, 0xEDD19E40, 0x1FBA1D43, 0x0CEAEAB7, 0xFE8169B4,
    0xAAD83C73, 0x58B3BF70, 0x4BE34C84, 0xB988CF87, 0x687FD49D, 0x9A14579E,
    0x8944A46A, 0x7B2F2769, 0x242BED05, 0xD6406E06, 0xC5109DF2, 0x377B1EF1,
    0xE68C05EB, 0x14E786E8, 0x07B7751C, 0xF5DCF61F, 0xA185A3D8, 0x53EE20DB,
    0x40BED32F, 0xB2D5502C, 0x63224B36, 0x9149C835, 0x82193BC1, 0x7072B8C2,
    0x38CD4BF9, 0xCAA6C8FA, 0xD9F63B0E, 0x2B9DB80D, 0xFA6AA317, 0x08012014,
    0x1B51D3E0, 0xE93A50E3, 0xBD630524, 0x4F088627, 0x5C5875D3, 0xAE33F6D0,
    0x7FC4EDCA, 0x8DAF6EC9, 0x9EFF9D3D, 0x6C941E3E, 0x3394D452, 0xC1FF5751,
    0xD2AFA4A5, 0x20C427A6, 0xF1333CBC, 0x0358BFBF, 0x10084C4B, 0xE263CF48,
    0xB63A9A8F, 0x4451198C, 0x5701EA78, 0xA56A697B, 0x749D7261, 0x86F6F162,
    0x95A60296, 0x67CD8195, 0x5EECED5D, 0xAC876E5E, 0xBFD79DAA, 0x4DBC1EA9,
    0x9C4B05B3, 0x6E2086B0, 0x7D707544, 0x8F1BF647, 0xDB42A380, 0x29292083,
    0x3A79D377, 0xC8125074, 0x19E54B6E, 0xEB8EC86D, 0xF8DE3B99, 0x0AB5B89A,
    0x55B172F6, 0xA7DAF1F5, 0xB48A0201, 0x46E18102, 0x97169A18, 0x657D191B,
    0x762DEAFF, 0x844669FC, 0xD01F3C3B, 0x2274BF38, 0x31244CCC, 0xC34FCFCF,
    0x12B8D4D5, 0xE0D357D6, 0xF383A422, 0x01E82721, 0x4975D41A, 0xBB1E5719,
    0xA84EA4ED, 0x5A2527EE, 0x8BD23CF4, 0x79B9BFF7, 0x6AE94C03, 0x9882CF00,
    0xCCDB9AC7, 0x3EB019C4, 0x2DE0EA30, 0xDF8B6933, 0x0E7C7229, 0xFC17F12A,
    0xEF4702DE, 0x1D2C81DD, 0x42284BB1, 0xB043C8B2, 0xA3133B46, 0x5178B845,
    0x808FA35F, 0x72E4205C, 0x61B4D3A8, 0x93DF50AB, 0xC786056C, 0x35ED866F,
    0x26BD759B, 0xD4D6F698, 0x0521ED82, 0xF74A6E81, 0xE41A9D75, 0x16711E76,
    0x71B899E3, 0x83D31AE0, 0x9083E914, 0x62E86A17, 0xB31F710D, 0x4174F20E,
    0x522401FA, 0xA04F82F9, 0xF416D73E, 0x067D543D, 0x152DA7C9, 0xE74624CA,
    0x36B13FD0, 0xC4DABCD3, 0xD78A4F27, 0x25E1CC24, 0x7AE50648, 0x888E854B,
    0x9BDE76BF, 0x69B5F5BC, 0xB842EEA6, 0x4A296DA5, 0x59799E51, 0xAB121D52,
    0xFF4B4895, 0x0D20CB96, 0x1E703862, 0xEC1BBB61, 0x3DECA07B, 0xCF87237C,
    0xDCD7D088, 0x2EBC538B, 0x6613A0B0, 0x947823B3, 0x8728D047, 0x75435344,
    0xA4B4485E, 0x56DFCB5D, 0x458F38A9, 0xB7E4BBAA, 0xE3BDEE6D, 0x11D66D6E,
    0x02869E9A, 0xF0ED1D99, 0x211A0683, 0xD3718580, 0xC0217674, 0x324AF577,
    0x6D4E3F1B, 0x9F25BC18, 0x8C754FEC, 0x7E1ECCEF, 0xAFE9D7F5, 0x5D8254F6,
    0x4ED2A702, 0xBCB92401, 0xE8E071C6, 0x1A8BF2C5, 0x09DB0131, 0xFBB08232,
    0x2A479928, 0xD82C1A2B, 0xCB7CE9DF, 0x39176ADC
  ]"

text \<open>One iteration of the loop of \<open>compute\<close>.\<close>

definition crc_step :: "u32 \<Rightarrow> byte \<Rightarrow> u32" where
  "crc_step crc b = (kCrc32cTable ! unat ((crc XOR ucast b) AND 0xFF)) XOR drop_bit 8 crc"

definition supportsHardwareAcceleration :: bool where
  "supportsHardwareAcceleration = False"

definition computeHardware_fallback :: "bytes \<Rightarrow> u32 \<Rightarrow> u32" where
  "computeHardware_fallback data crc = 0"

definition CRC32C_compute :: "bytes \<Rightarrow> u32 \<Rightarrow> u32" where
  "CRC32C_compute data crc =
     (if supportsHardwareAcceleration then computeHardware_fallback data crc
      else NOT (foldl crc_step (NOT crc) data))"

definition CRC32C_compute_string :: "string \<Rightarrow> u32 \<Rightarrow> u32" where
  "CRC32C_compute_string str crc = CRC32C_compute (str_bytes str) crc"

section \<open>The hardware path of the MSVC build\<close>

text \<open>
  \<open>mm_u8\<close> and \<open>mm_u64\<close> stand for the intrinsics \<open>_mm_crc32_u8\<close> and \<open>_mm_crc32_u64\<close>;
  \<open>cpuid_ecx\<close> for the third register \<open>__cpuid(1)\<close> fills.
\<close>

fun le64 :: "bytes \<Rightarrow> u64" where
  "le64 [] = 0"
| "le64 (b # bs) = ucast b OR push_bit 8 (le64 bs)"

definition supportsHardwareAcceleration_msvc :: "u32 \<Rightarrow> bool" where
  "supportsHardwareAcceleration_msvc cpuid_ecx \<longleftrightarrow> cpuid_ecx AND push_bit 20 1 \<noteq> 0"

function hw_loop ::
  "(u32 \<Rightarrow> byte \<Rightarrow> u32) \<Rightarrow> (u64 \<Rightarrow> u64 \<Rightarrow> u64) \<Rightarrow> bytes \<Rightarrow> u32 \<Rightarrow> u32" where
  "hw_loop mm_u8 mm_u64 p crc =
     (if 8 \<le> length p
      then hw_loop mm_u8 mm_u64 (drop 8 p) (ucast (mm_u64 (ucast crc) (le64 (take 8 p))))
      else foldl mm_u8 crc p)"
  by pat_completeness auto
termination
  by (relation "measure (\<lambda>(_, _, p, _). length p)") auto

declare hw_loop.simps [simp del]

definition computeHardware ::
  "(u32 \<Rightarrow> byte \<Rightarrow> u32) \<Rightarrow> (u64 \<Rightarrow> u64 \<Rightarrow> u64) \<Rightarrow> bytes \<Rightarrow> u32 \<Rightarrow> u32" where
  "computeHardware mm_u8 mm_u64 data crc = NOT (hw_loop mm_u8 mm_u64 data (NOT crc))"

definition compute_msvc ::
  "u32 \<Rightarrow> (u32 \<Rightarrow> byte \<Rightarrow> u32) \<Rightarrow> (u64 \<Rightarrow> u64 \<Rightarrow> u64) \<Rightarrow> bytes \<Rightarrow> u32 \<Rightarrow> u32" where
  "compute_msvc cpuid_ecx mm_u8 mm_u64 data crc =
     (if supportsHardwareAcceleration_msvc cpuid_ecx
      then computeHardware mm_u8 mm_u64 data crc
      else NOT (foldl crc_step (NOT crc) data))"

text \<open>
  The documented meaning of the instruction: eight shifts of the reflected Castagnoli
  polynomial \<open>0x1EDC6F41\<close> per byte, the low byte first for the wide form.
\<close>

definition castagnoli_bit :: "u32 \<Rightarrow> u32" where
  "castagnoli_bit c = (if bit c 0 then drop_bit 1 c XOR 0x82F63B78 else drop_bit 1 c)"

definition castagnoli_byte :: "u32 \<Rightarrow> byte \<Rightarrow> u32" where
  "castagnoli_byte c b = (castagnoli_bit ^^ 8) (c XOR ucast b)"

definition castagnoli_u64 :: "u64 \<Rightarrow> u64 \<Rightarrow> u64" where
  "castagnoli_u64 c v =
     ucast (foldl castagnoli_byte (ucast c) (map (\<lambda>i. ucast (drop_bit (8 * i) v)) [0..<8]))"

section \<open>Laws of a running checksum\<close>

text \<open>
  What the packet layer and the file-transfer layer rely on: a checksum that is continued over
  consecutive pieces is the checksum of their concatenation.
\<close>

locale checksum =
  fixes crc :: "bytes \<Rightarrow> u32 \<Rightarrow> u32"
  assumes crc_Nil: "crc [] c = c"
    and crc_append: "crc (xs @ ys) c = crc ys (crc xs c)"
begin

lemma crc_pieces: "foldl (\<lambda>c p. crc p c) c ps = crc (concat ps) c"
  by (induction ps arbitrary: c) (simp_all add: crc_Nil crc_append)

end

text \<open>
  A checksum that is injective in its running value and in each single byte tells apart any two
  messages that differ in one byte.
\<close>

locale detecting_checksum = checksum +
  assumes crc_inject: "crc xs c = crc xs d \<Longrightarrow> c = d"
    and crc_byte: "crc [a] c = crc [b] c \<Longrightarrow> a = b"
begin

lemma one_byte_detected:
  assumes "a \<noteq> b"
  shows "crc (xs @ a # ys) c \<noteq> crc (xs @ b # ys) c"
proof
  assume eq: "crc (xs @ a # ys) c = crc (xs @ b # ys) c"
  have "crc (xs @ z # ys) c = crc ys (crc [z] (crc xs c))" for z
    using crc_append [of xs "z # ys"] crc_append [of "[z]" ys] by simp
  with eq have "crc [a] (crc xs c) = crc [b] (crc xs c)"
    by (metis crc_inject)
  with assms show False by (blast dest: crc_byte)
qed

end

section \<open>The table-driven checksum obeys the laws\<close>

lemma length_kCrc32cTable [simp]: "length kCrc32cTable = 256"
  by (simp add: kCrc32cTable_def)

text \<open>
  The leading bytes of the 256 entries are pairwise different: this is what makes one step of
  the loop injective in the running checksum.
\<close>

lemma table_top_bytes:
  "map (\<lambda>x. unat x div 16777216) kCrc32cTable = [
    0, 242, 225, 19, 194, 48, 35, 209, 133, 119, 100, 150, 71, 181, 166, 84,
    11, 249, 234, 24, 201, 59, 40, 218, 142, 124, 111, 157, 76, 190, 173, 95,
    23, 229, 246, 4, 213, 39, 52, 198, 146, 96, 115, 129, 80, 162, 177, 67,
    28, 238, 253, 15, 222, 44, 63, 205, 153, 107, 120, 138, 91, 169, 186, 72,
    47, 221, 206, 60, 237, 31, 12, 254, 170, 88, 75, 185, 104, 154, 137, 123,
    36, 214, 197, 55, 230, 20, 7, 245, 161, 83, 64, 178, 99, 145, 130, 112,
    56, 202, 217, 43, 250, 8, 27, 233, 189, 79, 92, 174, 127, 141, 158, 108,
    51, 193, 210, 32, 241, 3, 16, 226, 182, 68, 87, 165, 116, 134, 149, 103,
    94, 172, 191, 77, 156, 110, 125, 143, 219, 41, 58, 200, 25, 235, 248, 10,
    85, 167, 180, 70, 151, 101, 118, 132, 208, 34, 49, 195, 18, 224, 243, 1,
    73, 187, 168, 90, 139, 121, 106, 152, 204, 62, 45, 223, 14, 252, 239, 29,
    66, 176, 163, 81, 128, 114, 97, 147, 199, 53, 38, 212, 5, 247, 228, 22,
    113, 131, 144, 98, 179, 65, 82, 160, 244, 6, 21, 231, 54, 196, 215, 37,
    122, 136, 155, 105, 184, 74, 89, 171, 255, 13, 30, 236, 61, 207, 220, 46,
    102, 148, 135, 117, 164, 86, 69, 183, 227, 17, 2, 240, 33, 211, 192, 50,
    109, 159, 140, 126, 175, 93, 78, 188, 232, 26, 9, 251, 42, 216, 203, 57]"
  by (simp add: kCrc32cTable_def)

lemma distinct_table_top_bytes: "distinct (map (\<lambda>x. unat x div 16777216) kCrc32cTable)"
  by (simp add: table_top_bytes)

lemma table_top_inject:
  assumes "i < 256" "j < 256"
    and "drop_bit 24 (kCrc32cTable ! i) = drop_bit 24 (kCrc32cTable ! j)"
  shows "i = j"
proof -
  have "unat (drop_bit 24 x) = unat x div 16777216" for x :: u32
    using drop_bit_eq_div [of 24 "unat x"] by (simp add: unat_drop_bit_eq)
  with assms have "map (\<lambda>x. unat x div 16777216) kCrc32cTable ! i =
      map (\<lambda>x. unat x div 16777216) kCrc32cTable ! j"
    by (metis length_kCrc32cTable nth_map)
  with assms show ?thesis
    using nth_eq_iff_index_eq [OF distinct_table_top_bytes] by simp
qed

lemma crc_index_less: "unat ((c XOR ucast b) AND 0xFF :: u32) < 256"
  using unat_and_mask [of "c XOR ucast b" 8] by (simp add: mask_eq_exp_minus_1)

lemma xor_right_cancel: "a XOR c = b XOR c \<Longrightarrow> a = b" for a b c :: "'a :: len word"
  by (metis xor.assoc xor_self_eq xor.right_neutral)

lemma crc_step_inject:
  assumes "crc_step c b = crc_step d b"
  shows "c = d"
proof -
  let ?i = "unat ((c XOR ucast b) AND 0xFF)" and ?j = "unat ((d XOR ucast b) AND 0xFF)"
  have top: "drop_bit 24 (x XOR drop_bit 8 e) = drop_bit 24 x" for x e :: u32
    by (auto simp: bit_simps intro!: bit_word_eqI)
  have eq: "(kCrc32cTable ! ?i) XOR drop_bit 8 c = (kCrc32cTable ! ?j) XOR drop_bit 8 d"
    using assms by (simp add: crc_step_def)
  then have "drop_bit 24 (kCrc32cTable ! ?i) = drop_bit 24 (kCrc32cTable ! ?j)"
    using top by metis
  then have ij: "?i = ?j" by (intro table_top_inject crc_index_less)
  with eq have "drop_bit 8 c XOR (kCrc32cTable ! ?j) = drop_bit 8 d XOR (kCrc32cTable ! ?j)"
    by (simp add: xor.commute)
  then have high: "drop_bit 8 c = drop_bit 8 d" by (rule xor_right_cancel)
  from ij have low: "(c XOR ucast b) AND 0xFF = (d XOR ucast b) AND 0xFF"
    by (simp only: word_unat_eq_iff)
  show ?thesis
  proof (rule bit_word_eqI)
    fix n assume n: "n < LENGTH(32)"
    show "bit c n = bit d n"
    proof (cases "n < 8")
      case True
      have "(0xFF :: u32) = mask 8" by (simp add: mask_eq_exp_minus_1)
      with low have "bit ((c XOR ucast b) AND mask 8) n = bit ((d XOR ucast b) AND mask 8) n"
        by simp
      with True n show ?thesis by (auto simp: bit_simps)
    next
      case False
      with high have "bit (drop_bit 8 c) (n - 8) = bit (drop_bit 8 d) (n - 8)" by simp
      with False show ?thesis by (simp add: bit_simps)
    qed
  qed
qed

lemma crc_step_byte:
  assumes "crc_step c a = crc_step c b"
  shows "a = b"
proof -
  let ?i = "unat ((c XOR ucast a) AND 0xFF)" and ?j = "unat ((c XOR ucast b) AND 0xFF)"
  have "kCrc32cTable ! ?i = kCrc32cTable ! ?j"
    using assms unfolding crc_step_def by (rule xor_right_cancel)
  then have "?i = ?j" by (intro table_top_inject crc_index_less) simp
  then have low: "(c XOR ucast a) AND mask 8 = (c XOR ucast b) AND mask 8"
    by (simp add: mask_eq_exp_minus_1 word_unat_eq_iff)
  show ?thesis
  proof (rule bit_word_eqI)
    fix n assume "n < LENGTH(8)"
    moreover have "bit ((c XOR ucast a) AND mask 8) n = bit ((c XOR ucast b) AND mask 8) n"
      using low by simp
    ultimately show "bit a n = bit b n" by (auto simp: bit_simps)
  qed
qed

lemma crc_fold_inject: "foldl crc_step c xs = foldl crc_step d xs \<Longrightarrow> c = d"
  by (induction xs arbitrary: c d) (auto dest: crc_step_inject)

lemma CRC32C_compute_eq: "CRC32C_compute data crc = NOT (foldl crc_step (NOT crc) data)"
  by (simp add: CRC32C_compute_def supportsHardwareAcceleration_def)

interpretation crc32c: detecting_checksum CRC32C_compute
proof
  fix c d :: u32 and xs ys :: bytes and a b :: byte
  show "CRC32C_compute [] c = c" by (simp add: CRC32C_compute_eq)
  show "CRC32C_compute (xs @ ys) c = CRC32C_compute ys (CRC32C_compute xs c)"
    by (simp add: CRC32C_compute_eq)
  show "c = d" if "CRC32C_compute xs c = CRC32C_compute xs d"
    using that crc_fold_inject [of "NOT c" xs "NOT d"] by (simp add: CRC32C_compute_eq)
  show "a = b" if "CRC32C_compute [a] c = CRC32C_compute [b] c"
    using that crc_step_byte [of "NOT c" a b] by (simp add: CRC32C_compute_eq)
qed

section \<open>The two builds\<close>

lemma byte_bit_beyond [simp]: "8 \<le> n \<Longrightarrow> \<not> bit (b :: byte) n"
  using bit_imp_le_length [of b n] by auto

lemma ucast_u64_u32 [simp]: "ucast (ucast x :: u64) = (x :: u32)"
  by (auto simp: bit_simps intro!: bit_word_eqI)

lemma foldl_ucast_u64:
  assumes "\<And>c v. mm_u64 c v = castagnoli_u64 c v" and "length p = 8"
  shows "ucast (mm_u64 (ucast c) (le64 p)) = foldl castagnoli_byte c p"
proof -
  obtain a0 a1 a2 a3 a4 a5 a6 a7 where p: "p = [a0, a1, a2, a3, a4, a5, a6, a7]"
    using assms(2) by (auto simp: length_Suc_conv numeral_eq_Suc)
  have "map (\<lambda>i. ucast (drop_bit (8 * i) (le64 p))) [0..<8] = p"
    unfolding p by (auto simp: upt_rec bit_simps intro!: bit_word_eqI)
  then show ?thesis
    by (simp add: assms(1) castagnoli_u64_def)
qed

lemma hw_loop_castagnoli:
  assumes "\<And>c b. mm_u8 c b = castagnoli_byte c b"
    and "\<And>c v. mm_u64 c v = castagnoli_u64 c v"
  shows "hw_loop mm_u8 mm_u64 p c = foldl castagnoli_byte c p"
proof (induction p arbitrary: c rule: length_induct)
  case (1 p)
  show ?case
  proof (cases "8 \<le> length p")
    case True
    have "hw_loop mm_u8 mm_u64 p c = hw_loop mm_u8 mm_u64 (drop 8 p) (foldl castagnoli_byte c (take 8 p))"
      using True foldl_ucast_u64 [OF assms(2), of "take 8 p"]
      by (subst hw_loop.simps) (simp add: min_absorb2)
    also have "\<dots> = foldl castagnoli_byte (foldl castagnoli_byte c (take 8 p)) (drop 8 p)"
      using True by (intro 1 [rule_format]) simp
    also have "\<dots> = foldl castagnoli_byte c p"
      by (simp flip: foldl_append)
    finally show ?thesis .
  next
    case False
    moreover have "mm_u8 = castagnoli_byte" using assms(1) by blast
    ultimately show ?thesis by (subst hw_loop.simps) simp
  qed
qed

text \<open>
  The running checksum is compositional: \<open>compute\<close> continued over a second piece with the
  first piece's result as its start value is \<open>compute\<close> of the two pieces put together, so the
  packet checksum (header, then payload) and the chunked file checksum are checksums of the
  whole byte sequence.
\<close>

theorem crc_compute_append:
  "CRC32C_compute (xs @ ys) crc = CRC32C_compute ys (CRC32C_compute xs crc)"
  by (rule crc32c.crc_append)

text \<open>
  Corruption confined to one byte is always detected: two messages that differ in exactly one
  byte, at any position, have different checksums under the code's own table.
\<close>

theorem crc_detects_one_byte:
  assumes "a \<noteq> b"
  shows "CRC32C_compute (xs @ a # ys) crc \<noteq> CRC32C_compute (xs @ b # ys) crc"
  using assms by (rule crc32c.one_byte_detected)

theorem crc_detects_one_byte_witness:
  "CRC32C_compute [1, 2, 3] 0 \<noteq> CRC32C_compute [1, 7, 3] 0"
  using crc_detects_one_byte [of 2 7 "[1]" "[3]" 0] by simp

text \<open>
  C34. The table is not the table of the polynomial its comment names, so the two builds disagree:
  with the documented processor instructions, the MSVC build on a machine with SSE4.2 computes for
  the one-byte message 4 a checksum different from that of the table-driven build, and a packet
  sent by one is refused by the other.
\<close>

theorem crc_builds_disagree:
  assumes "\<And>c b. mm_u8 c b = castagnoli_byte c b"
    and "\<And>c v. mm_u64 c v = castagnoli_u64 c v"
    and "supportsHardwareAcceleration_msvc cpuid_ecx"
  shows "compute_msvc cpuid_ecx mm_u8 mm_u64 [4] 0 \<noteq> CRC32C_compute [4] 0"
proof -
  have "compute_msvc cpuid_ecx mm_u8 mm_u64 [4] 0 = NOT (foldl castagnoli_byte (NOT 0) [4])"
    using assms(3) hw_loop_castagnoli [OF assms(1,2)]
    by (simp add: compute_msvc_def computeHardware_def)
  moreover have "foldl castagnoli_byte (NOT 0) [4] \<noteq> foldl crc_step (NOT 0) [4]"
    by code_simp
  ultimately show ?thesis by (simp add: CRC32C_compute_eq)
qed

theorem crc_builds_disagree_witness:
  "compute_msvc 0x100000 castagnoli_byte castagnoli_u64 [4] 0 \<noteq> CRC32C_compute [4] 0"
proof (rule crc_builds_disagree)
  show "supportsHardwareAcceleration_msvc 0x100000" by code_simp
qed simp_all

end
