(* ===== verification/Wire_Structs.thy ===== *)
theory Wire_Structs
  imports Prelude
begin

text \<open>
  \<open>protocol/ProtocolStructs.h\<close>: the packed payload structs. A struct is a record of its
  host-order field values; \<open>enc_\<close> is its memory image once every field has been stored through
  \<open>htons\<close>, \<open>htonl\<close> or \<open>htonll\<close>, and \<open>dec_\<close> reads a struct back from the start of a byte
  sequence, as \<open>getPayload\<close> followed by the \<open>ntoh\<close> functions does. Field names carry a prefix
  of their struct, because several structs share them. The locale \<open>wire_struct\<close> is the contract
  the serializers and the handlers rely on; every struct is shown to meet it.
\<close>

section \<open>The contract of a packed struct\<close>

locale wire_struct =
  fixes enc :: "'a \<Rightarrow> bytes" and dec :: "bytes \<Rightarrow> 'a" and size_of :: nat and wf :: "'a \<Rightarrow> bool"
  assumes enc_length: "wf x \<Longrightarrow> length (enc x) = size_of"
    and dec_enc: "wf x \<Longrightarrow> dec (enc x @ rest) = x"
begin

lemma drop_enc: "wf x \<Longrightarrow> drop size_of (enc x @ rest) = rest"
  using enc_length by simp

lemma enc_unambiguous:
  assumes "wf x" "wf y" "enc x @ r = enc y @ s"
  shows "x = y" and "r = s"
proof -
  show "x = y" using assms dec_enc by metis
  show "r = s" using assms drop_enc by metis
qed

end

section \<open>The structs\<close>

record ChatMessagePayload =
  cm_sender_id :: bytes
  cm_receiver_id :: bytes
  cm_timestamp :: u64
  cm_message_number :: u32
  cm_username_len :: u16
  cm_text_len :: u16

definition sizeof_ChatMessagePayload :: nat where
  "sizeof_ChatMessagePayload = 48"

definition enc_ChatMessagePayload :: "ChatMessagePayload \<Rightarrow> bytes" where
  "enc_ChatMessagePayload p =
     cm_sender_id p @ cm_receiver_id p @ be64 (cm_timestamp p) @ be32 (cm_message_number p) @ be16 (cm_username_len p) @ be16 (cm_text_len p)"

definition dec_ChatMessagePayload :: "bytes \<Rightarrow> ChatMessagePayload" where
  "dec_ChatMessagePayload bs =
     \<lparr>cm_sender_id = take 16 bs,
      cm_receiver_id = take 16 (drop 16 bs),
      cm_timestamp = rd64 (drop 32 bs),
      cm_message_number = rd32 (drop 40 bs),
      cm_username_len = rd16 (drop 44 bs),
      cm_text_len = rd16 (drop 46 bs)\<rparr>"

definition wf_ChatMessagePayload :: "ChatMessagePayload \<Rightarrow> bool" where
  "wf_ChatMessagePayload p \<longleftrightarrow> length (cm_sender_id p) = 16 \<and> length (cm_receiver_id p) = 16"

interpretation cm_struct: wire_struct enc_ChatMessagePayload dec_ChatMessagePayload sizeof_ChatMessagePayload wf_ChatMessagePayload
  by unfold_locales (simp_all add: enc_ChatMessagePayload_def dec_ChatMessagePayload_def wf_ChatMessagePayload_def sizeof_ChatMessagePayload_def)

record FileStartPayload =
  fs_receiver_id :: bytes
  fs_upload_id :: bytes
  fs_total_size :: u64
  fs_final_crc :: u32
  fs_filename_len :: u16

definition sizeof_FileStartPayload :: nat where
  "sizeof_FileStartPayload = 46"

definition enc_FileStartPayload :: "FileStartPayload \<Rightarrow> bytes" where
  "enc_FileStartPayload p =
     fs_receiver_id p @ fs_upload_id p @ be64 (fs_total_size p) @ be32 (fs_final_crc p) @ be16 (fs_filename_len p)"

definition dec_FileStartPayload :: "bytes \<Rightarrow> FileStartPayload" where
  "dec_FileStartPayload bs =
     \<lparr>fs_receiver_id = take 16 bs,
      fs_upload_id = take 16 (drop 16 bs),
      fs_total_size = rd64 (drop 32 bs),
      fs_final_crc = rd32 (drop 40 bs),
      fs_filename_len = rd16 (drop 44 bs)\<rparr>"

definition wf_FileStartPayload :: "FileStartPayload \<Rightarrow> bool" where
  "wf_FileStartPayload p \<longleftrightarrow> length (fs_receiver_id p) = 16 \<and> length (fs_upload_id p) = 16"

interpretation fs_struct: wire_struct enc_FileStartPayload dec_FileStartPayload sizeof_FileStartPayload wf_FileStartPayload
  by unfold_locales (simp_all add: enc_FileStartPayload_def dec_FileStartPayload_def wf_FileStartPayload_def sizeof_FileStartPayload_def)

record FileStartResponsePayload =
  fr_upload_id :: bytes
  fr_resume_offset :: u64

definition sizeof_FileStartResponsePayload :: nat where
  "sizeof_FileStartResponsePayload = 24"

definition enc_FileStartResponsePayload :: "FileStartResponsePayload \<Rightarrow> bytes" where
  "enc_FileStartResponsePayload p =
     fr_upload_id p @ be64 (fr_resume_offset p)"

definition dec_FileStartResponsePayload :: "bytes \<Rightarrow> FileStartResponsePayload" where
  "dec_FileStartResponsePayload bs =
     \<lparr>fr_upload_id = take 16 bs,
      fr_resume_offset = rd64 (drop 16 bs)\<rparr>"

definition wf_FileStartResponsePayload :: "FileStartResponsePayload \<Rightarrow> bool" where
  "wf_FileStartResponsePayload p \<longleftrightarrow> length (fr_upload_id p) = 16"

interpretation fr_struct: wire_struct enc_FileStartResponsePayload dec_FileStartResponsePayload sizeof_FileStartResponsePayload wf_FileStartResponsePayload
  by unfold_locales (simp_all add: enc_FileStartResponsePayload_def dec_FileStartResponsePayload_def wf_FileStartResponsePayload_def sizeof_FileStartResponsePayload_def)

record FileChunkPayload =
  fc_upload_id :: bytes
  fc_byte_offset :: u64
  fc_chunk_size :: u32
  fc_chunk_crc :: u32

definition sizeof_FileChunkPayload :: nat where
  "sizeof_FileChunkPayload = 32"

definition enc_FileChunkPayload :: "FileChunkPayload \<Rightarrow> bytes" where
  "enc_FileChunkPayload p =
     fc_upload_id p @ be64 (fc_byte_offset p) @ be32 (fc_chunk_size p) @ be32 (fc_chunk_crc p)"

definition dec_FileChunkPayload :: "bytes \<Rightarrow> FileChunkPayload" where
  "dec_FileChunkPayload bs =
     \<lparr>fc_upload_id = take 16 bs,
      fc_byte_offset = rd64 (drop 16 bs),
      fc_chunk_size = rd32 (drop 24 bs),
      fc_chunk_crc = rd32 (drop 28 bs)\<rparr>"

definition wf_FileChunkPayload :: "FileChunkPayload \<Rightarrow> bool" where
  "wf_FileChunkPayload p \<longleftrightarrow> length (fc_upload_id p) = 16"

interpretation fc_struct: wire_struct enc_FileChunkPayload dec_FileChunkPayload sizeof_FileChunkPayload wf_FileChunkPayload
  by unfold_locales (simp_all add: enc_FileChunkPayload_def dec_FileChunkPayload_def wf_FileChunkPayload_def sizeof_FileChunkPayload_def)

record RoundEndPayload =
  re_upload_id :: bytes
  re_round_id :: u32
  re_chunk_count :: u32

definition sizeof_RoundEndPayload :: nat where
  "sizeof_RoundEndPayload = 24"

definition enc_RoundEndPayload :: "RoundEndPayload \<Rightarrow> bytes" where
  "enc_RoundEndPayload p =
     re_upload_id p @ be32 (re_round_id p) @ be32 (re_chunk_count p)"

definition dec_RoundEndPayload :: "bytes \<Rightarrow> RoundEndPayload" where
  "dec_RoundEndPayload bs =
     \<lparr>re_upload_id = take 16 bs,
      re_round_id = rd32 (drop 16 bs),
      re_chunk_count = rd32 (drop 20 bs)\<rparr>"

definition wf_RoundEndPayload :: "RoundEndPayload \<Rightarrow> bool" where
  "wf_RoundEndPayload p \<longleftrightarrow> length (re_upload_id p) = 16"

interpretation re_struct: wire_struct enc_RoundEndPayload dec_RoundEndPayload sizeof_RoundEndPayload wf_RoundEndPayload
  by unfold_locales (simp_all add: enc_RoundEndPayload_def dec_RoundEndPayload_def wf_RoundEndPayload_def sizeof_RoundEndPayload_def)

record FileAckPayload =
  fa_upload_id :: bytes
  fa_round_id :: u32
  fa_missing_count :: u32

definition sizeof_FileAckPayload :: nat where
  "sizeof_FileAckPayload = 24"

definition enc_FileAckPayload :: "FileAckPayload \<Rightarrow> bytes" where
  "enc_FileAckPayload p =
     fa_upload_id p @ be32 (fa_round_id p) @ be32 (fa_missing_count p)"

definition dec_FileAckPayload :: "bytes \<Rightarrow> FileAckPayload" where
  "dec_FileAckPayload bs =
     \<lparr>fa_upload_id = take 16 bs,
      fa_round_id = rd32 (drop 16 bs),
      fa_missing_count = rd32 (drop 20 bs)\<rparr>"

definition wf_FileAckPayload :: "FileAckPayload \<Rightarrow> bool" where
  "wf_FileAckPayload p \<longleftrightarrow> length (fa_upload_id p) = 16"

interpretation fa_struct: wire_struct enc_FileAckPayload dec_FileAckPayload sizeof_FileAckPayload wf_FileAckPayload
  by unfold_locales (simp_all add: enc_FileAckPayload_def dec_FileAckPayload_def wf_FileAckPayload_def sizeof_FileAckPayload_def)

record FileEndPayload =
  fe_upload_id :: bytes
  fe_final_crc :: u32

definition sizeof_FileEndPayload :: nat where
  "sizeof_FileEndPayload = 20"

definition enc_FileEndPayload :: "FileEndPayload \<Rightarrow> bytes" where
  "enc_FileEndPayload p =
     fe_upload_id p @ be32 (fe_final_crc p)"

definition dec_FileEndPayload :: "bytes \<Rightarrow> FileEndPayload" where
  "dec_FileEndPayload bs =
     \<lparr>fe_upload_id = take 16 bs,
      fe_final_crc = rd32 (drop 16 bs)\<rparr>"

definition wf_FileEndPayload :: "FileEndPayload \<Rightarrow> bool" where
  "wf_FileEndPayload p \<longleftrightarrow> length (fe_upload_id p) = 16"

interpretation fe_struct: wire_struct enc_FileEndPayload dec_FileEndPayload sizeof_FileEndPayload wf_FileEndPayload
  by unfold_locales (simp_all add: enc_FileEndPayload_def dec_FileEndPayload_def wf_FileEndPayload_def sizeof_FileEndPayload_def)

record LoginPayload =
  lg_identifier_len :: u16
  lg_password_len :: u16

definition sizeof_LoginPayload :: nat where
  "sizeof_LoginPayload = 4"

definition enc_LoginPayload :: "LoginPayload \<Rightarrow> bytes" where
  "enc_LoginPayload p =
     be16 (lg_identifier_len p) @ be16 (lg_password_len p)"

definition dec_LoginPayload :: "bytes \<Rightarrow> LoginPayload" where
  "dec_LoginPayload bs =
     \<lparr>lg_identifier_len = rd16 bs,
      lg_password_len = rd16 (drop 2 bs)\<rparr>"

interpretation lg_struct: wire_struct enc_LoginPayload dec_LoginPayload sizeof_LoginPayload "\<lambda>_. True"
  by unfold_locales (simp_all add: enc_LoginPayload_def dec_LoginPayload_def sizeof_LoginPayload_def)

record SignupPayload =
  su_email_len :: u16
  su_number_len :: u16
  su_username_len :: u16
  su_password_len :: u16

definition sizeof_SignupPayload :: nat where
  "sizeof_SignupPayload = 8"

definition enc_SignupPayload :: "SignupPayload \<Rightarrow> bytes" where
  "enc_SignupPayload p =
     be16 (su_email_len p) @ be16 (su_number_len p) @ be16 (su_username_len p) @ be16 (su_password_len p)"

definition dec_SignupPayload :: "bytes \<Rightarrow> SignupPayload" where
  "dec_SignupPayload bs =
     \<lparr>su_email_len = rd16 bs,
      su_number_len = rd16 (drop 2 bs),
      su_username_len = rd16 (drop 4 bs),
      su_password_len = rd16 (drop 6 bs)\<rparr>"

interpretation su_struct: wire_struct enc_SignupPayload dec_SignupPayload sizeof_SignupPayload "\<lambda>_. True"
  by unfold_locales (simp_all add: enc_SignupPayload_def dec_SignupPayload_def sizeof_SignupPayload_def)

record OtpReqPayload =
  oq_email_len :: u16

definition sizeof_OtpReqPayload :: nat where
  "sizeof_OtpReqPayload = 2"

definition enc_OtpReqPayload :: "OtpReqPayload \<Rightarrow> bytes" where
  "enc_OtpReqPayload p =
     be16 (oq_email_len p)"

definition dec_OtpReqPayload :: "bytes \<Rightarrow> OtpReqPayload" where
  "dec_OtpReqPayload bs =
     \<lparr>oq_email_len = rd16 bs\<rparr>"

interpretation oq_struct: wire_struct enc_OtpReqPayload dec_OtpReqPayload sizeof_OtpReqPayload "\<lambda>_. True"
  by unfold_locales (simp_all add: enc_OtpReqPayload_def dec_OtpReqPayload_def sizeof_OtpReqPayload_def)

record OtpVerifyPayload =
  ov_email_len :: u16
  ov_otp_len :: u16

definition sizeof_OtpVerifyPayload :: nat where
  "sizeof_OtpVerifyPayload = 4"

definition enc_OtpVerifyPayload :: "OtpVerifyPayload \<Rightarrow> bytes" where
  "enc_OtpVerifyPayload p =
     be16 (ov_email_len p) @ be16 (ov_otp_len p)"

definition dec_OtpVerifyPayload :: "bytes \<Rightarrow> OtpVerifyPayload" where
  "dec_OtpVerifyPayload bs =
     \<lparr>ov_email_len = rd16 bs,
      ov_otp_len = rd16 (drop 2 bs)\<rparr>"

interpretation ov_struct: wire_struct enc_OtpVerifyPayload dec_OtpVerifyPayload sizeof_OtpVerifyPayload "\<lambda>_. True"
  by unfold_locales (simp_all add: enc_OtpVerifyPayload_def dec_OtpVerifyPayload_def sizeof_OtpVerifyPayload_def)

record UserIdPayload =
  ui_server_temp_id :: bytes
  ui_user_id :: bytes

definition sizeof_UserIdPayload :: nat where
  "sizeof_UserIdPayload = 32"

definition enc_UserIdPayload :: "UserIdPayload \<Rightarrow> bytes" where
  "enc_UserIdPayload p =
     ui_server_temp_id p @ ui_user_id p"

definition dec_UserIdPayload :: "bytes \<Rightarrow> UserIdPayload" where
  "dec_UserIdPayload bs =
     \<lparr>ui_server_temp_id = take 16 bs,
      ui_user_id = take 16 (drop 16 bs)\<rparr>"

definition wf_UserIdPayload :: "UserIdPayload \<Rightarrow> bool" where
  "wf_UserIdPayload p \<longleftrightarrow> length (ui_server_temp_id p) = 16 \<and> length (ui_user_id p) = 16"

interpretation ui_struct: wire_struct enc_UserIdPayload dec_UserIdPayload sizeof_UserIdPayload wf_UserIdPayload
  by unfold_locales (simp_all add: enc_UserIdPayload_def dec_UserIdPayload_def wf_UserIdPayload_def sizeof_UserIdPayload_def)

record DownloadLinkPayload =
  dl_sender_id :: bytes
  dl_upload_id :: bytes
  dl_total_size :: u32
  dl_filename_len :: u16
  dl_timestamp_len :: u16

definition sizeof_DownloadLinkPayload :: nat where
  "sizeof_DownloadLinkPayload = 40"

definition enc_DownloadLinkPayload :: "DownloadLinkPayload \<Rightarrow> bytes" where
  "enc_DownloadLinkPayload p =
     dl_sender_id p @ dl_upload_id p @ be32 (dl_total_size p) @ be16 (dl_filename_len p) @ be16 (dl_timestamp_len p)"

definition dec_DownloadLinkPayload :: "bytes \<Rightarrow> DownloadLinkPayload" where
  "dec_DownloadLinkPayload bs =
     \<lparr>dl_sender_id = take 16 bs,
      dl_upload_id = take 16 (drop 16 bs),
      dl_total_size = rd32 (drop 32 bs),
      dl_filename_len = rd16 (drop 36 bs),
      dl_timestamp_len = rd16 (drop 38 bs)\<rparr>"

definition wf_DownloadLinkPayload :: "DownloadLinkPayload \<Rightarrow> bool" where
  "wf_DownloadLinkPayload p \<longleftrightarrow> length (dl_sender_id p) = 16 \<and> length (dl_upload_id p) = 16"

interpretation dl_struct: wire_struct enc_DownloadLinkPayload dec_DownloadLinkPayload sizeof_DownloadLinkPayload wf_DownloadLinkPayload
  by unfold_locales (simp_all add: enc_DownloadLinkPayload_def dec_DownloadLinkPayload_def wf_DownloadLinkPayload_def sizeof_DownloadLinkPayload_def)

record DownloadReqPayload =
  dr_user_id :: bytes
  dr_upload_id :: bytes
  dr_bytes_requested :: u32

definition sizeof_DownloadReqPayload :: nat where
  "sizeof_DownloadReqPayload = 36"

definition enc_DownloadReqPayload :: "DownloadReqPayload \<Rightarrow> bytes" where
  "enc_DownloadReqPayload p =
     dr_user_id p @ dr_upload_id p @ be32 (dr_bytes_requested p)"

definition dec_DownloadReqPayload :: "bytes \<Rightarrow> DownloadReqPayload" where
  "dec_DownloadReqPayload bs =
     \<lparr>dr_user_id = take 16 bs,
      dr_upload_id = take 16 (drop 16 bs),
      dr_bytes_requested = rd32 (drop 32 bs)\<rparr>"

definition wf_DownloadReqPayload :: "DownloadReqPayload \<Rightarrow> bool" where
  "wf_DownloadReqPayload p \<longleftrightarrow> length (dr_user_id p) = 16 \<and> length (dr_upload_id p) = 16"

interpretation dr_struct: wire_struct enc_DownloadReqPayload dec_DownloadReqPayload sizeof_DownloadReqPayload wf_DownloadReqPayload
  by unfold_locales (simp_all add: enc_DownloadReqPayload_def dec_DownloadReqPayload_def wf_DownloadReqPayload_def sizeof_DownloadReqPayload_def)

record StringPayload =
  sp_str_len :: u16

definition sizeof_StringPayload :: nat where
  "sizeof_StringPayload = 2"

definition enc_StringPayload :: "StringPayload \<Rightarrow> bytes" where
  "enc_StringPayload p =
     be16 (sp_str_len p)"

definition dec_StringPayload :: "bytes \<Rightarrow> StringPayload" where
  "dec_StringPayload bs =
     \<lparr>sp_str_len = rd16 bs\<rparr>"

interpretation sp_struct: wire_struct enc_StringPayload dec_StringPayload sizeof_StringPayload "\<lambda>_. True"
  by unfold_locales (simp_all add: enc_StringPayload_def dec_StringPayload_def sizeof_StringPayload_def)

record TokenGrantedPayload =
  tg_access_token_len :: u16
  tg_refresh_token_len :: u16

definition sizeof_TokenGrantedPayload :: nat where
  "sizeof_TokenGrantedPayload = 4"

definition enc_TokenGrantedPayload :: "TokenGrantedPayload \<Rightarrow> bytes" where
  "enc_TokenGrantedPayload p =
     be16 (tg_access_token_len p) @ be16 (tg_refresh_token_len p)"

definition dec_TokenGrantedPayload :: "bytes \<Rightarrow> TokenGrantedPayload" where
  "dec_TokenGrantedPayload bs =
     \<lparr>tg_access_token_len = rd16 bs,
      tg_refresh_token_len = rd16 (drop 2 bs)\<rparr>"

interpretation tg_struct: wire_struct enc_TokenGrantedPayload dec_TokenGrantedPayload sizeof_TokenGrantedPayload "\<lambda>_. True"
  by unfold_locales (simp_all add: enc_TokenGrantedPayload_def dec_TokenGrantedPayload_def sizeof_TokenGrantedPayload_def)

lemmas sizeof_defs =
  sizeof_ChatMessagePayload_def
  sizeof_FileStartPayload_def
  sizeof_FileStartResponsePayload_def
  sizeof_FileChunkPayload_def
  sizeof_RoundEndPayload_def
  sizeof_FileAckPayload_def
  sizeof_FileEndPayload_def
  sizeof_LoginPayload_def
  sizeof_SignupPayload_def
  sizeof_OtpReqPayload_def
  sizeof_OtpVerifyPayload_def
  sizeof_UserIdPayload_def
  sizeof_DownloadLinkPayload_def
  sizeof_DownloadReqPayload_def
  sizeof_StringPayload_def
  sizeof_TokenGrantedPayload_def

lemmas wf_struct_defs =
  wf_ChatMessagePayload_def
  wf_FileStartPayload_def
  wf_FileStartResponsePayload_def
  wf_FileChunkPayload_def
  wf_RoundEndPayload_def
  wf_FileAckPayload_def
  wf_FileEndPayload_def
  wf_UserIdPayload_def
  wf_DownloadLinkPayload_def
  wf_DownloadReqPayload_def

end
