(* ===== verification/Packet.thy ===== *)
theory Packet
  imports CRC32C Wire_Structs
begin

text \<open>
  \<open>protocol/PacketHeader.h\<close>, \<open>protocol/PacketTypes.h\<close>, \<open>protocol/Packet.h\<close> and
  \<open>protocol/Packet.cpp\<close>: the packet object with its 4096-byte buffer, header and payload
  parsing, and every serializer. The pointer \<open>in\<close> is kept as the offset \<open>in - data\<close>.
\<close>

section \<open>Header, types, packet object\<close>

definition HEADER_SIZE :: nat where "HEADER_SIZE = 16"
definition START_BYTE :: byte where "START_BYTE = 0xD5"
definition CURRENT_VERSION :: byte where "CURRENT_VERSION = 1"
definition DATA_SIZE :: nat where "DATA_SIZE = 4096"

lemmas packet_consts = HEADER_SIZE_def START_BYTE_def CURRENT_VERSION_def DATA_SIZE_def

datatype PacketType =
    PKT_LOGIN | PKT_LOGOUT | PKT_PRIVATE_MESSAGE | PKT_GROUP_MESSAGE | PKT_CREATE_GROUP
  | PKT_JOIN_GROUP | PKT_LEAVE_GROUP | PKT_FILE_START | PKT_FILE_CHUNK | PKT_FILE_END
  | FILE_DWNLD_DISCONNECT_REQUEST | PKT_ACKNOWLEDGMENT | PKT_RESUME | PKT_STATUS | FILE_STATUS
  | ROUND_STATUS | DOWNLOAD_LINK | DOWNLOAD_REQUEST | PKT_ROUND_END | PKT_FILE_ACK
  | PKT_FILE_ERROR | FILE_START_RESPONSE | PKT_SIGN_UP | PKT_OTP_REQ | PKT_OTP_VERIFY
  | PKT_TOKEN | PKT_REFRESH | PKT_TOKEN_GRANTED | PKT_AUTH_FAIL | PKT_SIGNUP_PENDING
  | PKT_USER_ID | PKT_SIGNUP_ERROR | PKT_FILE_STATUS

text \<open>The enumerators in the order of the source, the first of which is 1.\<close>

definition packet_types :: "PacketType list" where
  "packet_types =
    [PKT_LOGIN, PKT_LOGOUT, PKT_PRIVATE_MESSAGE, PKT_GROUP_MESSAGE, PKT_CREATE_GROUP,
     PKT_JOIN_GROUP, PKT_LEAVE_GROUP, PKT_FILE_START, PKT_FILE_CHUNK, PKT_FILE_END,
     FILE_DWNLD_DISCONNECT_REQUEST, PKT_ACKNOWLEDGMENT, PKT_RESUME, PKT_STATUS, FILE_STATUS,
     ROUND_STATUS, DOWNLOAD_LINK, DOWNLOAD_REQUEST, PKT_ROUND_END, PKT_FILE_ACK,
     PKT_FILE_ERROR, FILE_START_RESPONSE, PKT_SIGN_UP, PKT_OTP_REQ, PKT_OTP_VERIFY,
     PKT_TOKEN, PKT_REFRESH, PKT_TOKEN_GRANTED, PKT_AUTH_FAIL, PKT_SIGNUP_PENDING,
     PKT_USER_ID, PKT_SIGNUP_ERROR, PKT_FILE_STATUS]"

fun index_from :: "nat \<Rightarrow> 'a list \<Rightarrow> 'a \<Rightarrow> nat" where
  "index_from n [] x = n"
| "index_from n (y # ys) x = (if x = y then n else index_from (Suc n) ys x)"

definition type_code :: "PacketType \<Rightarrow> u16" where
  "type_code t = of_nat (index_from 1 packet_types t)"

text \<open>
  \<open>static_cast<PacketType>(header.type)\<close>: a value that is no enumerator reaches the
  \<open>default\<close> label of every switch.
\<close>

definition type_of_code :: "u16 \<Rightarrow> PacketType option" where
  "type_of_code c = find (\<lambda>t. type_code t = c) packet_types"

record PacketHeader =
  magic :: byte
  version :: byte
  type_field :: u16
  payload_length :: u32
  sequence_number :: u32
  checksum_field :: u32

record Packet =
  header :: PacketHeader
  data :: bytes
  in_pos :: nat
  writePos :: nat
  parsedHeader :: bool
  parsedData :: bool
  isSent :: bool
  isSending :: bool
  isSentFail :: bool
  bypassQueue :: bool
  pkt_id :: nat

definition zero_header :: PacketHeader where
  "zero_header = \<lparr>magic = 0, version = 0, type_field = 0, payload_length = 0,
     sequence_number = 0, checksum_field = 0\<rparr>"

text \<open>The object as constructed; \<open>header\<close> and \<open>data\<close> have no initializer and hold any value.\<close>

definition new_packet :: "PacketHeader \<Rightarrow> bytes \<Rightarrow> Packet" where
  "new_packet h d = \<lparr>header = h, data = d, in_pos = 0, writePos = HEADER_SIZE,
     parsedHeader = False, parsedData = False, isSent = False, isSending = False,
     isSentFail = False, bypassQueue = False, pkt_id = 0\<rparr>"

definition getPayloadRaw :: "Packet \<Rightarrow> bytes" where
  "getPayloadRaw p = drop HEADER_SIZE (data p)"

definition wf_packet :: "Packet \<Rightarrow> bool" where
  "wf_packet p \<longleftrightarrow> length (data p) = DATA_SIZE"

definition clearInPointer :: "Packet \<Rightarrow> Packet" where
  "clearInPointer p = p\<lparr>in_pos := 0, header := zero_header, parsedHeader := False,
     parsedData := False, isSent := False, isSending := False, isSentFail := False,
     bypassQueue := False, writePos := HEADER_SIZE\<rparr>"

definition bytesReceived :: "Packet \<Rightarrow> int" where
  "bytesReceived p = int (in_pos p)"

definition isHeaderComplete :: "Packet \<Rightarrow> bool" where
  "isHeaderComplete p \<longleftrightarrow> bytesReceived p \<ge> int HEADER_SIZE"

text \<open>
  \<open>static_cast<int>(HEADER_SIZE + header.payload_length)\<close>: the sum is a 32-bit unsigned value
  and may wrap; the cast reads it as a signed one.
\<close>

definition expected_int :: "Packet \<Rightarrow> int" where
  "expected_int p = sint (of_nat HEADER_SIZE + payload_length (header p))"

definition isComplete :: "Packet \<Rightarrow> bool" where
  "isComplete p \<longleftrightarrow> isHeaderComplete p \<and> bytesReceived p \<ge> expected_int p"

definition checkPacketVersion :: "Packet \<Rightarrow> bool" where
  "checkPacketVersion p \<longleftrightarrow>
     parsedHeader p \<and> magic (header p) = START_BYTE \<and> version (header p) = CURRENT_VERSION"

section \<open>Parsing\<close>

definition decode_header :: "bytes \<Rightarrow> PacketHeader" where
  "decode_header bs =
     \<lparr>magic = hd bs, version = hd (drop 1 bs), type_field = rd16 (drop 2 bs),
      payload_length = rd32 (drop 4 bs), sequence_number = rd32 (drop 8 bs),
      checksum_field = rd32 (drop 12 bs)\<rparr>"

definition parseHeader :: "Packet \<Rightarrow> bool \<times> Packet" where
  "parseHeader p =
     (if bytesReceived p < int HEADER_SIZE then (False, p)
      else let p1 = p\<lparr>header := decode_header (data p)\<rparr>
           in if magic (header p1) \<noteq> START_BYTE then (False, p1)
              else (True, p1\<lparr>parsedHeader := True\<rparr>))"

text \<open>The checksum is taken over the first twelve bytes and then over the payload.\<close>

definition parseData :: "Packet \<Rightarrow> (bool \<times> Packet) res" where
  "parseData p =
     (if \<not> parsedHeader p then Inr (False, p)
      else if bytesReceived p < expected_int p then Inr (False, p)
      else let len = payload_length (header p);
               crc0 = CRC32C_compute (take 12 (data p)) 0;
               k = (\<lambda>computed_crc.
                      if computed_crc \<noteq> checksum_field (header p) then Inr (False, p)
                      else Inr (True, p\<lparr>parsedData := True\<rparr>))
           in if len > 0
              then bind_res (read_bytes HEADER_SIZE (unat len) (data p))
                     (\<lambda>payload. k (CRC32C_compute payload crc0))
              else k crc0)"

section \<open>Serialization\<close>

definition resetWritePos :: "Packet \<Rightarrow> Packet" where
  "resetWritePos p = p\<lparr>writePos := HEADER_SIZE\<rparr>"

text \<open>\<open>memcpy(data + writePos, bs, n)\<close> followed by \<open>writePos += n\<close>.\<close>

definition put :: "bytes \<Rightarrow> Packet \<Rightarrow> Packet" where
  "put bs p = p\<lparr>data := blit (data p) (writePos p) bs, writePos := writePos p + length bs\<rparr>"

text \<open>The header fields \<open>finalizePacket\<close> stores before the checksum: bytes 0 to 11.\<close>

definition header_prefix :: "PacketType \<Rightarrow> u32 \<Rightarrow> bytes" where
  "header_prefix type payload_len =
     [START_BYTE, CURRENT_VERSION] @ be16 (type_code type) @ be32 payload_len @ be32 0"

definition finalizePacket :: "PacketType \<Rightarrow> Packet \<Rightarrow> bool \<times> Packet" where
  "finalizePacket type p =
     (let payload_len = of_nat (writePos p - HEADER_SIZE) :: u32;
          d1 = blit (data p) 0 (header_prefix type payload_len);
          crc0 = CRC32C_compute (take 12 d1) 0;
          computed_crc =
            (if payload_len > 0
             then CRC32C_compute (segment HEADER_SIZE (unat payload_len) d1) crc0 else crc0)
      in (True, p\<lparr>data := blit d1 12 (be32 computed_crc),
                  header := \<lparr>magic = START_BYTE, version = CURRENT_VERSION,
                    type_field = type_code type, payload_length = payload_len,
                    sequence_number = 0, checksum_field = computed_crc\<rparr>,
                  in_pos := writePos p\<rparr>))"

text \<open>
  Each serializer resets the write position, refuses what does not fit the buffer, writes the
  struct and the variable parts, and finalizes. The clock of \<open>serialize\<close> is the argument
  \<open>timestamp_ms\<close>; \<open>number\<close> is null in every call of the repository.
\<close>

definition serialize ::
  "u64 \<Rightarrow> PacketType \<Rightarrow> bytes \<Rightarrow> bytes \<Rightarrow> bytes option \<Rightarrow> string \<Rightarrow> string \<Rightarrow> Packet \<Rightarrow> bool \<times> Packet" where
  "serialize timestamp_ms type sender receiver number username payloadData p0 =
     (let p = resetWritePos p0
      in if writePos p + sizeof_ChatMessagePayload + length username + length payloadData > DATA_SIZE
         then (False, p)
         else finalizePacket type
                (put (str_bytes payloadData) (put (str_bytes username)
                  (put (enc_ChatMessagePayload
                     \<lparr>cm_sender_id = take 16 sender, cm_receiver_id = take 16 receiver,
                      cm_timestamp = timestamp_ms,
                      cm_message_number = (case number of None \<Rightarrow> 0 | Some n \<Rightarrow> le32 n),
                      cm_username_len = of_nat (length username),
                      cm_text_len = of_nat (length payloadData)\<rparr>) p))))"

definition serializeFileStart ::
  "bytes \<Rightarrow> bytes \<Rightarrow> string \<Rightarrow> u64 \<Rightarrow> u32 \<Rightarrow> Packet \<Rightarrow> bool \<times> Packet" where
  "serializeFileStart recid uploadId fileName totalSize finalCrc p0 =
     (let p = resetWritePos p0
      in if writePos p + sizeof_FileStartPayload + length fileName > DATA_SIZE then (False, p)
         else finalizePacket PKT_FILE_START
                (put (str_bytes fileName)
                  (put (enc_FileStartPayload
                     \<lparr>fs_receiver_id = take 16 recid, fs_upload_id = take 16 uploadId,
                      fs_total_size = totalSize, fs_final_crc = finalCrc,
                      fs_filename_len = of_nat (length fileName)\<rparr>) p)))"

definition serializeFileStartResponse :: "bytes \<Rightarrow> u64 \<Rightarrow> Packet \<Rightarrow> bool \<times> Packet" where
  "serializeFileStartResponse uploadId resumeOffset p0 =
     (let p = resetWritePos p0
      in if writePos p + sizeof_FileStartResponsePayload > DATA_SIZE then (False, p)
         else finalizePacket FILE_START_RESPONSE
                (put (enc_FileStartResponsePayload
                   \<lparr>fr_upload_id = take 16 uploadId, fr_resume_offset = resumeOffset\<rparr>) p))"

definition serializeFileChunk :: "bytes \<Rightarrow> u64 \<Rightarrow> bytes \<Rightarrow> Packet \<Rightarrow> bool \<times> Packet" where
  "serializeFileChunk uploadId byteOffset chunkData p0 =
     (let p = resetWritePos p0
      in if writePos p + sizeof_FileChunkPayload + length chunkData > DATA_SIZE then (False, p)
         else finalizePacket PKT_FILE_CHUNK
                (put chunkData
                  (put (enc_FileChunkPayload
                     \<lparr>fc_upload_id = take 16 uploadId, fc_byte_offset = byteOffset,
                      fc_chunk_size = of_nat (length chunkData),
                      fc_chunk_crc = CRC32C_compute chunkData 0\<rparr>) p)))"

definition serializeRoundEnd :: "bytes \<Rightarrow> u32 \<Rightarrow> u32 \<Rightarrow> Packet \<Rightarrow> bool \<times> Packet" where
  "serializeRoundEnd uploadId roundId chunkCount p0 =
     (let p = resetWritePos p0
      in if writePos p + sizeof_RoundEndPayload > DATA_SIZE then (False, p)
         else finalizePacket PKT_ROUND_END
                (put (enc_RoundEndPayload
                   \<lparr>re_upload_id = take 16 uploadId, re_round_id = roundId,
                    re_chunk_count = chunkCount\<rparr>) p))"

definition serializeFileAck :: "bytes \<Rightarrow> u32 \<Rightarrow> u32 list \<Rightarrow> Packet \<Rightarrow> bool \<times> Packet" where
  "serializeFileAck uploadId roundId missingChunks p0 =
     (let p = resetWritePos p0
      in if writePos p + sizeof_FileAckPayload + length missingChunks * 4 > DATA_SIZE
         then (False, p)
         else finalizePacket PKT_FILE_ACK
                (fold (\<lambda>chunk. put (be32 chunk)) missingChunks
                  (put (enc_FileAckPayload
                     \<lparr>fa_upload_id = take 16 uploadId, fa_round_id = roundId,
                      fa_missing_count = of_nat (length missingChunks)\<rparr>) p)))"

definition serializeFileEnd :: "bytes \<Rightarrow> u32 \<Rightarrow> Packet \<Rightarrow> bool \<times> Packet" where
  "serializeFileEnd uploadId finalCrc p0 =
     (let p = resetWritePos p0
      in if writePos p + sizeof_FileEndPayload > DATA_SIZE then (False, p)
         else finalizePacket PKT_FILE_END
                (put (enc_FileEndPayload
                   \<lparr>fe_upload_id = take 16 uploadId, fe_final_crc = finalCrc\<rparr>) p))"

definition serializeLink ::
  "bytes \<Rightarrow> bytes \<Rightarrow> string \<Rightarrow> u32 \<Rightarrow> string \<Rightarrow> Packet \<Rightarrow> bool \<times> Packet" where
  "serializeLink senderId uploadId filename totalsize timestamp p0 =
     (let p = resetWritePos p0
      in if writePos p + sizeof_DownloadLinkPayload + length filename + length timestamp > DATA_SIZE
         then (False, p)
         else finalizePacket DOWNLOAD_LINK
                (put (str_bytes timestamp) (put (str_bytes filename)
                  (put (enc_DownloadLinkPayload
                     \<lparr>dl_sender_id = take 16 senderId, dl_upload_id = take 16 uploadId,
                      dl_total_size = totalsize,
                      dl_filename_len = of_nat (length filename),
                      dl_timestamp_len = of_nat (length timestamp)\<rparr>) p))))"

definition serializeDownloadReq :: "bytes \<Rightarrow> bytes \<Rightarrow> u32 \<Rightarrow> Packet \<Rightarrow> bool \<times> Packet" where
  "serializeDownloadReq userId upId n p0 =
     (let p = resetWritePos p0
      in if writePos p + sizeof_DownloadReqPayload > DATA_SIZE then (False, p)
         else finalizePacket DOWNLOAD_REQUEST
                (put (enc_DownloadReqPayload
                   \<lparr>dr_user_id = take 16 userId, dr_upload_id = take 16 upId,
                    dr_bytes_requested = n\<rparr>) p))"

definition serializeLogin :: "string \<Rightarrow> string \<Rightarrow> Packet \<Rightarrow> bool \<times> Packet" where
  "serializeLogin identifier password p0 =
     (let p = resetWritePos p0
      in if writePos p + sizeof_LoginPayload + length identifier + length password > DATA_SIZE
         then (False, p)
         else finalizePacket PKT_LOGIN
                (put (str_bytes password) (put (str_bytes identifier)
                  (put (enc_LoginPayload
                     \<lparr>lg_identifier_len = of_nat (length identifier),
                      lg_password_len = of_nat (length password)\<rparr>) p))))"

definition serializeOtpRequest :: "string \<Rightarrow> Packet \<Rightarrow> bool \<times> Packet" where
  "serializeOtpRequest email p0 =
     (let p = resetWritePos p0
      in if writePos p + sizeof_OtpReqPayload + length email > DATA_SIZE then (False, p)
         else finalizePacket PKT_OTP_REQ
                (put (str_bytes email)
                  (put (enc_OtpReqPayload \<lparr>oq_email_len = of_nat (length email)\<rparr>) p)))"

definition serializeOtpVerification :: "string \<Rightarrow> string \<Rightarrow> Packet \<Rightarrow> bool \<times> Packet" where
  "serializeOtpVerification email otp p0 =
     (let p = resetWritePos p0
      in if writePos p + sizeof_OtpVerifyPayload + length email + length otp > DATA_SIZE
         then (False, p)
         else finalizePacket PKT_OTP_VERIFY
                (put (str_bytes otp) (put (str_bytes email)
                  (put (enc_OtpVerifyPayload
                     \<lparr>ov_email_len = of_nat (length email),
                      ov_otp_len = of_nat (length otp)\<rparr>) p))))"

definition serializeSignup ::
  "string \<Rightarrow> string \<Rightarrow> string \<Rightarrow> string \<Rightarrow> Packet \<Rightarrow> bool \<times> Packet" where
  "serializeSignup email number username password p0 =
     (let p = resetWritePos p0
      in if writePos p + sizeof_SignupPayload + length email + length number + length username
              + length password > DATA_SIZE
         then (False, p)
         else finalizePacket PKT_SIGN_UP
                (put (str_bytes password) (put (str_bytes username)
                  (put (str_bytes number) (put (str_bytes email)
                    (put (enc_SignupPayload
                       \<lparr>su_email_len = of_nat (length email),
                        su_number_len = of_nat (length number),
                        su_username_len = of_nat (length username),
                        su_password_len = of_nat (length password)\<rparr>) p))))))"

definition serializeUserId :: "bytes \<Rightarrow> bytes \<Rightarrow> Packet \<Rightarrow> bool \<times> Packet" where
  "serializeUserId userId serverTempId p0 =
     (let p = resetWritePos p0
      in if writePos p + sizeof_UserIdPayload > DATA_SIZE then (False, p)
         else finalizePacket PKT_USER_ID
                (put (enc_UserIdPayload
                   \<lparr>ui_server_temp_id = take 16 serverTempId, ui_user_id = take 16 userId\<rparr>) p))"

definition serializeToken :: "PacketType \<Rightarrow> bytes \<Rightarrow> bytes \<Rightarrow> Packet \<Rightarrow> bool \<times> Packet" where
  "serializeToken type accessToken refreshToken p0 =
     (let p = resetWritePos p0
      in if writePos p + sizeof_TokenGrantedPayload + length accessToken + length refreshToken > DATA_SIZE
         then (False, p)
         else finalizePacket type
                (put refreshToken (put accessToken
                  (put (enc_TokenGrantedPayload
                     \<lparr>tg_access_token_len = of_nat (length accessToken),
                      tg_refresh_token_len = of_nat (length refreshToken)\<rparr>) p))))"

definition serializeString :: "PacketType \<Rightarrow> string \<Rightarrow> Packet \<Rightarrow> bool \<times> Packet" where
  "serializeString type str p0 =
     (let p = resetWritePos p0
      in if writePos p + sizeof_StringPayload + length str > DATA_SIZE then (False, p)
         else finalizePacket type
                (put (str_bytes str)
                  (put (enc_StringPayload \<lparr>sp_str_len = of_nat (length str)\<rparr>) p)))"

definition serializeRaw :: "PacketType \<Rightarrow> string \<Rightarrow> Packet \<Rightarrow> bool \<times> Packet" where
  "serializeRaw type rawPayload p0 =
     (let p = resetWritePos p0
      in if writePos p + length rawPayload > DATA_SIZE then (False, p)
         else finalizePacket type (put (str_bytes rawPayload) p))"

lemmas serializer_defs =
  serialize_def serializeFileStart_def serializeFileStartResponse_def serializeFileChunk_def
  serializeRoundEnd_def serializeFileAck_def serializeFileEnd_def serializeLink_def
  serializeDownloadReq_def serializeLogin_def serializeOtpRequest_def
  serializeOtpVerification_def serializeSignup_def serializeUserId_def serializeToken_def
  serializeString_def serializeRaw_def

section \<open>What a serializer leaves in the buffer\<close>

text \<open>
  The checksum the header and the payload determine, and the whole packet as it stands at the
  start of the buffer.
\<close>

definition frame_crc :: "PacketType \<Rightarrow> bytes \<Rightarrow> u32" where
  "frame_crc type payload = CRC32C_compute (header_prefix type (of_nat (length payload)) @ payload) 0"

definition frame :: "PacketType \<Rightarrow> bytes \<Rightarrow> bytes" where
  "frame type payload =
     header_prefix type (of_nat (length payload)) @ be32 (frame_crc type payload) @ payload"

definition frame_header :: "PacketType \<Rightarrow> bytes \<Rightarrow> PacketHeader" where
  "frame_header type payload =
     \<lparr>magic = START_BYTE, version = CURRENT_VERSION, type_field = type_code type,
      payload_length = of_nat (length payload), sequence_number = 0,
      checksum_field = frame_crc type payload\<rparr>"

text \<open>The packet object holds the packet of this type and payload.\<close>

definition holds_frame :: "PacketType \<Rightarrow> bytes \<Rightarrow> Packet \<Rightarrow> bool" where
  "holds_frame type payload p \<longleftrightarrow>
     length (data p) = DATA_SIZE \<and> in_pos p = HEADER_SIZE + length payload \<and>
     HEADER_SIZE + length payload \<le> DATA_SIZE \<and>
     take (HEADER_SIZE + length payload) (data p) = frame type payload"

definition emits :: "PacketType \<Rightarrow> bytes \<Rightarrow> Packet \<Rightarrow> bool \<times> Packet \<Rightarrow> bool" where
  "emits type payload p r \<longleftrightarrow>
     fst r \<and> holds_frame type payload (snd r) \<and> header (snd r) = frame_header type payload \<and>
     pkt_id (snd r) = pkt_id p \<and> bypassQueue (snd r) = bypassQueue p"

lemma length_header_prefix [simp]: "length (header_prefix type n) = 12"
  by (simp add: header_prefix_def)

lemma length_frame [simp]: "length (frame type payload) = HEADER_SIZE + length payload"
  by (simp add: frame_def HEADER_SIZE_def)

lemma put_put:
  assumes "writePos p + length a + length b \<le> length (data p)"
  shows "put b (put a p) = put (a @ b) p"
  using assms by (simp add: put_def blit_blit add.assoc)

lemma put_fields [simp]:
  "writePos (put a p) = writePos p + length a" "pkt_id (put a p) = pkt_id p"
  "bypassQueue (put a p) = bypassQueue p"
  by (simp_all add: put_def)

lemma length_data_put [simp]:
  "writePos p + length a \<le> length (data p) \<Longrightarrow> length (data (put a p)) = length (data p)"
  by (simp add: put_def)

lemma resetWritePos_fields [simp]:
  "writePos (resetWritePos p) = HEADER_SIZE" "data (resetWritePos p) = data p"
  "pkt_id (resetWritePos p) = pkt_id p" "bypassQueue (resetWritePos p) = bypassQueue p"
  by (simp_all add: resetWritePos_def)

lemma fold_put:
  assumes "writePos p + 4 * length cs \<le> length (data p)"
  shows "fold (\<lambda>c. put (be32 c)) cs p = put (concat (map be32 cs)) p"
  using assms
proof (induction cs arbitrary: p)
  case Nil
  then show ?case by (simp add: put_def blit_def)
next
  case (Cons c cs)
  have len: "length (concat (map be32 cs)) = 4 * length cs"
    by (induction cs) simp_all
  have "fold (\<lambda>c. put (be32 c)) cs (put (be32 c) p) = put (concat (map be32 cs)) (put (be32 c) p)"
    using Cons.prems by (intro Cons.IH) simp
  also have "\<dots> = put (be32 c @ concat (map be32 cs)) p"
    using Cons.prems len by (intro put_put) simp
  finally show ?case by simp
qed

lemma finalize_emits:
  assumes "wf_packet p" and "HEADER_SIZE + length payload \<le> DATA_SIZE"
  shows "emits type payload p (finalizePacket type (put payload (resetWritePos p)))"
proof -
  let ?n = "length payload"
  let ?d0 = "blit (data p) 16 payload"
  let ?d1 = "blit ?d0 0 (header_prefix type (of_nat ?n))"
  have d: "length (data p) = 4096" and n: "?n \<le> 4080"
    using assms by (simp_all add: wf_packet_def packet_consts)
  have unat_n: "unat (of_nat ?n :: u32) = ?n"
    using n by (simp add: unat_of_nat)
  have nz: "(of_nat ?n :: u32) > 0 \<longleftrightarrow> payload \<noteq> []"
    using unat_n by (simp add: word_less_nat_alt)
  have d1: "?d1 = header_prefix type (of_nat ?n) @ drop 12 ?d0"
    by (simp add: blit_def)
  have rest: "drop 16 ?d0 = payload @ drop (16 + ?n) (data p)"
    using d n by (simp add: drop_blit)
  have seg: "segment 16 ?n ?d1 = payload"
    using rest by (simp add: segment_def d1)
  have fc: "frame_crc type payload = CRC32C_compute payload (CRC32C_compute (take 12 ?d1) 0)"
    by (simp add: d1 frame_crc_def crc32c.crc_append)
  have crc: "frame_crc type payload =
      (if (of_nat ?n :: u32) > 0
       then CRC32C_compute (segment 16 (unat (of_nat ?n :: u32)) ?d1)
              (CRC32C_compute (take 12 ?d1) 0)
       else CRC32C_compute (take 12 ?d1) 0)"
    using nz seg unat_n fc by (auto simp: crc32c.crc_Nil)
  have d2: "take (16 + ?n) (blit ?d1 12 (be32 (frame_crc type payload))) = frame type payload"
    unfolding d1 blit_def [of "header_prefix type (of_nat ?n) @ drop 12 ?d0"]
    using rest by (simp add: frame_def)
  have len: "length (blit ?d1 12 (be32 (frame_crc type payload))) = 4096"
    using d n by (simp add: HEADER_SIZE_def)
  have "finalizePacket type (put payload (resetWritePos p)) =
      (True, (put payload (resetWritePos p))\<lparr>data := blit ?d1 12 (be32 (frame_crc type payload)),
         header := frame_header type payload, in_pos := 16 + ?n\<rparr>)"
    unfolding finalizePacket_def Let_def frame_header_def crc
    by (simp add: put_def HEADER_SIZE_def)
  then show ?thesis
    using d2 len n by (simp add: emits_def holds_frame_def HEADER_SIZE_def DATA_SIZE_def)
qed

lemma not_emits_False [simp]: "\<not> emits type payload p (False, q)"
  by (simp add: emits_def)

text \<open>The same for a payload written in several pieces.\<close>

lemma finalize_emits2:
  assumes "wf_packet p" and "HEADER_SIZE + length a + length b \<le> DATA_SIZE"
  shows "emits type (a @ b) p (finalizePacket type (put b (put a (resetWritePos p))))"
proof -
  have "put b (put a (resetWritePos p)) = put (a @ b) (resetWritePos p)"
    using assms by (intro put_put) (simp add: wf_packet_def)
  with assms show ?thesis by (simp add: finalize_emits)
qed

lemma finalize_emits3:
  assumes "wf_packet p" and "HEADER_SIZE + length a + length b + length c \<le> DATA_SIZE"
  shows "emits type (a @ b @ c) p (finalizePacket type (put c (put b (put a (resetWritePos p)))))"
proof -
  have "put b (put a (resetWritePos p)) = put (a @ b) (resetWritePos p)"
    using assms by (intro put_put) (simp add: wf_packet_def)
  with assms finalize_emits2 [of p "a @ b" c] show ?thesis by simp
qed

lemma finalize_emits5:
  assumes "wf_packet p"
    and "HEADER_SIZE + length a + length b + length c + length d + length e \<le> DATA_SIZE"
  shows "emits type (a @ b @ c @ d @ e) p
    (finalizePacket type (put e (put d (put c (put b (put a (resetWritePos p)))))))"
proof -
  have "put b (put a (resetWritePos p)) = put (a @ b) (resetWritePos p)"
    using assms by (intro put_put) (simp add: wf_packet_def)
  moreover have "put c (put (a @ b) (resetWritePos p)) = put ((a @ b) @ c) (resetWritePos p)"
    using assms by (intro put_put) (simp add: wf_packet_def)
  ultimately show ?thesis
    using assms finalize_emits3 [of p "a @ b @ c" d e] by simp
qed

lemmas enc_lengths =
  cm_struct.enc_length fs_struct.enc_length fr_struct.enc_length fc_struct.enc_length
  re_struct.enc_length fa_struct.enc_length fe_struct.enc_length
  lg_struct.enc_length [OF TrueI] su_struct.enc_length [OF TrueI]
  oq_struct.enc_length [OF TrueI] ov_struct.enc_length [OF TrueI] ui_struct.enc_length
  dl_struct.enc_length dr_struct.enc_length sp_struct.enc_length [OF TrueI]
  tg_struct.enc_length [OF TrueI]

lemmas emit_simps = Let_def packet_consts enc_lengths wf_struct_defs sizeof_defs

lemma serialize_emits:
  assumes "wf_packet p" "length sender = 16" "length receiver = 16"
    and "length username + length payloadData \<le> 4032"
  shows "emits type
    (enc_ChatMessagePayload
       \<lparr>cm_sender_id = sender, cm_receiver_id = receiver, cm_timestamp = timestamp_ms,
        cm_message_number = (case number of None \<Rightarrow> 0 | Some n \<Rightarrow> le32 n),
        cm_username_len = of_nat (length username), cm_text_len = of_nat (length payloadData)\<rparr>
     @ str_bytes username @ str_bytes payloadData) p
    (serialize timestamp_ms type sender receiver number username payloadData p)"
  using assms by (auto simp: serialize_def emit_simps intro!: finalize_emits3)

lemma serializeFileStart_emits:
  assumes "wf_packet p" "length recid = 16" "length uploadId = 16" "length fileName \<le> 4034"
  shows "emits PKT_FILE_START
    (enc_FileStartPayload
       \<lparr>fs_receiver_id = recid, fs_upload_id = uploadId, fs_total_size = totalSize,
        fs_final_crc = finalCrc, fs_filename_len = of_nat (length fileName)\<rparr>
     @ str_bytes fileName) p
    (serializeFileStart recid uploadId fileName totalSize finalCrc p)"
  using assms by (auto simp: serializeFileStart_def emit_simps intro!: finalize_emits2)

lemma serializeFileStartResponse_emits:
  assumes "wf_packet p" "length uploadId = 16"
  shows "emits FILE_START_RESPONSE
    (enc_FileStartResponsePayload \<lparr>fr_upload_id = uploadId, fr_resume_offset = off\<rparr>) p
    (serializeFileStartResponse uploadId off p)"
  using assms by (auto simp: serializeFileStartResponse_def emit_simps intro!: finalize_emits)

lemma serializeFileChunk_emits:
  assumes "wf_packet p" "length uploadId = 16" "length chunkData \<le> 4048"
  shows "emits PKT_FILE_CHUNK
    (enc_FileChunkPayload
       \<lparr>fc_upload_id = uploadId, fc_byte_offset = byteOffset,
        fc_chunk_size = of_nat (length chunkData), fc_chunk_crc = CRC32C_compute chunkData 0\<rparr>
     @ chunkData) p
    (serializeFileChunk uploadId byteOffset chunkData p)"
  using assms by (auto simp: serializeFileChunk_def emit_simps intro!: finalize_emits2)

lemma serializeRoundEnd_emits:
  assumes "wf_packet p" "length uploadId = 16"
  shows "emits PKT_ROUND_END
    (enc_RoundEndPayload
       \<lparr>re_upload_id = uploadId, re_round_id = roundId, re_chunk_count = chunkCount\<rparr>) p
    (serializeRoundEnd uploadId roundId chunkCount p)"
  using assms by (auto simp: serializeRoundEnd_def emit_simps intro!: finalize_emits)

lemma length_concat_be32 [simp]: "length (concat (map be32 cs)) = 4 * length cs"
  by (induction cs) simp_all

lemma serializeFileAck_emits:
  assumes "wf_packet p" "length uploadId = 16" "length missing \<le> 1014"
  shows "emits PKT_FILE_ACK
    (enc_FileAckPayload
       \<lparr>fa_upload_id = uploadId, fa_round_id = roundId,
        fa_missing_count = of_nat (length missing)\<rparr> @ concat (map be32 missing)) p
    (serializeFileAck uploadId roundId missing p)"
proof -
  let ?h = "enc_FileAckPayload
       \<lparr>fa_upload_id = uploadId, fa_round_id = roundId, fa_missing_count = of_nat (length missing)\<rparr>"
  have len: "length ?h = 24"
    using assms(2) by (simp add: emit_simps)
  have "fold (\<lambda>c. put (be32 c)) missing (put ?h (resetWritePos p)) =
      put (concat (map be32 missing)) (put ?h (resetWritePos p))"
    using assms len by (intro fold_put) (simp add: wf_packet_def packet_consts)
  then have "serializeFileAck uploadId roundId missing p =
      finalizePacket PKT_FILE_ACK (put (concat (map be32 missing)) (put ?h (resetWritePos p)))"
    using assms by (simp add: serializeFileAck_def emit_simps)
  with assms len show ?thesis
    by (auto simp: packet_consts intro!: finalize_emits2)
qed

lemma serializeFileAck_refuses:
  "length missing > 1014 \<Longrightarrow>
    serializeFileAck uploadId roundId missing p = (False, resetWritePos p)"
  by (simp add: serializeFileAck_def emit_simps)

lemma serializeFileEnd_emits:
  assumes "wf_packet p" "length uploadId = 16"
  shows "emits PKT_FILE_END
    (enc_FileEndPayload \<lparr>fe_upload_id = uploadId, fe_final_crc = finalCrc\<rparr>) p
    (serializeFileEnd uploadId finalCrc p)"
  using assms by (auto simp: serializeFileEnd_def emit_simps intro!: finalize_emits)

lemma serializeLink_emits:
  assumes "wf_packet p" "length senderId = 16" "length uploadId = 16"
    and "length filename + length timestamp \<le> 4040"
  shows "emits DOWNLOAD_LINK
    (enc_DownloadLinkPayload
       \<lparr>dl_sender_id = senderId, dl_upload_id = uploadId, dl_total_size = totalsize,
        dl_filename_len = of_nat (length filename), dl_timestamp_len = of_nat (length timestamp)\<rparr>
     @ str_bytes filename @ str_bytes timestamp) p
    (serializeLink senderId uploadId filename totalsize timestamp p)"
  using assms by (auto simp: serializeLink_def emit_simps intro!: finalize_emits3)

lemma serializeDownloadReq_emits:
  assumes "wf_packet p" "length userId = 16" "length upId = 16"
  shows "emits DOWNLOAD_REQUEST
    (enc_DownloadReqPayload
       \<lparr>dr_user_id = userId, dr_upload_id = upId, dr_bytes_requested = n\<rparr>) p
    (serializeDownloadReq userId upId n p)"
  using assms by (auto simp: serializeDownloadReq_def emit_simps intro!: finalize_emits)

lemma serializeLogin_emits:
  assumes "wf_packet p" "length identifier + length password \<le> 4076"
  shows "emits PKT_LOGIN
    (enc_LoginPayload \<lparr>lg_identifier_len = of_nat (length identifier),
       lg_password_len = of_nat (length password)\<rparr>
     @ str_bytes identifier @ str_bytes password) p
    (serializeLogin identifier password p)"
  using assms by (auto simp: serializeLogin_def emit_simps intro!: finalize_emits3)

lemma serializeOtpRequest_emits:
  assumes "wf_packet p" "length email \<le> 4078"
  shows "emits PKT_OTP_REQ
    (enc_OtpReqPayload \<lparr>oq_email_len = of_nat (length email)\<rparr> @ str_bytes email) p
    (serializeOtpRequest email p)"
  using assms by (auto simp: serializeOtpRequest_def emit_simps intro!: finalize_emits2)

lemma serializeOtpVerification_emits:
  assumes "wf_packet p" "length email + length otp \<le> 4076"
  shows "emits PKT_OTP_VERIFY
    (enc_OtpVerifyPayload \<lparr>ov_email_len = of_nat (length email), ov_otp_len = of_nat (length otp)\<rparr>
     @ str_bytes email @ str_bytes otp) p
    (serializeOtpVerification email otp p)"
  using assms by (auto simp: serializeOtpVerification_def emit_simps intro!: finalize_emits3)

lemma serializeSignup_emits:
  assumes "wf_packet p"
    and "length email + length number + length username + length password \<le> 4072"
  shows "emits PKT_SIGN_UP
    (enc_SignupPayload
       \<lparr>su_email_len = of_nat (length email), su_number_len = of_nat (length number),
        su_username_len = of_nat (length username), su_password_len = of_nat (length password)\<rparr>
     @ str_bytes email @ str_bytes number @ str_bytes username @ str_bytes password) p
    (serializeSignup email number username password p)"
  using assms by (auto simp: serializeSignup_def emit_simps intro!: finalize_emits5)

lemma serializeUserId_emits:
  assumes "wf_packet p" "length userId = 16" "length serverTempId = 16"
  shows "emits PKT_USER_ID
    (enc_UserIdPayload \<lparr>ui_server_temp_id = serverTempId, ui_user_id = userId\<rparr>) p
    (serializeUserId userId serverTempId p)"
  using assms by (auto simp: serializeUserId_def emit_simps intro!: finalize_emits)

lemma serializeToken_emits:
  assumes "wf_packet p" "length access + length refresh \<le> 4076"
  shows "emits type
    (enc_TokenGrantedPayload \<lparr>tg_access_token_len = of_nat (length access),
       tg_refresh_token_len = of_nat (length refresh)\<rparr> @ access @ refresh) p
    (serializeToken type access refresh p)"
  using assms by (auto simp: serializeToken_def emit_simps intro!: finalize_emits3)

lemma serializeString_emits:
  assumes "wf_packet p" "length str \<le> 4078"
  shows "emits type
    (enc_StringPayload \<lparr>sp_str_len = of_nat (length str)\<rparr> @ str_bytes str) p
    (serializeString type str p)"
  using assms by (auto simp: serializeString_def emit_simps intro!: finalize_emits2)

lemma serializeRaw_emits:
  assumes "wf_packet p" "length raw \<le> 4080"
  shows "emits type (str_bytes raw) p (serializeRaw type raw p)"
  using assms by (auto simp: serializeRaw_def emit_simps intro!: finalize_emits)

section \<open>Reading a packet back\<close>

lemma distinct_packet_types: "distinct packet_types"
  by (simp add: packet_types_def)

lemma type_of_code_type_code [simp]: "type_of_code (type_code t) = Some t"
  by (cases t) (simp_all add: type_of_code_def type_code_def packet_types_def)

lemma type_code_inject [simp]: "type_code t = type_code u \<longleftrightarrow> t = u"
  by (metis option.inject type_of_code_type_code)

lemma type_of_code_Some: "type_of_code c = Some t \<Longrightarrow> type_code t = c"
  by (auto simp: type_of_code_def find_Some_iff)

lemma decode_frame: "decode_header (frame type payload @ rest) = frame_header type payload"
  by (simp add: decode_header_def frame_def header_prefix_def frame_header_def)

text \<open>What \<open>workerThread\<close> and \<open>receiveLoop\<close> do with a packet cut out of the stream.\<close>

definition accepts :: "Packet \<Rightarrow> bool" where
  "accepts p =
     (case parseHeader p of (ok1, p1) \<Rightarrow>
        (case parseData p1 of Inl _ \<Rightarrow> False | Inr (ok2, _) \<Rightarrow> ok1 \<and> ok2))"

text \<open>The bytes the checksum covers, and the condition \<open>parseData\<close> tests.\<close>

definition covered :: "Packet \<Rightarrow> bytes" where
  "covered p = take 12 (data p) @ segment HEADER_SIZE (unat (rd32 (drop 4 (data p)))) (data p)"

lemma sint_small: "unat x < 2 ^ 31 \<Longrightarrow> sint x = int (unat x)" for x :: u32
proof -
  assume a: "unat x < 2 ^ 31"
  have "int (unat x) < int (2 ^ 31)" using a by (simp only: of_nat_less_iff)
  then have u: "uint x < 2 ^ 31" by simp
  have "- (2 ^ 31) \<le> uint x" by (rule order_trans [of _ 0]) simp_all
  then have "signed_take_bit 31 (uint x) = uint x"
    using u by (rule signed_take_bit_int_eq_self)
  then show ?thesis
    by (simp add: sint_uint)
qed
lemma expected_int_small:
  assumes "unat (payload_length (header p)) \<le> 4080"
  shows "expected_int p = 16 + int (unat (payload_length (header p)))"
proof -
  let ?n = "payload_length (header p)"
  have u: "unat (16 + ?n) = 16 + unat ?n"
    by (subst unat_add_small) (use assms in simp_all)
  then have "sint (16 + ?n) = int (unat (16 + ?n))"
    using assms by (intro sint_small) simp
  then have "sint (16 + ?n) = 16 + int (unat ?n)" unfolding u by simp
  then show ?thesis by (simp only: expected_int_def HEADER_SIZE_def of_nat_numeral)
qed
text \<open>
  \<open>parseData\<close> on a packet whose payload is within the buffer: it tests the checksum of the
  covered bytes and nothing else.
\<close>

lemma parseData_within:
  assumes "parsedHeader p" "length (data p) = DATA_SIZE"
    and len: "unat (payload_length (header p)) = n" "n \<le> 4080" "16 + n \<le> in_pos p"
  shows "parseData p =
    (if CRC32C_compute (take 12 (data p) @ segment HEADER_SIZE n (data p)) 0 = checksum_field (header p)
     then Inr (True, p\<lparr>parsedData := True\<rparr>) else Inr (False, p))"
proof (cases "payload_length (header p) = 0")
  case True
  then have "n = 0" using len by simp
  with True assms show ?thesis
    using expected_int_small [of p]
    by (simp add: parseData_def bytesReceived_def segment_def)
next
  case False
  then have "payload_length (header p) > 0" by (simp add: word_gt_0)
  with assms show ?thesis
    using expected_int_small [of p]
    by (simp add: parseData_def bytesReceived_def read_bytes_def packet_consts crc32c.crc_append)
qed

lemma holds_frame_header:
  assumes "holds_frame type payload p"
  shows "decode_header (data p) = frame_header type payload"
proof -
  have "data p = frame type payload @ drop (HEADER_SIZE + length payload) (data p)"
    using assms by (metis append_take_drop_id holds_frame_def)
  then show ?thesis by (metis decode_frame)
qed

lemma frame_len_unat:
  "HEADER_SIZE + length payload \<le> DATA_SIZE \<Longrightarrow>
    unat (payload_length (frame_header type payload)) = length payload"
  by (simp add: frame_header_def packet_consts unat_of_nat)

lemma holds_frame_parts:
  assumes "holds_frame type payload p"
  shows "take 12 (data p) = header_prefix type (of_nat (length payload))"
    and "segment HEADER_SIZE (length payload) (data p) = payload"
proof -
  have f: "data p = frame type payload @ drop (HEADER_SIZE + length payload) (data p)"
    using assms by (metis append_take_drop_id holds_frame_def)
  show "take 12 (data p) = header_prefix type (of_nat (length payload))"
    by (subst f) (simp add: frame_def)
  show "segment HEADER_SIZE (length payload) (data p) = payload"
    by (subst f) (simp add: frame_def segment_def HEADER_SIZE_def)
qed

lemma parse_frame:
  assumes "holds_frame type payload p"
  shows "parseHeader p = (True, p\<lparr>header := frame_header type payload, parsedHeader := True\<rparr>)"
    and "parseData (p\<lparr>header := frame_header type payload, parsedHeader := True\<rparr>) =
      Inr (True, p\<lparr>header := frame_header type payload, parsedHeader := True, parsedData := True\<rparr>)"
proof -
  have pos: "in_pos p = HEADER_SIZE + length payload" and le: "HEADER_SIZE + length payload \<le> DATA_SIZE"
    and len: "length (data p) = DATA_SIZE"
    using assms by (simp_all add: holds_frame_def)
  show "parseHeader p = (True, p\<lparr>header := frame_header type payload, parsedHeader := True\<rparr>)"
    using pos holds_frame_header [OF assms]
    by (simp add: parseHeader_def bytesReceived_def frame_header_def Let_def)
  show "parseData (p\<lparr>header := frame_header type payload, parsedHeader := True\<rparr>) =
      Inr (True, p\<lparr>header := frame_header type payload, parsedHeader := True, parsedData := True\<rparr>)"
    using pos le len frame_len_unat [OF le, of type] holds_frame_parts [OF assms]
    by (subst parseData_within [where n = "length payload"])
      (simp_all add: packet_consts frame_header_def frame_crc_def)
qed

lemma accepts_frame: "holds_frame type payload p \<Longrightarrow> accepts p"
  by (simp add: accepts_def parse_frame)

section \<open>Acceptance as a condition on the bytes\<close>

lemma be32_rd32: "4 \<le> length bs \<Longrightarrow> be32 (rd32 bs) = take 4 bs"
proof -
  assume "4 \<le> length bs"
  then obtain a b c d r where bs: "bs = a # b # c # d # r"
    by (auto simp: numeral_eq_Suc Suc_le_length_iff)
  show ?thesis
    unfolding bs by (auto simp: be32_def bit_simps intro!: bit_word_eqI)
qed

lemma crc_update:
  assumes "i < length xs" "b \<noteq> xs ! i"
  shows "CRC32C_compute (xs[i := b]) c \<noteq> CRC32C_compute xs c"
  using assms crc32c.one_byte_detected [of b "xs ! i" "take i xs" "drop (Suc i) xs" c]
  by (simp add: upd_conv_take_nth_drop id_take_nth_drop [symmetric])

lemma accepts_iff:
  assumes "length (data p) = DATA_SIZE" "unat (rd32 (drop 4 (data p))) \<le> 4080"
    and "16 + unat (rd32 (drop 4 (data p))) \<le> in_pos p"
  shows "accepts p \<longleftrightarrow>
    hd (data p) = START_BYTE \<and> CRC32C_compute (covered p) 0 = rd32 (drop 12 (data p))"
proof (cases "hd (data p) = START_BYTE")
  case True
  let ?q = "p\<lparr>header := decode_header (data p), parsedHeader := True\<rparr>"
  have "parseHeader p = (True, ?q)"
    using True assms by (simp add: parseHeader_def bytesReceived_def decode_header_def HEADER_SIZE_def)
  moreover have "parseData ?q =
    (if CRC32C_compute (covered p) 0 = rd32 (drop 12 (data p))
     then Inr (True, ?q\<lparr>parsedData := True\<rparr>) else Inr (False, ?q))"
    using assms by (subst parseData_within [where n = "unat (rd32 (drop 4 (data p)))"])
      (simp_all add: decode_header_def covered_def)
  ultimately show ?thesis using True by (simp add: accepts_def)
next
  case False
  then have "fst (parseHeader p) = False"
    by (simp add: parseHeader_def decode_header_def Let_def)
  with False show ?thesis
    by (auto simp: accepts_def split: prod.splits sum.splits)
qed

lemma holds_frame_length:
  "holds_frame type payload p \<Longrightarrow> unat (rd32 (drop 4 (data p))) = length payload"
  using holds_frame_header [of type payload p] frame_len_unat [of payload type]
  by (simp add: holds_frame_def decode_header_def frame_header_def)

text \<open>Changing one byte that is not in the length field.\<close>

lemma rd32_length_update: "i < 4 \<or> 8 \<le> i \<Longrightarrow> rd32 (drop 4 (xs[i := b])) = rd32 (drop 4 xs)"
proof -
  assume "i < 4 \<or> 8 \<le> i"
  have pre: "rd32 (take 4 ys) = rd32 ys" for ys
    by (cases ys rule: rd32.cases) simp_all
  from \<open>i < 4 \<or> 8 \<le> i\<close> have "take 4 (drop 4 (xs[i := b])) = take 4 (drop 4 xs)"
    by (auto simp: drop_update_swap)
  then show ?thesis using pre by metis
qed

lemma covered_update:
  assumes "length xs = DATA_SIZE" "n \<le> 4080" "i < 12 \<or> (16 \<le> i \<and> i < 16 + n)"
  shows "take 12 (xs[i := b]) @ segment HEADER_SIZE n (xs[i := b]) =
    (take 12 xs @ segment HEADER_SIZE n xs)[(if i < 12 then i else i - 4) := b]"
  using assms(3)
proof
  assume "i < 12"
  then show ?thesis
    using assms(1) by (simp add: segment_def HEADER_SIZE_def DATA_SIZE_def take_update_swap list_update_append)
next
  assume i: "16 \<le> i \<and> i < 16 + n"
  then have "\<not> i - 4 < 12" "i - 4 - 12 = i - 16" "(take 12 xs)[i := b] = take 12 xs"
    by (auto simp: list_update_beyond)
  with i show ?thesis
    using assms(1,2)
    by (simp add: segment_def HEADER_SIZE_def DATA_SIZE_def drop_update_swap take_update_swap list_update_append)
qed

lemma checksum_update:
  assumes "length xs = DATA_SIZE" "12 \<le> i" "i < 16" "b \<noteq> xs ! i"
  shows "rd32 (drop 12 (xs[i := b])) \<noteq> rd32 (drop 12 xs)"
proof
  assume "rd32 (drop 12 (xs[i := b])) = rd32 (drop 12 xs)"
  then have "take 4 (drop 12 (xs[i := b])) = take 4 (drop 12 xs)"
    using assms(1) be32_rd32 [of "drop 12 (xs[i := b])"] be32_rd32 [of "drop 12 xs"]
    by (simp add: DATA_SIZE_def)
  then have "take 4 (drop 12 (xs[i := b])) ! (i - 12) = take 4 (drop 12 xs) ! (i - 12)"
    by simp
  with assms show False by (simp add: DATA_SIZE_def)
qed

text \<open>
  C2. A packet in which one byte was changed on the way, anywhere in the header or the payload
  except in the four bytes of the length field, is refused by \<open>parseHeader\<close> and \<open>parseData\<close>.
\<close>

theorem corrupted_packet_refused:
  assumes "holds_frame type payload p"
    and "i < in_pos p" "i < 4 \<or> 8 \<le> i" "b \<noteq> data p ! i"
  shows "\<not> accepts (p\<lparr>data := (data p)[i := b]\<rparr>)"
proof -
  let ?q = "p\<lparr>data := (data p)[i := b]\<rparr>"
  have h: "length (data p) = DATA_SIZE" "in_pos p = 16 + length payload" "length payload \<le> 4080"
    using assms(1) by (simp_all add: holds_frame_def packet_consts)
  have n: "unat (rd32 (drop 4 (data p))) = length payload" "rd32 (drop 4 (data ?q)) = rd32 (drop 4 (data p))"
    using holds_frame_length [OF assms(1)] rd32_length_update [OF assms(3)] by simp_all
  have ok: "CRC32C_compute (covered p) 0 = rd32 (drop 12 (data p))"
    using accepts_frame [OF assms(1)] accepts_iff [of p] h n by simp
  have len: "length (covered p) = 12 + length payload"
    using h n by (simp add: covered_def HEADER_SIZE_def DATA_SIZE_def)
  have "CRC32C_compute (covered ?q) 0 \<noteq> rd32 (drop 12 (data ?q))"
  proof (cases "12 \<le> i \<and> i < 16")
    case True
    then have "covered ?q = covered p"
      using n by (simp add: covered_def segment_def HEADER_SIZE_def)
    with True ok checksum_update [of "data p" i b] assms(4) h(1) show ?thesis by simp
  next
    case False
    let ?j = "if i < 12 then i else i - 4"
    have "covered ?q = (covered p)[?j := b]"
      using covered_update [of "data p" "length payload" i b] False assms(2) h n
      by (auto simp: covered_def)
    moreover have "covered p ! ?j = data p ! i"
      using False assms(2) h n by (auto simp: covered_def nth_append segment_def packet_consts)
    moreover have "take 4 (drop 12 (data ?q)) = take 4 (drop 12 (data p))"
      using False by (auto simp: drop_update_swap)
    then have "rd32 (drop 12 (data ?q)) = rd32 (drop 12 (data p))"
      using be32_rd32 [of "drop 12 (data ?q)"] be32_rd32 [of "drop 12 (data p)"] h(1)
      by (simp add: DATA_SIZE_def flip: be32_inject)
    ultimately show ?thesis
      using ok crc_update [of ?j "covered p" b 0] assms(2,4) False h(2) len by (auto split: if_splits)
  qed
  then show ?thesis using accepts_iff [of ?q] h n by simp
qed

theorem corrupted_packet_refused_witness:
  "\<not> accepts (let p = snd (serializeRaw PKT_LOGOUT ''bye'' (new_packet zero_header (replicate 4096 0)))
              in p\<lparr>data := (data p)[17 := data p ! 17 + 1]\<rparr>)"
proof -
  let ?r = "serializeRaw PKT_LOGOUT ''bye'' (new_packet zero_header (replicate 4096 0))"
  have "emits PKT_LOGOUT (str_bytes ''bye'') (new_packet zero_header (replicate 4096 0)) ?r"
    by (rule serializeRaw_emits) (simp_all add: wf_packet_def new_packet_def DATA_SIZE_def)
  then have h: "holds_frame PKT_LOGOUT (str_bytes ''bye'') (snd ?r)" by (simp add: emits_def)
  then have "in_pos (snd ?r) = 19" by (simp add: holds_frame_def HEADER_SIZE_def)
  then show ?thesis
    using corrupted_packet_refused [OF h, of 17 "data (snd ?r) ! 17 + 1"] by (simp add: Let_def)
qed

section \<open>Round trips\<close>

lemma holds_frame_payload:
  "holds_frame type payload p \<Longrightarrow>
    getPayloadRaw p = payload @ drop (HEADER_SIZE + length payload) (data p)"
proof -
  assume a: "holds_frame type payload p"
  then have "data p = frame type payload @ drop (HEADER_SIZE + length payload) (data p)"
    by (metis append_take_drop_id holds_frame_def)
  then have "drop HEADER_SIZE (data p) =
      drop HEADER_SIZE (frame type payload) @ drop (HEADER_SIZE + length payload) (data p)"
    by (metis drop_append length_frame diff_is_0_eq' drop0 le_add1)
  then show ?thesis
    by (simp add: getPayloadRaw_def frame_def HEADER_SIZE_def)
qed

text \<open>What the receiving side sees of a packet a serializer produced.\<close>

lemma emits_received:
  assumes "emits type payload p r"
  shows "fst r" "accepts (snd r)"
    and "type_of_code (type_field (header (snd (parseHeader (snd r))))) = Some type"
    and "checkPacketVersion (snd (parseHeader (snd r)))"
    and "\<exists>rest. getPayloadRaw (snd r) = payload @ rest"
proof -
  have h: "holds_frame type payload (snd r)" using assms by (simp add: emits_def)
  show "fst r" using assms by (simp add: emits_def)
  show "accepts (snd r)" using h by (rule accepts_frame)
  show "type_of_code (type_field (header (snd (parseHeader (snd r))))) = Some type"
    and "checkPacketVersion (snd (parseHeader (snd r)))"
    using parse_frame(1) [OF h] by (simp_all add: frame_header_def checkPacketVersion_def)
  show "\<exists>rest. getPayloadRaw (snd r) = payload @ rest"
    using holds_frame_payload [OF h] by blast
qed

lemma segment_skip: "length a = k \<Longrightarrow> length b = n \<Longrightarrow> segment k n (a @ b @ c) = b"
  by (simp add: segment_def)

lemma unat_of_nat_u16: "n < 65536 \<Longrightarrow> unat (of_nat n :: u16) = n"
  by (simp add: unat_of_nat)

lemma unat_of_nat_u32: "n < 4294967296 \<Longrightarrow> unat (of_nat n :: u32) = n"
  by (simp add: unat_of_nat)

text \<open>
  C21. A chat message survives the wire: \<open>serialize\<close> succeeds when the user name and the
  text fit the buffer, the packet it leaves passes header and checksum tests with its own type, and
  the receiver reads back the two ids, the time stamp, the name and the text.
\<close>

theorem chat_message_roundtrip:
  assumes "wf_packet p" "length sender = 16" "length receiver = 16"
    and fits: "length username + length text \<le> 4032"
    and r: "r = serialize timestamp_ms type sender receiver None username text p"
    and m: "m = dec_ChatMessagePayload (getPayloadRaw (snd r))"
  shows "fst r \<and> accepts (snd r) \<and>
    type_of_code (type_field (header (snd (parseHeader (snd r))))) = Some type \<and>
    cm_sender_id m = sender \<and> cm_receiver_id m = receiver \<and> cm_timestamp m = timestamp_ms \<and>
    bytes_str (segment 48 (unat (cm_username_len m)) (getPayloadRaw (snd r))) = username \<and>
    bytes_str (segment (48 + unat (cm_username_len m)) (unat (cm_text_len m)) (getPayloadRaw (snd r))) = text"
proof -
  let ?c = "\<lparr>cm_sender_id = sender, cm_receiver_id = receiver, cm_timestamp = timestamp_ms,
     cm_message_number = 0, cm_username_len = of_nat (length username),
     cm_text_len = of_nat (length text)\<rparr>"
  have e: "emits type (enc_ChatMessagePayload ?c @ str_bytes username @ str_bytes text) p r"
    using serialize_emits [OF assms(1-4), of type timestamp_ms None] r by simp
  have wf: "wf_ChatMessagePayload ?c" using assms(2,3) by (simp add: wf_ChatMessagePayload_def)
  have len: "length (enc_ChatMessagePayload ?c) = 48"
    using cm_struct.enc_length [OF wf] by (simp add: sizeof_ChatMessagePayload_def)
  obtain rest where raw: "getPayloadRaw (snd r) =
      enc_ChatMessagePayload ?c @ str_bytes username @ str_bytes text @ rest"
    using emits_received(5) [OF e] by auto
  then have mc: "m = ?c" using m cm_struct.dec_enc [OF wf] by simp
  have u: "unat (cm_username_len m) = length username" "unat (cm_text_len m) = length text"
    using fits mc by (simp_all add: unat_of_nat_u16)
  show ?thesis
    using emits_received [OF e] mc len
      segment_skip [of "enc_ChatMessagePayload ?c" 48 "str_bytes username" _ "str_bytes text @ rest"]
      segment_skip [of "enc_ChatMessagePayload ?c @ str_bytes username" _ "str_bytes text" _ rest]
    unfolding u raw by simp
qed

theorem chat_message_roundtrip_witness:
  "let r = serialize 7 PKT_PRIVATE_MESSAGE (replicate 16 1) (replicate 16 2) None ''ann'' ''hello''
         (new_packet zero_header (replicate 4096 0));
       raw = getPayloadRaw (snd r); m = dec_ChatMessagePayload raw
   in accepts (snd r) \<and> bytes_str (segment 48 (unat (cm_username_len m)) raw) = ''ann''
      \<and> bytes_str (segment (48 + unat (cm_username_len m)) (unat (cm_text_len m)) raw) = ''hello''"
  using chat_message_roundtrip [of "new_packet zero_header (replicate 4096 0)" "replicate 16 1"
      "replicate 16 2" "''ann''" "''hello''" _ 7 PKT_PRIVATE_MESSAGE, OF _ _ _ _ refl refl]
  by (simp add: Let_def wf_packet_def new_packet_def DATA_SIZE_def)

lemma drop_concat_be32:
  "i < length cs \<Longrightarrow> rd32 (drop (4 * i) (concat (map be32 cs)) @ rest) = cs ! i"
proof (induction cs arbitrary: i)
  case (Cons c cs)
  then show ?case by (cases i) simp_all
qed simp

text \<open>
  C22. The missing-chunk list of an acknowledgment survives the wire up to 1014 entries, and a longer
  list is refused without a packet: of the 1024 chunks of a round at most 1014 can be reported.
\<close>

theorem file_ack_roundtrip:
  assumes "wf_packet p" "length uploadId = 16"
    and r: "r = serializeFileAck uploadId roundId missing p"
    and a: "a = dec_FileAckPayload (getPayloadRaw (snd r))"
  shows "if length missing \<le> 1014
    then fst r \<and> accepts (snd r) \<and> fa_upload_id a = uploadId \<and> fa_round_id a = roundId \<and>
      map (\<lambda>i. rd32 (drop (24 + 4 * i) (getPayloadRaw (snd r)))) [0..<unat (fa_missing_count a)] = missing
    else \<not> fst r"
proof (cases "length missing \<le> 1014")
  case False
  then show ?thesis using serializeFileAck_refuses [of missing] r by simp
next
  case True
  let ?a = "\<lparr>fa_upload_id = uploadId, fa_round_id = roundId, fa_missing_count = of_nat (length missing)\<rparr>"
  have e: "emits PKT_FILE_ACK (enc_FileAckPayload ?a @ concat (map be32 missing)) p r"
    using serializeFileAck_emits [OF assms(1,2) True, of roundId] r by simp
  have wf: "wf_FileAckPayload ?a" using assms(2) by (simp add: wf_FileAckPayload_def)
  have len: "length (enc_FileAckPayload ?a) = 24"
    using fa_struct.enc_length [OF wf] by (simp add: sizeof_FileAckPayload_def)
  obtain rest where raw: "getPayloadRaw (snd r) =
      enc_FileAckPayload ?a @ concat (map be32 missing) @ rest"
    using emits_received(5) [OF e] by auto
  then have ma: "a = ?a" using a fa_struct.dec_enc [OF wf] by simp
  have u: "unat (fa_missing_count a) = length missing"
    using True ma by (simp add: unat_of_nat_u32)
  have "rd32 (drop (24 + 4 * i) (getPayloadRaw (snd r))) = missing ! i" if "i < length missing" for i
    using that len by (simp add: raw drop_concat_be32)
  then have "map (\<lambda>i. rd32 (drop (24 + 4 * i) (getPayloadRaw (snd r)))) [0..<unat (fa_missing_count a)] = missing"
    unfolding u by (intro nth_equalityI) simp_all
  then show ?thesis using True emits_received [OF e] ma by simp
qed

theorem file_ack_roundtrip_witness:
  "fst (serializeFileAck (replicate 16 5) 3 [10, 20] (new_packet zero_header (replicate 4096 0)))
   \<and> \<not> fst (serializeFileAck (replicate 16 5) 3 (replicate 1015 0) (new_packet zero_header (replicate 4096 0)))"
  using file_ack_roundtrip [of "new_packet zero_header (replicate 4096 0)" "replicate 16 5"
      _ 3 "[10, 20]", OF _ _ refl refl]
    file_ack_roundtrip [of "new_packet zero_header (replicate 4096 0)" "replicate 16 5"
      _ 3 "replicate 1015 0", OF _ _ refl refl]
  by (simp add: wf_packet_def new_packet_def DATA_SIZE_def)

section \<open>The signed length test\<close>

lemma sint_wrapped_sum:
  assumes "0x7FFFFFF0 \<le> unat (n :: u32)"
  shows "sint (16 + n) < 16"
proof -
  let ?m = "16 + n"
  have "unat ?m = (16 + unat n) mod 2 ^ 32" by (simp add: unat_word_ariths)
  moreover have "unat n < 2 ^ 32" using unsigned_less [of n] by simp
  ultimately have "unat ?m = (if unat n < 2 ^ 32 - 16 then 16 + unat n else 16 + unat n - 2 ^ 32)"
    by (simp add: mod_if)
  then consider "unat ?m < 16" | "2 ^ 31 \<le> unat ?m"
    using assms \<open>unat n < 2 ^ 32\<close> by (fastforce split: if_splits)
  then show ?thesis
  proof cases
    case 1
    then have "sint ?m = int (unat ?m)" by (intro sint_small) simp
    with 1 show ?thesis by linarith
  next
    case 2
    then have "(2 :: int) ^ 31 \<le> uint ?m"
      by (metis of_nat_le_iff of_nat_numeral of_nat_power uint_nat)
    then have "signed_take_bit 31 (uint ?m) \<le> uint ?m - 2 ^ Suc 31"
      by (rule signed_take_bit_int_less_eq)
    moreover have "uint ?m < 2 ^ 32" using uint_lt2p [of ?m] by simp
    ultimately show ?thesis by (simp add: sint_uint)
  qed
qed

text \<open>
  C33. \<open>isComplete\<close> and \<open>parseData\<close> compare the received length with a 32-bit sum cast to
  \<open>int\<close>. A header that declares 0x7FFFFFF0 bytes or more makes the cast negative or the sum wrap:
  the packet counts as complete with its header alone, and the checksum pass reads beyond the
  4096-byte buffer.
\<close>

theorem oversized_length_overreads:
  assumes "wf_packet p" "parsedHeader p" "HEADER_SIZE \<le> in_pos p"
    and "0x7FFFFFF0 \<le> unat (payload_length (header p))"
  shows "isComplete p \<and> parseData p = Inl OutOfBounds"
proof -
  have e: "expected_int p < bytesReceived p"
    using sint_wrapped_sum [OF assms(4)] assms(3)
    by (simp add: expected_int_def bytesReceived_def HEADER_SIZE_def)
  have "payload_length (header p) > 0"
    using assms(4) by (simp add: word_less_nat_alt)
  moreover have "read_bytes HEADER_SIZE (unat (payload_length (header p))) (data p) = Inl OutOfBounds"
    using assms(1,4) by (simp add: read_bytes_def wf_packet_def DATA_SIZE_def)
  ultimately show ?thesis
    using e assms(2,3) by (simp add: isComplete_def isHeaderComplete_def bytesReceived_def parseData_def)
qed

theorem oversized_length_overreads_witness:
  "let p = (new_packet (zero_header\<lparr>payload_length := 0x7FFFFFF0\<rparr>) (replicate 4096 0))
             \<lparr>in_pos := 16, parsedHeader := True\<rparr>
   in isComplete p \<and> parseData p = Inl OutOfBounds"
  using oversized_length_overreads [of "(new_packet (zero_header\<lparr>payload_length := 0x7FFFFFF0\<rparr>)
      (replicate 4096 0))\<lparr>in_pos := 16, parsedHeader := True\<rparr>"]
  by (simp add: Let_def wf_packet_def new_packet_def DATA_SIZE_def HEADER_SIZE_def)

end
