(* ===== verification/Circular_Buffer.thy ===== *)
theory Circular_Buffer
  imports Prelude
begin

text \<open>
  \<open>datastructure/circularBuffer.h\<close>: the 16 KiB ring buffer each socket receives into. The two
  indices are \<open>size_t\<close> counters that grow without bound and wrap at 64 bits; they are masked only
  where the array is indexed. The locale \<open>byte_fifo\<close> is what the receive path relies on, a
  bounded first-in-first-out queue of bytes, and the ring buffer is shown to implement it.
\<close>

section \<open>The class\<close>

definition cb_capacity :: u64 where "cb_capacity = 16384"
definition cb_mask :: u64 where "cb_mask = cb_capacity - 1"

record CircularBuffer =
  buffer :: bytes
  stidx :: u64
  endidx :: u64

definition new_buffer :: "bytes \<Rightarrow> CircularBuffer" where
  "new_buffer mem = \<lparr>buffer = mem, stidx = 0, endidx = 0\<rparr>"

definition size_cb :: "CircularBuffer \<Rightarrow> u64" where
  "size_cb b = endidx b - stidx b"

definition freeSpace :: "CircularBuffer \<Rightarrow> u64" where
  "freeSpace b = cb_capacity - size_cb b"

text \<open>The array position of a counter value.\<close>

definition phys :: "u64 \<Rightarrow> nat" where
  "phys i = unat (i AND cb_mask)"

text \<open>The loop of \<open>insert\<close>: \<open>buffer[(endidx + i) & mask] = startPtr[i]\<close>.\<close>

fun insert_loop :: "u64 \<Rightarrow> bytes \<Rightarrow> bytes \<Rightarrow> bytes" where
  "insert_loop e [] buf = buf"
| "insert_loop e (x # xs) buf = insert_loop (e + 1) xs (buf[phys e := x])"

definition insert_cb :: "bytes \<Rightarrow> CircularBuffer \<Rightarrow> bool \<times> CircularBuffer" where
  "insert_cb xs b =
     (if of_nat (length xs) > freeSpace b then (False, b)
      else (True, b\<lparr>buffer := insert_loop (endidx b) xs (buffer b),
                    endidx := endidx b + of_nat (length xs)\<rparr>))"

definition erase_cb :: "u64 \<Rightarrow> CircularBuffer \<Rightarrow> bool \<times> CircularBuffer" where
  "erase_cb n b = (if n > size_cb b then (False, b) else (True, b\<lparr>stidx := stidx b + n\<rparr>))"

text \<open>The loop of \<open>copy\<close> and \<open>consume\<close>: \<open>dest[i] = buffer[(stidx + i) & mask]\<close>.\<close>

fun copy_loop :: "u64 \<Rightarrow> nat \<Rightarrow> bytes \<Rightarrow> bytes" where
  "copy_loop s 0 buf = []"
| "copy_loop s (Suc n) buf = buf ! phys s # copy_loop (s + 1) n buf"

definition copy_cb :: "u64 \<Rightarrow> CircularBuffer \<Rightarrow> bytes option" where
  "copy_cb n b = (if size_cb b < n then None else Some (copy_loop (stidx b) (unat n) (buffer b)))"

definition consume_cb :: "u64 \<Rightarrow> CircularBuffer \<Rightarrow> bytes option \<times> CircularBuffer" where
  "consume_cb n b =
     (if size_cb b < n then (None, b)
      else (Some (copy_loop (stidx b) (unat n) (buffer b)), b\<lparr>stidx := stidx b + n\<rparr>))"

text \<open>The areas handed to \<open>WSARecv\<close>: start position in the array and length, in order.\<close>

definition getWriteBuffers :: "CircularBuffer \<Rightarrow> (nat \<times> nat) list" where
  "getWriteBuffers b =
     (let free = freeSpace b in
      if free = 0 then []
      else let wPhys = endidx b AND cb_mask; rPhys = stidx b AND cb_mask in
        if wPhys \<ge> rPhys then
          let tailSpace = cb_capacity - wPhys in
          if rPhys > 0 then [(unat wPhys, unat tailSpace), (0, unat rPhys)]
          else [(unat wPhys, unat tailSpace)]
        else [(unat wPhys, unat (rPhys - wPhys))])"

definition commitWrite :: "u64 \<Rightarrow> CircularBuffer \<Rightarrow> CircularBuffer" where
  "commitWrite n b = (if n > freeSpace b then b else b\<lparr>endidx := endidx b + n\<rparr>)"

text \<open>
  What \<open>WSARecv\<close> is documented to do with an array of buffers: the received bytes fill them in
  order.
\<close>

fun scatter :: "(nat \<times> nat) list \<Rightarrow> bytes \<Rightarrow> bytes \<Rightarrow> bytes" where
  "scatter [] bs mem = mem"
| "scatter ((off, n) # areas) bs mem = scatter areas (drop n bs) (blit mem off (take n bs))"

section \<open>The contract\<close>

locale byte_fifo =
  fixes inv :: "'b \<Rightarrow> bool" and contents :: "'b \<Rightarrow> bytes" and cap :: nat
    and ins :: "bytes \<Rightarrow> 'b \<Rightarrow> bool \<times> 'b" and peek :: "nat \<Rightarrow> 'b \<Rightarrow> bytes option"
    and take_out :: "nat \<Rightarrow> 'b \<Rightarrow> bytes option \<times> 'b"
  assumes contents_le: "inv b \<Longrightarrow> length (contents b) \<le> cap"
    and ins_fits: "\<lbrakk>inv b; length (contents b) + length xs \<le> cap\<rbrakk> \<Longrightarrow>
      fst (ins xs b) \<and> inv (snd (ins xs b)) \<and> contents (snd (ins xs b)) = contents b @ xs"
    and peek_eq: "\<lbrakk>inv b; n \<le> cap\<rbrakk> \<Longrightarrow>
      peek n b = (if n \<le> length (contents b) then Some (take n (contents b)) else None)"
    and take_out_ok: "\<lbrakk>inv b; n \<le> length (contents b)\<rbrakk> \<Longrightarrow>
      fst (take_out n b) = Some (take n (contents b)) \<and> inv (snd (take_out n b)) \<and>
      contents (snd (take_out n b)) = drop n (contents b)"
    and take_out_short: "\<lbrakk>inv b; n \<le> cap; length (contents b) < n\<rbrakk> \<Longrightarrow> take_out n b = (None, b)"
begin

lemma take_out_is_peek: "inv b \<Longrightarrow> n \<le> cap \<Longrightarrow> fst (take_out n b) = peek n b"
  using take_out_ok take_out_short by (cases "n \<le> length (contents b)") (simp_all add: peek_eq)

lemma fifo:
  assumes "inv b" "length (contents b) + length xs \<le> cap"
    and "n \<le> length (contents b) + length xs"
  shows "fst (take_out n (snd (ins xs b))) = Some (take n (contents b @ xs))"
    and "contents (snd (take_out n (snd (ins xs b)))) = drop n (contents b @ xs)"
    and "inv (snd (take_out n (snd (ins xs b))))"
  using ins_fits [OF assms(1,2)] take_out_ok [of "snd (ins xs b)" n] assms(3) by simp_all

lemma take_out_twice:
  assumes "inv b" "m + n \<le> length (contents b)"
  shows "fst (take_out n (snd (take_out m b))) = Some (segment m n (contents b))"
    and "contents (snd (take_out n (snd (take_out m b)))) = drop (m + n) (contents b)"
proof -
  have a: "inv (snd (take_out m b))" "contents (snd (take_out m b)) = drop m (contents b)"
    using take_out_ok [OF assms(1), of m] assms(2) by simp_all
  then show "fst (take_out n (snd (take_out m b))) = Some (segment m n (contents b))"
    and "contents (snd (take_out n (snd (take_out m b)))) = drop (m + n) (contents b)"
    using take_out_ok [OF a(1), of n] assms(2) by (simp_all add: segment_def add.commute)
qed

end

section \<open>The ring buffer as a list of bytes\<close>

definition cb_contents :: "CircularBuffer \<Rightarrow> bytes" where
  "cb_contents b = copy_loop (stidx b) (unat (size_cb b)) (buffer b)"

definition cb_inv :: "CircularBuffer \<Rightarrow> bool" where
  "cb_inv b \<longleftrightarrow> length (buffer b) = 16384 \<and> size_cb b \<le> cb_capacity"

lemma phys_eq: "phys i = unat i mod 16384"
  using unat_and_pow2 [of i 14] by (simp add: phys_def cb_mask_def cb_capacity_def)

lemma phys_less: "phys i < 16384"
  by (simp add: phys_eq)

lemma phys_add: "phys (i + of_nat k) = (unat i + k) mod 16384"
  using unat_add_mod_pow2 [of 14 i k] by (simp add: phys_eq)

lemma length_insert_loop [simp]: "length (insert_loop e xs buf) = length buf"
  by (induction xs arbitrary: e buf) simp_all

lemma length_copy_loop [simp]: "length (copy_loop s n buf) = n"
  by (induction n arbitrary: s) simp_all

lemma copy_loop_nth: "i < n \<Longrightarrow> copy_loop s n buf ! i = buf ! phys (s + of_nat i)"
proof (induction n arbitrary: s i)
  case (Suc n)
  then show ?case by (cases i) (simp_all add: add.assoc)
qed simp

lemma copy_loop_take: "k \<le> n \<Longrightarrow> take k (copy_loop s n buf) = copy_loop s k buf"
  by (intro nth_equalityI) (simp_all add: copy_loop_nth)

lemma copy_loop_drop: "k \<le> n \<Longrightarrow> drop k (copy_loop s n buf) = copy_loop (s + of_nat k) (n - k) buf"
  by (intro nth_equalityI) (simp_all add: copy_loop_nth add.assoc)

text \<open>The write loop touches exactly the positions it is meant to.\<close>

lemma insert_loop_nth:
  assumes "length buf = 16384" "length xs \<le> 16384" "j < 16384"
  shows "insert_loop e xs buf ! phys (e + of_nat j) =
    (if j < length xs then xs ! j else buf ! phys (e + of_nat j))"
  using assms
proof (induction xs arbitrary: e buf j)
  case (Cons x xs)
  show ?case
  proof (cases j)
    case 0
    have "phys e = phys (e + 1 + of_nat 16383)"
      using phys_add [of e 0] phys_add [of e 16384] by (simp add: add.assoc)
    moreover have "insert_loop (e + 1) xs (buf[phys e := x]) ! phys (e + 1 + of_nat 16383) =
        buf[phys e := x] ! phys (e + 1 + of_nat 16383)"
      using Cons.prems by (subst Cons.IH) simp_all
    ultimately show ?thesis using 0 Cons.prems by (simp add: phys_less)
  next
    case (Suc k)
    have ne: "phys (e + of_nat j) \<noteq> phys e"
    proof -
      have "(unat e + j) mod 16384 \<noteq> unat e mod 16384"
        using Suc Cons.prems(3) by (intro mod_shift_neq) simp_all
      then show ?thesis using phys_add [of e j] phys_add [of e 0] by simp
    qed
    have "e + of_nat j = e + 1 + of_nat k" using Suc by simp
    moreover have "insert_loop (e + 1) xs (buf[phys e := x]) ! phys (e + 1 + of_nat k) =
        (if k < length xs then xs ! k else buf[phys e := x] ! phys (e + 1 + of_nat k))"
      using Cons.prems Suc by (intro Cons.IH) simp_all
    ultimately show ?thesis using Suc ne by (simp add: add.assoc)
  qed
qed simp

lemma size_unat: "cb_inv b \<Longrightarrow> unat (size_cb b) \<le> 16384 \<and> unat (freeSpace b) = 16384 - unat (size_cb b)"
  by (simp add: cb_inv_def freeSpace_def cb_capacity_def word_le_nat_alt unat_sub)

lemma length_cb_contents [simp]: "length (cb_contents b) = unat (size_cb b)"
  by (simp add: cb_contents_def)

lemma endidx_eq: "endidx b = stidx b + of_nat (unat (size_cb b))"
  by (simp add: size_cb_def)

text \<open>
  Whoever writes the new bytes at the counter positions from \<open>endidx\<close> on, the loop of \<open>insert\<close>
  or the socket, appends them to the contents.
\<close>

definition written :: "CircularBuffer \<Rightarrow> bytes \<Rightarrow> bytes \<Rightarrow> bool" where
  "written b xs mem \<longleftrightarrow> length mem = 16384 \<and>
     (\<forall>j < 16384. mem ! phys (endidx b + of_nat j) =
        (if j < length xs then xs ! j else buffer b ! phys (endidx b + of_nat j)))"

lemma written_appends:
  assumes inv: "cb_inv b" and fits: "unat (size_cb b) + length xs \<le> 16384" and w: "written b xs mem"
    and b': "b' = b\<lparr>buffer := mem, endidx := endidx b + of_nat (length xs)\<rparr>"
  shows "cb_inv b'" and "cb_contents b' = cb_contents b @ xs"
proof -
  let ?n = "unat (size_cb b)"
  have "size_cb b' = size_cb b + of_nat (length xs)"
    by (simp add: b' size_cb_def)
  moreover have "unat (of_nat (length xs) :: u64) = length xs"
    using fits by (simp add: unat_of_nat)
  ultimately have n': "unat (size_cb b') = ?n + length xs"
    using fits by (simp add: unat_add_small)
  show "cb_inv b'"
    using n' fits w by (simp add: cb_inv_def written_def b' cb_capacity_def word_le_nat_alt)
  show "cb_contents b' = cb_contents b @ xs"
  proof (rule nth_equalityI)
    fix i assume "i < length (cb_contents b')"
    then have i: "i < ?n + length xs" using n' by simp
    show "cb_contents b' ! i = (cb_contents b @ xs) ! i"
    proof (cases "i < ?n")
      case True
      let ?j = "16384 - ?n + i"
      have "phys (endidx b + of_nat ?j) = phys (stidx b + of_nat (?n + ?j))"
        using endidx_eq [of b] by (simp add: add.assoc)
      also have "?n + ?j = i + 16384" using fits by simp
      also have "phys (stidx b + of_nat (i + 16384)) = phys (stidx b + of_nat i)"
        unfolding phys_add by (simp flip: add.assoc)
      finally have "phys (endidx b + of_nat ?j) = phys (stidx b + of_nat i)" .
      moreover have "?j < 16384" "\<not> ?j < length xs" using True fits by simp_all
      ultimately have "mem ! phys (stidx b + of_nat i) = buffer b ! phys (stidx b + of_nat i)"
        using w unfolding written_def by metis
      with True i n' show ?thesis by (simp add: cb_contents_def copy_loop_nth nth_append b')
    next
      case False
      then have "endidx b + of_nat (i - ?n) = stidx b + of_nat i"
        using endidx_eq [of b] by (simp add: of_nat_diff)
      moreover have "i - ?n < 16384" "i - ?n < length xs" using False i fits by simp_all
      ultimately have "mem ! phys (stidx b + of_nat i) = xs ! (i - ?n)"
        using w unfolding written_def by metis
      with False i n' show ?thesis by (simp add: cb_contents_def copy_loop_nth nth_append b')
    qed
  qed (simp add: n')
qed

lemma insert_cb_spec:
  assumes "cb_inv b" "unat (size_cb b) + length xs \<le> 16384"
  shows "fst (insert_cb xs b)" "cb_inv (snd (insert_cb xs b))"
    and "cb_contents (snd (insert_cb xs b)) = cb_contents b @ xs"
proof -
  have "unat (of_nat (length xs) :: u64) = length xs"
    using assms(2) by (simp add: unat_of_nat)
  then have "\<not> of_nat (length xs) > freeSpace b"
    using size_unat [OF assms(1)] assms(2) by (simp add: word_less_nat_alt)
  then have r: "insert_cb xs b = (True, b\<lparr>buffer := insert_loop (endidx b) xs (buffer b),
      endidx := endidx b + of_nat (length xs)\<rparr>)"
    by (simp add: insert_cb_def)
  have w: "written b xs (insert_loop (endidx b) xs (buffer b))"
    using assms by (simp add: written_def cb_inv_def insert_loop_nth)
  show "fst (insert_cb xs b)" "cb_inv (snd (insert_cb xs b))"
    and "cb_contents (snd (insert_cb xs b)) = cb_contents b @ xs"
    using written_appends [OF assms w refl] by (simp_all add: r)
qed

lemma insert_cb_full:
  assumes "cb_inv b" "16384 < unat (size_cb b) + length xs" "length xs < 2 ^ 64"
  shows "insert_cb xs b = (False, b)"
proof -
  have "unat (of_nat (length xs) :: u64) = length xs"
    using assms(3) by (simp add: unat_of_nat)
  then have "of_nat (length xs) > freeSpace b"
    using size_unat [OF assms(1)] assms(2) by (auto simp: word_less_nat_alt)
  then show ?thesis by (simp add: insert_cb_def)
qed

lemma advance_spec:
  assumes "cb_inv b" "n \<le> size_cb b"
  shows "cb_inv (b\<lparr>stidx := stidx b + n\<rparr>)"
    and "cb_contents (b\<lparr>stidx := stidx b + n\<rparr>) = drop (unat n) (cb_contents b)"
proof -
  have s: "size_cb (b\<lparr>stidx := stidx b + n\<rparr>) = size_cb b - n"
    by (simp add: size_cb_def)
  have u: "unat (size_cb b - n) = unat (size_cb b) - unat n" "unat n \<le> unat (size_cb b)"
    using assms(2) by (simp_all add: unat_sub word_le_nat_alt)
  show "cb_inv (b\<lparr>stidx := stidx b + n\<rparr>)"
    using assms(1) u by (auto simp: cb_inv_def s word_le_nat_alt)
  show "cb_contents (b\<lparr>stidx := stidx b + n\<rparr>) = drop (unat n) (cb_contents b)"
    using u by (simp add: cb_contents_def s copy_loop_drop)
qed

lemma copy_cb_spec:
  "copy_cb n b = (if n \<le> size_cb b then Some (take (unat n) (cb_contents b)) else None)"
  by (simp add: copy_cb_def cb_contents_def copy_loop_take word_le_nat_alt word_less_nat_alt not_le)

lemma consume_cb_copy:
  "consume_cb n b = (copy_cb n b, if n \<le> size_cb b then b\<lparr>stidx := stidx b + n\<rparr> else b)"
  by (simp add: consume_cb_def copy_cb_def not_less)

interpretation ring: byte_fifo cb_inv cb_contents 16384 insert_cb
  "\<lambda>n. copy_cb (of_nat n)" "\<lambda>n. consume_cb (of_nat n)"
proof
  fix b xs and n :: nat
  assume inv: "cb_inv b"
  show "length (cb_contents b) \<le> 16384" using size_unat [OF inv] by simp
  show "fst (insert_cb xs b) \<and> cb_inv (snd (insert_cb xs b)) \<and>
      cb_contents (snd (insert_cb xs b)) = cb_contents b @ xs"
    if "length (cb_contents b) + length xs \<le> 16384"
    using insert_cb_spec [OF inv] that by simp
  have le: "of_nat n \<le> size_cb b \<longleftrightarrow> n \<le> unat (size_cb b)" if "n \<le> 16384"
    using that by (simp add: word_le_nat_alt unat_of_nat)
  show "copy_cb (of_nat n) b =
      (if n \<le> length (cb_contents b) then Some (take n (cb_contents b)) else None)" if "n \<le> 16384"
    using le [OF that] that by (simp add: copy_cb_spec unat_of_nat)
  show "fst (consume_cb (of_nat n) b) = Some (take n (cb_contents b)) \<and>
      cb_inv (snd (consume_cb (of_nat n) b)) \<and>
      cb_contents (snd (consume_cb (of_nat n) b)) = drop n (cb_contents b)"
    if "n \<le> length (cb_contents b)"
  proof -
    have "n \<le> 16384" using that size_unat [OF inv] by simp
    with that le advance_spec [OF inv, of "of_nat n"] show ?thesis
      by (simp add: consume_cb_copy copy_cb_spec unat_of_nat)
  qed
  show "consume_cb (of_nat n) b = (None, b)" if "n \<le> 16384" "length (cb_contents b) < n"
    using le [OF that(1)] that by (simp add: consume_cb_copy copy_cb_spec)
qed

section \<open>Receiving into the free areas\<close>

lemma nth_blit:
  "off + length ys \<le> length xs \<Longrightarrow> i < length xs \<Longrightarrow>
    blit xs off ys ! i = (if off \<le> i \<and> i < off + length ys then ys ! (i - off) else xs ! i)"
  by (auto simp: blit_def nth_append)

lemma blit_Nil: "blit xs 0 [] = xs"
  by (simp add: blit_def)

lemma phys_end: "cb_inv b \<Longrightarrow> phys (endidx b) =
  (if phys (stidx b) + unat (size_cb b) < 16384 then phys (stidx b) + unat (size_cb b)
   else phys (stidx b) + unat (size_cb b) - 16384)"
proof -
  assume "cb_inv b"
  then have "unat (size_cb b) \<le> 16384" using size_unat by blast
  moreover have "phys (endidx b) = (phys (stidx b) + unat (size_cb b)) mod 16384"
    using phys_add [of "stidx b" "unat (size_cb b)"]
    unfolding endidx_eq [of b, symmetric] by (simp add: phys_eq [of "stidx b"] mod_simps)
  moreover have "phys (stidx b) < 16384" by (rule phys_less)
  ultimately show ?thesis
    using mod_wrap [of "phys (stidx b) + unat (size_cb b)" 16384] by simp
qed

lemma getWriteBuffers_eq:
  assumes "cb_inv b"
  shows "getWriteBuffers b =
    (let w = phys (endidx b); r = phys (stidx b) in
     if unat (size_cb b) = 16384 then []
     else if r \<le> w then (w, 16384 - w) # (if 0 < r then [(0, r)] else [])
     else [(w, r - w)])"
proof -
  have f: "freeSpace b = 0 \<longleftrightarrow> unat (size_cb b) = 16384"
    using size_unat [OF assms] by (auto simp: word_unat_eq_iff)
  have "unat (cb_capacity - (endidx b AND cb_mask)) = 16384 - phys (endidx b)"
    using phys_less [of "endidx b"]
    by (subst unat_sub) (simp_all add: phys_def cb_capacity_def word_le_nat_alt)
  moreover have "unat ((stidx b AND cb_mask) - (endidx b AND cb_mask)) = phys (stidx b) - phys (endidx b)"
    if "\<not> phys (stidx b) \<le> phys (endidx b)"
    using that by (subst unat_sub) (simp_all add: phys_def word_le_nat_alt)
  ultimately show ?thesis
    by (simp add: getWriteBuffers_def Let_def f phys_def word_le_nat_alt word_less_nat_alt)
qed

text \<open>The areas together are the free space, and none of them holds stored bytes.\<close>

lemma getWriteBuffers_total:
  "cb_inv b \<Longrightarrow> sum_list (map snd (getWriteBuffers b)) = unat (freeSpace b)"
  using phys_end [of b] size_unat [of b] phys_less [of "endidx b"] phys_less [of "stidx b"]
  by (auto simp: getWriteBuffers_eq Let_def split: if_splits)

lemma scatter_written:
  assumes inv: "cb_inv b" and fits: "unat (size_cb b) + length xs \<le> 16384"
  shows "written b xs (scatter (getWriteBuffers b) xs (buffer b))"
proof -
  let ?w = "phys (endidx b)" and ?r = "phys (stidx b)" and ?n = "unat (size_cb b)"
  have len: "length (buffer b) = 16384" using inv by (simp add: cb_inv_def)
  have lt: "?w < 16384" "?r < 16384" by (rule phys_less)+
  have pos: "phys (endidx b + of_nat j) = (if ?w + j < 16384 then ?w + j else ?w + j - 16384)"
    if "j < 16384" for j
  proof -
    have "phys (endidx b + of_nat j) = (?w + j) mod 16384"
      unfolding phys_add by (simp add: phys_eq mod_simps)
    moreover have "?w + j < 2 * 16384" using that lt(1) by linarith
    ultimately show ?thesis using mod_wrap [of "?w + j" 16384] by simp
  qed
  consider "?n = 16384" | "?n < 16384" "?r \<le> ?w" "?w = ?r + ?n"
    | "?n < 16384" "?w < ?r" "?w = ?r + ?n - 16384" "16384 \<le> ?r + ?n"
    using phys_end [OF inv] size_unat [OF inv] lt by (fastforce split: if_splits)
  then show ?thesis
  proof cases
    case 1
    with fits len show ?thesis by (simp add: written_def getWriteBuffers_eq [OF inv])
  next
    case 2
    let ?m = "blit (buffer b) ?w (take (16384 - ?w) xs)"
    have m: "length ?m = 16384" using len lt by simp
    have s: "scatter (getWriteBuffers b) xs (buffer b) = blit ?m 0 (take ?r (drop (16384 - ?w) xs))"
      using 2(1,2) by (cases "?r = 0") (simp_all add: getWriteBuffers_eq [OF inv] Let_def blit_Nil)
    have nth: "scatter (getWriteBuffers b) xs (buffer b) ! k =
        (if k < min ?r (length xs - (16384 - ?w)) then xs ! (16384 - ?w + k)
         else if ?w \<le> k \<and> k < ?w + min (16384 - ?w) (length xs) then xs ! (k - ?w)
         else buffer b ! k)" if "k < 16384" for k
    proof (cases "k < min ?r (length xs - (16384 - ?w))")
      case True
      then have "16384 - ?w \<le> length xs" by linarith
      with True that lt m show ?thesis unfolding s by (simp add: nth_blit)
    next
      case False
      with that lt len m show ?thesis unfolding s by (auto simp: nth_blit min.commute)
    qed
    have "scatter (getWriteBuffers b) xs (buffer b) ! phys (endidx b + of_nat j) =
        (if j < length xs then xs ! j else buffer b ! phys (endidx b + of_nat j))" if "j < 16384" for j
    proof (cases "?w + j < 16384")
      case True
      then show ?thesis using nth [of "?w + j"] 2(2) by (auto simp: pos [OF that])
    next
      case False
      then show ?thesis
        using nth [of "?w + j - 16384"] that fits 2(3) lt by (auto simp: pos [OF that])
    qed
    then show ?thesis using m lt fits 2 by (simp add: written_def s)
  next
    case 3
    have s: "scatter (getWriteBuffers b) xs (buffer b) = blit (buffer b) ?w (take (?r - ?w) xs)"
      using 3(1,2) by (simp add: getWriteBuffers_eq [OF inv] Let_def)
    have "scatter (getWriteBuffers b) xs (buffer b) ! phys (endidx b + of_nat j) =
        (if j < length xs then xs ! j else buffer b ! phys (endidx b + of_nat j))" if "j < 16384" for j
      using that fits 3 lt len unfolding s pos [OF that] by (auto simp: nth_blit)
    then show ?thesis using len lt fits 3 by (simp add: written_def s)
  qed
qed

lemma commit_received:
  assumes "cb_inv b" "length bs \<le> unat (freeSpace b)"
  shows "cb_inv (commitWrite (of_nat (length bs)) (b\<lparr>buffer := scatter (getWriteBuffers b) bs (buffer b)\<rparr>))"
    and "cb_contents (commitWrite (of_nat (length bs))
      (b\<lparr>buffer := scatter (getWriteBuffers b) bs (buffer b)\<rparr>)) = cb_contents b @ bs"
proof -
  let ?b = "b\<lparr>buffer := scatter (getWriteBuffers b) bs (buffer b)\<rparr>"
  have fits: "unat (size_cb b) + length bs \<le> 16384" using assms(2) size_unat [OF assms(1)] by auto
  have "unat (of_nat (length bs) :: u64) = length bs" using fits by (simp add: unat_of_nat)
  moreover have "freeSpace ?b = freeSpace b" by (simp add: freeSpace_def size_cb_def)
  ultimately have "commitWrite (of_nat (length bs)) ?b = ?b\<lparr>endidx := endidx b + of_nat (length bs)\<rparr>"
    using assms(2) by (simp add: commitWrite_def word_less_nat_alt)
  then show "cb_inv (commitWrite (of_nat (length bs)) ?b)"
    and "cb_contents (commitWrite (of_nat (length bs)) ?b) = cb_contents b @ bs"
    using written_appends [OF assms(1) fits scatter_written [OF assms(1) fits] refl] by simp_all
qed

text \<open>
  C10. The ring buffer is a bounded queue of bytes, whatever the values of its 64-bit counters:
  \<open>insert\<close> appends when the bytes fit into 16384 and otherwise changes nothing; \<open>consume\<close>
  returns and removes the oldest bytes, and returns nothing and removes nothing when there are
  not enough.
\<close>

theorem ring_buffer_is_bounded_queue:
  assumes "cb_inv b" "length xs < 2 ^ 64" "n \<le> 16384"
  shows "(case insert_cb xs b of (ok, b') \<Rightarrow> cb_inv b' \<and>
      (if length (cb_contents b) + length xs \<le> 16384 then ok \<and> cb_contents b' = cb_contents b @ xs
       else \<not> ok \<and> b' = b)) \<and>
    (case consume_cb (of_nat n) b of (out, b') \<Rightarrow> cb_inv b' \<and>
      (if n \<le> length (cb_contents b)
       then out = Some (take n (cb_contents b)) \<and> cb_contents b' = drop n (cb_contents b)
       else out = None \<and> b' = b))"
proof -
  have "insert_cb xs b = (False, b)" if "16384 < length (cb_contents b) + length xs"
    using insert_cb_full [OF assms(1) _ assms(2)] that by simp
  then show ?thesis
    using ring.ins_fits [OF assms(1), of xs] ring.take_out_ok [OF assms(1), of n]
      ring.take_out_short [OF assms(1,3)] assms(1)
    by (cases "length (cb_contents b) + length xs \<le> 16384"; cases "n \<le> length (cb_contents b)")
      (simp_all add: case_prod_beta not_le)
qed

text \<open>The counters may be about to wrap: here both are at the end of the 64-bit range.\<close>

theorem ring_buffer_is_bounded_queue_witness:
  "let b = \<lparr>buffer = replicate 16384 0, stidx = -1, endidx = -1\<rparr> in
   cb_contents (snd (insert_cb [7, 8, 9] b)) = [7, 8, 9]"
  using ring_buffer_is_bounded_queue
      [of "\<lparr>buffer = replicate 16384 0, stidx = -1, endidx = -1\<rparr>" "[7, 8, 9]" 0]
  by (simp add: Let_def cb_inv_def cb_contents_def size_cb_def case_prod_beta)

text \<open>
  C30. The receive path loses and reorders nothing: the one or two areas \<open>getWriteBuffers\<close> hands to
  the socket are together the free space of the buffer; once the socket has filled them in order
  with the received bytes and their number is committed, the contents are the old contents followed by
  the received bytes.
\<close>

theorem receive_path_appends:
  assumes inv: "cb_inv b"
    and recv_fills_in_order: "\<And>areas bytes mem. wsa_recv areas bytes mem = scatter areas bytes mem"
    and "length bs \<le> sum_list (map snd (getWriteBuffers b))"
    and b': "b' = commitWrite (of_nat (length bs))
      (b\<lparr>buffer := wsa_recv (getWriteBuffers b) bs (buffer b)\<rparr>)"
  shows "cb_inv b' \<and> cb_contents b' = cb_contents b @ bs \<and>
    sum_list (map snd (getWriteBuffers b)) = 16384 - length (cb_contents b)"
proof -
  have t: "sum_list (map snd (getWriteBuffers b)) = unat (freeSpace b)"
    using inv by (rule getWriteBuffers_total)
  then show ?thesis
    using commit_received [OF inv, of bs] assms(3) size_unat [OF inv]
    by (simp add: b' recv_fills_in_order)
qed

theorem receive_path_appends_witness:
  "let b = \<lparr>buffer = replicate 16384 0, stidx = 16380, endidx = 16382\<rparr> in
   cb_contents (commitWrite 5 (b\<lparr>buffer := scatter (getWriteBuffers b) [1, 2, 3, 4, 5] (buffer b)\<rparr>))
     = cb_contents b @ [1, 2, 3, 4, 5]"
  using receive_path_appends [of "\<lparr>buffer = replicate 16384 0, stidx = 16380, endidx = 16382\<rparr>"
      scatter "[1, 2, 3, 4, 5]", OF _ refl _ refl]
  by (simp add: Let_def cb_inv_def size_cb_def getWriteBuffers_def freeSpace_def cb_capacity_def
      cb_mask_def)

end
