(* ===== verification/Fixed_Queue.thy ===== *)
theory Fixed_Queue
  imports Prelude
begin

text \<open>
  \<open>datastructure/fixedQueue.h\<close>: the bounded queue \<open>Fqueue\<close> that hands out free indices, with a
  sequence number per slot. The operations are modelled as one thread runs them while no other
  thread is inside the queue: the \<open>compare_exchange\<close> then succeeds, and the branch that reloads
  the position and tries again would find the same state for ever, which is the result \<open>None\<close>. The
  locale \<open>bounded_queue\<close> is what the pool of I/O contexts relies on.
\<close>

section \<open>The class\<close>

record 'a Slot =
  slot_seq :: u64
  slot_data :: "'a option"

record 'a Fqueue =
  fq_capacity :: u64
  fq_pool :: "'a Slot list"
  fq_head :: u64
  fq_tail :: u64

definition smear :: "nat \<Rightarrow> u64 \<Rightarrow> u64" where
  "smear s n = n OR drop_bit s n"

definition round_up_to_power_of_two :: "u64 \<Rightarrow> u64" where
  "round_up_to_power_of_two n =
     (if n = 0 then 2
      else smear 32 (smear 16 (smear 8 (smear 4 (smear 2 (smear 1 (n - 1)))))) + 1)"

definition new_fqueue :: "u64 \<Rightarrow> 'a Fqueue" where
  "new_fqueue l =
     (let c = round_up_to_power_of_two l
      in \<lparr>fq_capacity = c,
          fq_pool = map (\<lambda>i. \<lparr>slot_seq = of_nat i, slot_data = None\<rparr>) [0..<unat c],
          fq_head = 0, fq_tail = 0\<rparr>)"

text \<open>\<open>pos & (capacity_ - 1)\<close>, and the signed distance of two sequence numbers.\<close>

definition slot_index :: "'a Fqueue \<Rightarrow> u64 \<Rightarrow> nat" where
  "slot_index q pos = unat (pos AND (fq_capacity q - 1))"

definition seq_diff :: "u64 \<Rightarrow> u64 \<Rightarrow> int" where
  "seq_diff s pos = sint (s - pos)"

definition push_fq :: "'a \<Rightarrow> 'a Fqueue \<Rightarrow> 'a Fqueue option" where
  "push_fq val q =
     (let pos = fq_head q; i = slot_index q pos; d = seq_diff (slot_seq (fq_pool q ! i)) pos
      in if d = 0 then
           Some (q\<lparr>fq_head := pos + 1,
                   fq_pool := (fq_pool q)[i := \<lparr>slot_seq = pos + 1, slot_data = Some val\<rparr>]\<rparr>)
         else if d < 0 then Some q
         else None)"

definition pop_fq :: "'a Fqueue \<Rightarrow> ('a option \<times> 'a Fqueue) option" where
  "pop_fq q =
     (let pos = fq_tail q; i = slot_index q pos; s = fq_pool q ! i;
          d = seq_diff (slot_seq s) (pos + 1)
      in if d = 0 then
           Some (slot_data s,
                 q\<lparr>fq_tail := pos + 1,
                   fq_pool := (fq_pool q)[i := \<lparr>slot_seq = pos + fq_capacity q, slot_data = None\<rparr>]\<rparr>)
         else if d < 0 then Some (None, q)
         else None)"

definition front_fq :: "'a Fqueue \<Rightarrow> 'a option" where
  "front_fq q =
     (let pos = fq_tail q; s = fq_pool q ! slot_index q pos
      in if seq_diff (slot_seq s) (pos + 1) \<noteq> 0 then None else slot_data s)"

definition empty_fq :: "'a Fqueue \<Rightarrow> bool" where
  "empty_fq q =
     (let pos = fq_tail q
      in seq_diff (slot_seq (fq_pool q ! slot_index q pos)) (pos + 1) \<noteq> 0)"

definition size_fq :: "'a Fqueue \<Rightarrow> u64" where
  "size_fq q = fq_head q - fq_tail q"

section \<open>Rounding the capacity\<close>

lemma bit_smear_chain:
  assumes "\<And>i. bit x i \<longleftrightarrow> (\<exists>d < w. bit m (i + d))"
  shows "bit (smear w x) i \<longleftrightarrow> (\<exists>d < 2 * w. bit m (i + d))"
proof -
  have "bit (smear w x) i \<longleftrightarrow> (\<exists>d < w. bit m (i + d)) \<or> (\<exists>d < w. bit m (w + i + d))"
    by (simp add: smear_def bit_simps assms)
  also have "\<dots> \<longleftrightarrow> (\<exists>d < 2 * w. bit m (i + d))"
  proof
    assume "(\<exists>d < w. bit m (i + d)) \<or> (\<exists>d < w. bit m (w + i + d))"
    then show "\<exists>d < 2 * w. bit m (i + d)"
    proof
      assume "\<exists>d < w. bit m (i + d)"
      then obtain d where "d < w" "bit m (i + d)" by blast
      then show ?thesis by (intro exI [of _ d]) simp
    next
      assume "\<exists>d < w. bit m (w + i + d)"
      then obtain d where "d < w" "bit m (i + (w + d))" by (auto simp: ac_simps)
      then show ?thesis by (intro exI [of _ "w + d"]) simp
    qed
  next
    assume "\<exists>d < 2 * w. bit m (i + d)"
    then obtain d where d: "d < 2 * w" "bit m (i + d)" by blast
    show "(\<exists>d < w. bit m (i + d)) \<or> (\<exists>d < w. bit m (w + i + d))"
    proof (cases "d < w")
      case False
      with d have "d - w < w" "bit m (w + i + (d - w))" by (simp_all add: ac_simps)
      then show ?thesis by blast
    qed (use d in blast)
  qed
  finally show ?thesis .
qed

lemma bit_smear_all:
  "bit (smear 32 (smear 16 (smear 8 (smear 4 (smear 2 (smear 1 m)))))) i \<longleftrightarrow> (\<exists>d < 64. bit m (i + d))"
proof -
  have 1: "bit (smear 1 m) i \<longleftrightarrow> (\<exists>d < 2. bit m (i + d))" for i
    using bit_smear_chain [of m 1 m] by simp
  have 2: "bit (smear 2 (smear 1 m)) i \<longleftrightarrow> (\<exists>d < 4. bit m (i + d))" for i
    using bit_smear_chain [of "smear 1 m" 2 m] 1 by simp
  have 3: "bit (smear 4 (smear 2 (smear 1 m))) i \<longleftrightarrow> (\<exists>d < 8. bit m (i + d))" for i
    using bit_smear_chain [of _ 4 m, OF 2] by simp
  have 4: "bit (smear 8 (smear 4 (smear 2 (smear 1 m)))) i \<longleftrightarrow> (\<exists>d < 16. bit m (i + d))" for i
    using bit_smear_chain [of _ 8 m, OF 3] by simp
  have 5: "bit (smear 16 (smear 8 (smear 4 (smear 2 (smear 1 m))))) i \<longleftrightarrow> (\<exists>d < 32. bit m (i + d))" for i
    using bit_smear_chain [of _ 16 m, OF 4] by simp
  show ?thesis using bit_smear_chain [of _ 32 m, OF 5] by simp
qed

text \<open>With \<open>k\<close> the length of the binary notation of \<open>m\<close>, smearing sets the bits below \<open>k\<close>.\<close>

lemma smear_all_mask:
  assumes "unat m < 2 ^ k" "k = 0 \<or> 2 ^ (k - 1) \<le> unat m" "k < 64"
  shows "smear 32 (smear 16 (smear 8 (smear 4 (smear 2 (smear 1 m))))) = mask k"
proof (rule bit_word_eqI)
  fix i assume "i < LENGTH(64)"
  have high: "\<not> bit m j" if "k \<le> j" for j
  proof
    assume "bit m j"
    then have "bit (unat m) j" by (simp add: bit_unsigned_iff)
    moreover have "take_bit k (unat m) = unat m" using assms(1) by (simp add: take_bit_nat_eq_self)
    ultimately have "j < k" by (metis bit_take_bit_iff)
    with that show False by simp
  qed
  have top: "bit m (k - 1)" if "0 < k"
  proof -
    have "2 ^ k = 2 * (2 :: nat) ^ (k - 1)" using that by (cases k) simp_all
    then have "unat m div 2 ^ (k - 1) = 1"
      using assms(1,2) that by (intro div_nat_eqI) auto
    then have "bit (unat m) (k - 1)" by (simp add: bit_iff_odd)
    then show ?thesis by (simp add: bit_unsigned_iff)
  qed
  show "bit (smear 32 (smear 16 (smear 8 (smear 4 (smear 2 (smear 1 m)))))) i = bit (mask k :: u64) i"
  proof (cases "i < k")
    case True
    then have "k - 1 - i < 64" "bit m (i + (k - 1 - i))" using top assms(3) by simp_all
    then show ?thesis unfolding bit_smear_all using True assms(3) by (auto simp: bit_mask_iff)
  next
    case False
    then show ?thesis unfolding bit_smear_all using high by (auto simp: bit_mask_iff)
  qed
qed

lemma round_up_exists:
  assumes "1 \<le> unat n" "unat n \<le> 2 ^ 63"
  shows "\<exists>k \<le> 63. round_up_to_power_of_two n = 2 ^ k \<and> unat n \<le> 2 ^ k \<and> (k = 0 \<or> 2 ^ (k - 1) < unat n)"
proof -
  define k where "k = (LEAST k. unat n \<le> 2 ^ k)"
  have n: "unat n \<le> 2 ^ k" unfolding k_def by (rule LeastI [of _ 63]) (rule assms(2))
  have k63: "k \<le> 63" unfolding k_def by (rule Least_le) (rule assms(2))
  have min: "2 ^ j < unat n" if "j < k" for j
    using not_less_Least [of j "\<lambda>k. unat n \<le> 2 ^ k"] that unfolding k_def by simp
  have "1 \<le> n" using assms(1) by (simp add: word_le_nat_alt)
  then have m: "unat (n - 1) = unat n - 1" by (simp add: unat_sub)
  have "smear 32 (smear 16 (smear 8 (smear 4 (smear 2 (smear 1 (n - 1)))))) = mask k"
  proof (rule smear_all_mask)
    show "unat (n - 1) < 2 ^ k" using m n assms(1) by simp
    show "k = 0 \<or> 2 ^ (k - 1) \<le> unat (n - 1)"
      using m min [of "k - 1"] by (cases k) simp_all
    show "k < 64" using k63 by simp
  qed
  moreover have "n \<noteq> 0" using assms(1) by auto
  ultimately have "round_up_to_power_of_two n = 2 ^ k"
    by (simp add: round_up_to_power_of_two_def mask_eq_exp_minus_1)
  moreover have "k = 0 \<or> 2 ^ (k - 1) < unat n" using min [of "k - 1"] by (cases k) simp_all
  ultimately show ?thesis using n k63 by blast
qed

section \<open>The contract\<close>

locale bounded_queue =
  fixes inv :: "'q \<Rightarrow> bool" and elems :: "'q \<Rightarrow> 'a list" and cap :: "'q \<Rightarrow> nat"
    and push :: "'a \<Rightarrow> 'q \<Rightarrow> 'q option" and pop :: "'q \<Rightarrow> ('a option \<times> 'q) option"
    and is_empty :: "'q \<Rightarrow> bool"
  assumes elems_le: "inv q \<Longrightarrow> length (elems q) \<le> cap q"
    and push_room: "\<lbrakk>inv q; length (elems q) < cap q\<rbrakk> \<Longrightarrow>
      \<exists>q'. push x q = Some q' \<and> inv q' \<and> elems q' = elems q @ [x] \<and> cap q' = cap q"
    and push_full: "\<lbrakk>inv q; length (elems q) = cap q\<rbrakk> \<Longrightarrow> push x q = Some q"
    and pop_some: "\<lbrakk>inv q; elems q = x # xs\<rbrakk> \<Longrightarrow>
      \<exists>q'. pop q = Some (Some x, q') \<and> inv q' \<and> elems q' = xs \<and> cap q' = cap q"
    and pop_none: "\<lbrakk>inv q; elems q = []\<rbrakk> \<Longrightarrow> pop q = Some (None, q)"
    and empty_iff: "inv q \<Longrightarrow> is_empty q \<longleftrightarrow> elems q = []"
begin

lemma push_returns: "inv q \<Longrightarrow> \<exists>q'. push x q = Some q' \<and> inv q' \<and> cap q' = cap q"
  using elems_le [of q] push_room [of q x] push_full [of q x]
  by (cases "length (elems q) < cap q") auto

lemma pop_returns: "inv q \<Longrightarrow> \<exists>r q'. pop q = Some (r, q') \<and> inv q' \<and> cap q' = cap q"
  using pop_some [of q] pop_none [of q] by (cases "elems q") auto

lemma pushed_then_popped:
  assumes "inv q" "elems q = []" "0 < cap q"
  shows "\<exists>q1 q2. push x q = Some q1 \<and> pop q1 = Some (Some x, q2) \<and> elems q2 = []"
proof -
  obtain q1 where q1: "push x q = Some q1" "inv q1" "elems q1 = [x]"
    using push_room [OF assms(1), of x] assms(2,3) by auto
  then show ?thesis using pop_some [of q1 x "[]"] by auto
qed

end

section \<open>The queue as a list\<close>

definition slot_at :: "'a Fqueue \<Rightarrow> nat \<Rightarrow> 'a Slot" where
  "slot_at q j = fq_pool q ! slot_index q (fq_tail q + of_nat j)"

definition fq_elems :: "'a Fqueue \<Rightarrow> 'a list" where
  "fq_elems q = map (\<lambda>j. the (slot_data (slot_at q j))) [0..<unat (size_fq q)]"

text \<open>
  A slot that holds an element of ticket \<open>p\<close> carries \<open>p + 1\<close>; a free slot carries the ticket it
  waits for. The capacity is a power of two and at least 2.
\<close>

definition fq_shape :: "nat \<Rightarrow> 'a Fqueue \<Rightarrow> bool" where
  "fq_shape k q \<longleftrightarrow> 1 \<le> k \<and> k \<le> 63 \<and> fq_capacity q = 2 ^ k \<and> length (fq_pool q) = 2 ^ k \<and>
     unat (size_fq q) \<le> 2 ^ k"

definition fq_slots_ok :: "'a Fqueue \<Rightarrow> bool" where
  "fq_slots_ok q \<longleftrightarrow>
     (\<forall>j < length (fq_pool q).
        if j < unat (size_fq q)
        then slot_seq (slot_at q j) = fq_tail q + of_nat j + 1 \<and> slot_data (slot_at q j) \<noteq> None
        else slot_seq (slot_at q j) = fq_tail q + of_nat j)"

definition fq_inv :: "'a Fqueue \<Rightarrow> bool" where
  "fq_inv q \<longleftrightarrow> (\<exists>k. fq_shape k q) \<and> fq_slots_ok q"

lemma slot_index_eq:
  "fq_shape k q \<Longrightarrow> slot_index q (p + of_nat j) = (unat p + j) mod 2 ^ k"
  using unat_and_pow2 [of "p + of_nat j" k] unat_add_mod_pow2 [of k p j]
  by (simp add: slot_index_def fq_shape_def)

lemma slot_index_less: "fq_shape k q \<Longrightarrow> slot_index q p < 2 ^ k"
  using slot_index_eq [of k q p 0] by simp

lemma slot_index_inject:
  "fq_shape k q \<Longrightarrow> i < 2 ^ k \<Longrightarrow> j < 2 ^ k \<Longrightarrow>
    slot_index q (p + of_nat i) = slot_index q (p + of_nat j) \<longleftrightarrow> i = j"
  by (simp add: slot_index_eq mod_add_inject)

lemma fq_head_eq: "fq_head q = fq_tail q + of_nat (unat (size_fq q))"
  by (simp add: size_fq_def)

lemma sint_negative: "2 ^ 63 \<le> unat x \<Longrightarrow> sint x < 0" for x :: u64
proof -
  assume "2 ^ 63 \<le> unat x"
  then have "int (2 ^ 63) \<le> int (unat x)" by (simp only: of_nat_le_iff)
  then have "(2 :: int) ^ 63 \<le> uint x" by simp
  then have "signed_take_bit 63 (uint x) \<le> uint x - 2 ^ Suc 63"
    by (rule signed_take_bit_int_less_eq)
  moreover have "uint x < 2 ^ 64" using uint_lt2p [of x] by simp
  moreover have "sint x = signed_take_bit 63 (uint x)" by (simp add: sint_uint)
  moreover have "(2 :: int) ^ Suc 63 = 2 ^ 64" by simp
  ultimately show ?thesis by linarith
qed

lemma sint_lag: "1 \<le> k \<Longrightarrow> k \<le> 63 \<Longrightarrow> sint (1 - 2 ^ k :: u64) < 0"
proof (rule sint_negative)
  assume k: "1 \<le> k" "k \<le> 63"
  have le: "(2 :: nat) ^ 1 \<le> 2 ^ k" "(2 :: nat) ^ k \<le> 2 ^ 63"
    using k by (intro power_increasing; simp)+
  then have "of_nat (2 ^ 64 + 1 - 2 ^ k) = (of_nat (2 ^ 64 + 1) - of_nat (2 ^ k) :: u64)"
    by (intro of_nat_diff) simp
  then have "(1 - 2 ^ k :: u64) = of_nat (2 ^ 64 + 1 - 2 ^ k)" by simp
  moreover have "unat (of_nat (2 ^ 64 + 1 - 2 ^ k) :: u64) = 2 ^ 64 + 1 - 2 ^ k"
    using le by (subst unat_of_nat) simp
  ultimately have "unat (1 - 2 ^ k :: u64) = 2 ^ 64 + 1 - 2 ^ k" by (simp only:)
  then show "2 ^ 63 \<le> unat (1 - 2 ^ k :: u64)" using le by simp
qed

lemma seq_diff_simps [simp]:
  "seq_diff p p = 0" "seq_diff p (p + 1) < 0" "seq_diff p (p + 1) \<noteq> 0"
proof -
  have "sint (-1 :: u64) = -1" by simp
  then show "seq_diff p (p + 1) < 0" "seq_diff p (p + 1) \<noteq> 0"
    by (simp_all add: seq_diff_def)
qed (simp add: seq_diff_def)

lemma slots_okI:
  assumes "\<And>j. j < length (fq_pool q) \<Longrightarrow> j < unat (size_fq q) \<Longrightarrow>
      slot_seq (slot_at q j) = fq_tail q + of_nat j + 1 \<and> slot_data (slot_at q j) \<noteq> None"
    and "\<And>j. j < length (fq_pool q) \<Longrightarrow> unat (size_fq q) \<le> j \<Longrightarrow>
      slot_seq (slot_at q j) = fq_tail q + of_nat j"
  shows "fq_slots_ok q"
  using assms unfolding fq_slots_ok_def by (simp add: not_less)

lemma slots_okD:
  assumes "fq_slots_ok q" "j < length (fq_pool q)"
  shows "j < unat (size_fq q) \<Longrightarrow> slot_seq (slot_at q j) = fq_tail q + of_nat j + 1"
    and "j < unat (size_fq q) \<Longrightarrow> slot_data (slot_at q j) \<noteq> None"
    and "unat (size_fq q) \<le> j \<Longrightarrow> slot_seq (slot_at q j) = fq_tail q + of_nat j"
  using assms unfolding fq_slots_ok_def by (meson not_less)+

lemma push_fq_room:
  assumes k: "fq_shape k q" and ok: "fq_slots_ok q" and room: "unat (size_fq q) < 2 ^ k"
  shows "\<exists>q'. push_fq x q = Some q' \<and> fq_shape k q' \<and> fq_slots_ok q' \<and> fq_elems q' = fq_elems q @ [x]"
proof -
  let ?n = "unat (size_fq q)" and ?i = "slot_index q (fq_head q)"
  let ?q = "q\<lparr>fq_head := fq_head q + 1,
     fq_pool := (fq_pool q)[?i := \<lparr>slot_seq = fq_head q + 1, slot_data = Some x\<rparr>]\<rparr>"
  have len: "length (fq_pool q) = 2 ^ k" and k63: "k \<le> 63" using k by (simp_all add: fq_shape_def)
  have "slot_seq (slot_at q ?n) = fq_head q"
    using slots_okD(3) [OF ok, of ?n] room len fq_head_eq [of q] by simp
  then have p: "push_fq x q = Some ?q"
    using fq_head_eq [of q] by (simp add: push_fq_def Let_def slot_at_def)
  have "(2 :: nat) ^ k \<le> 2 ^ 63" using k63 by (intro power_increasing) simp_all
  then have "?n + 1 < 2 ^ 64" using room by simp
  moreover have "size_fq ?q = size_fq q + 1" by (simp add: size_fq_def)
  ultimately have n': "unat (size_fq ?q) = ?n + 1"
    using unat_add_small [of "size_fq q" 1] by simp
  have idx: "slot_index ?q = slot_index q" by (simp add: slot_index_def fun_eq_iff)
  have at: "slot_at ?q j = (if j = ?n then \<lparr>slot_seq = fq_head q + 1, slot_data = Some x\<rparr> else slot_at q j)"
    if "j < 2 ^ k" for j
  proof -
    have "slot_at ?q j = (fq_pool q)[?i := \<lparr>slot_seq = fq_head q + 1, slot_data = Some x\<rparr>]
        ! slot_index q (fq_tail q + of_nat j)"
      by (simp add: slot_at_def idx)
    moreover have "slot_index q (fq_tail q + of_nat j) = ?i \<longleftrightarrow> j = ?n"
      using slot_index_inject [OF k that room, of "fq_tail q"] fq_head_eq [of q] by metis
    moreover have "?i < length (fq_pool q)" using slot_index_less [OF k] len by metis
    moreover have "slot_at q j = fq_pool q ! slot_index q (fq_tail q + of_nat j)"
      by (simp only: slot_at_def)
    ultimately show ?thesis by (metis nth_list_update_eq nth_list_update_neq)
  qed
  have shape: "fq_shape k ?q" using k n' room by (simp add: fq_shape_def)
  have slots: "fq_slots_ok ?q"
  proof (rule slots_okI)
    fix j assume "j < length (fq_pool ?q)" "j < unat (size_fq ?q)"
    then have "j < 2 ^ k" "j = ?n \<or> j < ?n" using n' len by auto
    then show "slot_seq (slot_at ?q j) = fq_tail ?q + of_nat j + 1 \<and> slot_data (slot_at ?q j) \<noteq> None"
      using slots_okD [OF ok, of j] at [of j] len fq_head_eq [of q] by auto
  next
    fix j assume "j < length (fq_pool ?q)" "unat (size_fq ?q) \<le> j"
    then show "slot_seq (slot_at ?q j) = fq_tail ?q + of_nat j"
      using slots_okD(3) [OF ok, of j] at [of j] len n' by simp
  qed
  have "fq_elems ?q = fq_elems q @ [x]"
    using n' room at by (simp add: fq_elems_def)
  with p shape slots show ?thesis by blast
qed

lemma push_fq_full:
  assumes k: "fq_shape k q" and ok: "fq_slots_ok q" and full: "unat (size_fq q) = 2 ^ k"
  shows "push_fq x q = Some q"
proof -
  have "slot_index q (fq_head q) = slot_index q (fq_tail q + of_nat 0)"
    using slot_index_eq [OF k, of "fq_tail q" "2 ^ k"] slot_index_eq [OF k, of "fq_tail q" 0]
      fq_head_eq [of q] full by simp
  moreover have "slot_seq (slot_at q 0) = fq_tail q + of_nat 0 + 1"
    using slots_okD(1) [OF ok, of 0] full k unfolding fq_shape_def by simp
  ultimately have s: "slot_seq (fq_pool q ! slot_index q (fq_head q)) = fq_tail q + 1"
    by (simp add: slot_at_def)
  have "fq_head q = fq_tail q + 2 ^ k" using fq_head_eq [of q] full by simp
  then have "seq_diff (fq_tail q + 1) (fq_head q) < 0"
    using sint_lag [of k] k by (simp add: seq_diff_def fq_shape_def)
  with s show ?thesis by (simp add: push_fq_def Let_def)
qed

lemma pop_fq_some:
  assumes k: "fq_shape k q" and ok: "fq_slots_ok q" and "unat (size_fq q) = Suc n"
  shows "\<exists>q'. pop_fq q = Some (Some (hd (fq_elems q)), q') \<and> fq_shape k q' \<and> fq_slots_ok q' \<and>
    fq_elems q' = tl (fq_elems q)"
proof -
  let ?i = "slot_index q (fq_tail q)"
  let ?q = "q\<lparr>fq_tail := fq_tail q + 1,
     fq_pool := (fq_pool q)[?i := \<lparr>slot_seq = fq_tail q + fq_capacity q, slot_data = None\<rparr>]\<rparr>"
  have len: "length (fq_pool q) = 2 ^ k" "fq_capacity q = 2 ^ k" "Suc n \<le> 2 ^ k"
    using k assms(3) by (simp_all add: fq_shape_def)
  have 0: "slot_seq (slot_at q 0) = fq_tail q + 1" "slot_data (slot_at q 0) \<noteq> None"
    using slots_okD [OF ok, of 0] assms(3) len(1) by simp_all
  then have p: "pop_fq q = Some (slot_data (slot_at q 0), ?q)"
    by (simp add: pop_fq_def Let_def slot_at_def)
  have "1 \<le> size_fq q" using assms(3) by (simp add: word_le_nat_alt)
  moreover have "size_fq ?q = size_fq q - 1" by (simp add: size_fq_def)
  ultimately have n': "unat (size_fq ?q) = n"
    using unat_sub [of 1 "size_fq q"] assms(3) by simp
  have idx: "slot_index ?q = slot_index q" by (simp add: slot_index_def fun_eq_iff)
  have at: "slot_at ?q j = (if Suc j = 2 ^ k then \<lparr>slot_seq = fq_tail q + 2 ^ k, slot_data = None\<rparr>
      else slot_at q (Suc j))" if "j < 2 ^ k" for j
  proof -
    have "fq_tail q + 1 + of_nat j = fq_tail q + of_nat (Suc j)" by simp
    then have "slot_at ?q j = (fq_pool q)[?i := \<lparr>slot_seq = fq_tail q + 2 ^ k, slot_data = None\<rparr>]
        ! slot_index q (fq_tail q + of_nat (Suc j))"
      unfolding slot_at_def idx by (simp add: len(2) add.assoc)
    moreover have "slot_index q (fq_tail q + of_nat (Suc j)) = ?i \<longleftrightarrow> Suc j = 2 ^ k"
    proof (cases "Suc j = 2 ^ k")
      case True
      then show ?thesis
        using slot_index_eq [OF k, of "fq_tail q" "2 ^ k"] slot_index_eq [OF k, of "fq_tail q" 0] by simp
    next
      case False
      with that slot_index_inject [OF k, of "Suc j" 0 "fq_tail q"] show ?thesis by simp
    qed
    moreover have "?i < length (fq_pool q)" using slot_index_less [OF k] len(1) by metis
    moreover have "slot_at q (Suc j) = fq_pool q ! slot_index q (fq_tail q + of_nat (Suc j))"
      by (simp only: slot_at_def)
    ultimately show ?thesis by (metis nth_list_update_eq nth_list_update_neq)
  qed
  have shape: "fq_shape k ?q" using k n' len(3) by (simp add: fq_shape_def)
  have slots: "fq_slots_ok ?q"
  proof (rule slots_okI)
    fix j assume "j < length (fq_pool ?q)" "j < unat (size_fq ?q)"
    then have "Suc j < Suc n" "Suc j \<noteq> 2 ^ k" "j < 2 ^ k" "Suc j < 2 ^ k" using n' len by simp_all
    then show "slot_seq (slot_at ?q j) = fq_tail ?q + of_nat j + 1 \<and> slot_data (slot_at ?q j) \<noteq> None"
      using slots_okD [OF ok, of "Suc j"] at [of j] len assms(3) by (simp add: algebra_simps)
  next
    fix j assume "j < length (fq_pool ?q)" "unat (size_fq ?q) \<le> j"
    then have j: "j < 2 ^ k" "n \<le> j" using n' len by simp_all
    show "slot_seq (slot_at ?q j) = fq_tail ?q + of_nat j"
    proof (cases "Suc j = 2 ^ k")
      case True
      have "(2 :: u64) ^ k = of_nat (2 ^ k)" by simp
      then have "(2 :: u64) ^ k = of_nat (Suc j)" using True by (simp only:)
      moreover have "slot_seq (slot_at ?q j) = fq_tail q + 2 ^ k" using True at [OF j(1)] by simp
      ultimately show ?thesis by simp
    next
      case False
      then show ?thesis
        using slots_okD(3) [OF ok, of "Suc j"] at [OF j(1)] j len assms(3) by (simp add: algebra_simps)
    qed
  qed
  have "fq_elems q = the (slot_data (slot_at q 0)) # map (\<lambda>j. the (slot_data (slot_at q (Suc j)))) [0..<n]"
    using assms(3)
    by (simp add: fq_elems_def upt_conv_Cons map_Suc_upt [symmetric] comp_def del: upt_Suc)
  moreover have "fq_elems ?q = map (\<lambda>j. the (slot_data (slot_at q (Suc j)))) [0..<n]"
    using n' at len(3) by (simp add: fq_elems_def)
  ultimately show ?thesis using p 0(2) shape slots by auto
qed

lemma pop_fq_none:
  assumes k: "fq_shape k q" and ok: "fq_slots_ok q" and "unat (size_fq q) = 0"
  shows "pop_fq q = Some (None, q)"
proof -
  have "0 < length (fq_pool q)" using k by (simp add: fq_shape_def)
  then have "slot_seq (slot_at q 0) = fq_tail q"
    using slots_okD(3) [OF ok, of 0] assms(3) by simp
  then show ?thesis by (simp add: pop_fq_def Let_def slot_at_def)
qed

lemma empty_fq_iff:
  assumes k: "fq_shape k q" and ok: "fq_slots_ok q"
  shows "empty_fq q \<longleftrightarrow> unat (size_fq q) = 0"
proof -
  have "0 < length (fq_pool q)" using k by (simp add: fq_shape_def)
  then have "slot_seq (slot_at q 0) = (if unat (size_fq q) = 0 then fq_tail q else fq_tail q + 1)"
    using slots_okD(1,3) [OF ok, of 0] by auto
  then show ?thesis by (simp add: empty_fq_def Let_def slot_at_def split: if_splits)
qed

definition fq_cap :: "'a Fqueue \<Rightarrow> nat" where
  "fq_cap q = length (fq_pool q)"

lemma length_fq_elems [simp]: "length (fq_elems q) = unat (size_fq q)"
  by (simp add: fq_elems_def)

interpretation fqueue: bounded_queue fq_inv fq_elems fq_cap push_fq pop_fq empty_fq
proof
  fix q :: "'a Fqueue" and x :: 'a and xs
  assume "fq_inv q"
  then obtain k where k: "fq_shape k q" and ok: "fq_slots_ok q" by (auto simp: fq_inv_def)
  have cap: "fq_cap q = 2 ^ k" using k by (simp add: fq_cap_def fq_shape_def)
  show "length (fq_elems q) \<le> fq_cap q" using k cap by (simp add: fq_shape_def)
  show "\<exists>q'. push_fq x q = Some q' \<and> fq_inv q' \<and> fq_elems q' = fq_elems q @ [x] \<and> fq_cap q' = fq_cap q"
    if "length (fq_elems q) < fq_cap q"
    using push_fq_room [OF k ok, of x] that cap by (auto simp: fq_inv_def fq_cap_def fq_shape_def)
  show "push_fq x q = Some q" if "length (fq_elems q) = fq_cap q"
    using push_fq_full [OF k ok] that cap by simp
  show "\<exists>q'. pop_fq q = Some (Some x, q') \<and> fq_inv q' \<and> fq_elems q' = xs \<and> fq_cap q' = fq_cap q"
    if "fq_elems q = x # xs"
  proof -
    have "unat (size_fq q) = Suc (length xs)"
      using that length_fq_elems [of q] by simp
    from pop_fq_some [OF k ok this] that cap show ?thesis
      by (auto simp: fq_inv_def fq_cap_def fq_shape_def)
  qed
  show "pop_fq q = Some (None, q)" if "fq_elems q = []"
    using pop_fq_none [OF k ok] that length_fq_elems [of q] by simp
  show "empty_fq q \<longleftrightarrow> fq_elems q = []"
    using empty_fq_iff [OF k ok] length_fq_elems [of q] by (metis length_0_conv)
qed

lemma new_fqueue_inv:
  assumes "round_up_to_power_of_two l = 2 ^ k" "1 \<le> k" "k \<le> 63"
  shows "fq_inv (new_fqueue l :: 'a Fqueue)" "fq_elems (new_fqueue l :: 'a Fqueue) = []"
    "fq_cap (new_fqueue l :: 'a Fqueue) = 2 ^ k"
proof -
  let ?q = "new_fqueue l :: 'a Fqueue"
  have u: "unat (2 ^ k :: u64) = 2 ^ k"
  proof -
    have "(2 :: nat) ^ k \<le> 2 ^ 63" using assms(3) by (intro power_increasing) simp_all
    then have "unat (of_nat (2 ^ k) :: u64) = 2 ^ k" by (subst unat_of_nat) simp
    then show ?thesis by simp
  qed
  have sz: "unat (size_fq ?q) = 0"
    by (simp add: size_fq_def new_fqueue_def Let_def)
  have shape: "fq_shape k ?q"
    using assms u by (simp add: fq_shape_def size_fq_def new_fqueue_def Let_def)
  moreover have "fq_slots_ok ?q"
  proof (rule slots_okI)
    fix j assume "j < length (fq_pool ?q)"
    then have j: "j < 2 ^ k" using assms u by (simp add: new_fqueue_def Let_def)
    have "slot_index ?q (0 + of_nat j) = j"
      using slot_index_eq [OF shape, of 0 j] j by simp
    then show "slot_seq (slot_at ?q j) = fq_tail ?q + of_nat j"
      using j assms u by (simp add: slot_at_def) (simp add: new_fqueue_def Let_def)
  qed (simp add: sz)
  ultimately show "fq_inv ?q" by (auto simp: fq_inv_def)
  show "fq_elems ?q = []" using sz by (simp add: fq_elems_def)
  show "fq_cap ?q = 2 ^ k" using shape by (simp add: fq_cap_def fq_shape_def)
qed

text \<open>
  The capacity of the bounded queue is the smallest power of two that is not below the size
  asked for, for every size from 1 to \<open>2 ^ 63\<close>.
\<close>

theorem round_up_is_least_power_of_two:
  assumes "1 \<le> unat n" "unat n \<le> 2 ^ 63"
  shows "\<exists>k \<le> 63. round_up_to_power_of_two n = 2 ^ k \<and> unat n \<le> 2 ^ k \<and> (\<forall>j < k. 2 ^ j < unat n)"
proof -
  obtain k where k: "k \<le> 63" "round_up_to_power_of_two n = 2 ^ k" "unat n \<le> 2 ^ k"
    "k = 0 \<or> 2 ^ (k - 1) < unat n"
    using round_up_exists [OF assms] by blast
  have "2 ^ j < unat n" if "j < k" for j
  proof -
    have "(2 :: nat) ^ j \<le> 2 ^ (k - 1)" using that by (intro power_increasing) simp_all
    with k(4) that show ?thesis by linarith
  qed
  with k show ?thesis by blast
qed

theorem round_up_is_least_power_of_two_witness:
  "\<exists>k \<le> 63. round_up_to_power_of_two 20000 = 2 ^ k \<and> 20000 \<le> (2 :: nat) ^ k"
  using round_up_is_least_power_of_two [of 20000] by auto

text \<open>
  C11. The bounded queue implements a bounded list, for all values of its wrapping 64-bit counters:
  \<open>push\<close> returns, and appends the element when there is room and otherwise drops it and changes
  nothing; \<open>pop\<close> returns, and takes the oldest element or reports that there is none.
\<close>

theorem bounded_queue_refines_list:
  assumes "fq_inv q"
  shows "\<exists>q1 r q2. push_fq x q = Some q1 \<and> fq_inv q1 \<and>
    fq_elems q1 = (if length (fq_elems q) < fq_cap q then fq_elems q @ [x] else fq_elems q) \<and>
    pop_fq q = Some (r, q2) \<and> fq_inv q2 \<and>
    (case fq_elems q of [] \<Rightarrow> r = None \<and> q2 = q | y # ys \<Rightarrow> r = Some y \<and> fq_elems q2 = ys)"
proof -
  obtain q1 where "push_fq x q = Some q1" "fq_inv q1"
    "fq_elems q1 = (if length (fq_elems q) < fq_cap q then fq_elems q @ [x] else fq_elems q)"
    using fqueue.push_room [OF assms, of x] fqueue.push_full [OF assms, of x]
      fqueue.elems_le [OF assms] assms
    by (cases "length (fq_elems q) < fq_cap q") auto
  moreover obtain r q2 where "pop_fq q = Some (r, q2)" "fq_inv q2"
    "case fq_elems q of [] \<Rightarrow> r = None \<and> q2 = q | y # ys \<Rightarrow> r = Some y \<and> fq_elems q2 = ys"
    using fqueue.pop_some [OF assms] fqueue.pop_none [OF assms] assms
    by (cases "fq_elems q") auto
  ultimately show ?thesis by blast
qed

theorem bounded_queue_refines_list_witness:
  "\<exists>q1. push_fq 7 (new_fqueue 2 :: nat Fqueue) = Some q1 \<and> fq_elems q1 = [7]"
proof -
  have r: "round_up_to_power_of_two 2 = 2 ^ 1"
    by (simp add: round_up_to_power_of_two_def smear_def)
  then have "fq_inv (new_fqueue 2 :: nat Fqueue)" "fq_elems (new_fqueue 2 :: nat Fqueue) = []"
    "fq_cap (new_fqueue 2 :: nat Fqueue) = 2"
    using new_fqueue_inv [OF r] by simp_all
  then show ?thesis
    using bounded_queue_refines_list [of "new_fqueue 2 :: nat Fqueue" 7]
      length_fq_elems [of "new_fqueue 2 :: nat Fqueue"] by auto
qed

text \<open>
  A queue asked for with size 1 is broken: its single slot cannot tell full from free, and a
  second insertion overwrites the first element although the queue reports two elements.
\<close>

theorem capacity_one_overwrites:
  "\<exists>q1 q2. push_fq (1 :: nat) (new_fqueue 1) = Some q1 \<and> push_fq 2 q1 = Some q2 \<and>
     size_fq q2 = 2 \<and> map slot_data (fq_pool q2) = [Some 2]"
  by (simp add: push_fq_def new_fqueue_def round_up_to_power_of_two_def smear_def slot_index_def
      seq_diff_def size_fq_def Let_def)

end
