(* ===== verification/Mpsc.thy ===== *)
theory Mpsc
  imports Prelude
begin

text \<open>
  \<open>datastructure/Mpsc.h\<close>: the unbounded multi-producer single-consumer queue, a linked list with a
  stub node. Nodes live in a heap, so that a dangling pointer is a fault. The first part gives the
  operations as one thread runs them from start to end; the second the interleaving of any number of
  producers with the consumer, one atomic access per step, with the queue's first-in-first-out order
  and the absence of accesses to freed nodes as invariants.
\<close>

section \<open>The class\<close>

record 'a Node =
  nd_data :: "'a option"
  nd_next :: "nat option"

record 'a MpscQueue =
  mq_heap :: "nat \<rightharpoonup> 'a Node"
  mq_head :: nat
  mq_tail :: nat
  mq_fresh :: nat

definition deref :: "'a MpscQueue \<Rightarrow> nat \<Rightarrow> 'a Node res" where
  "deref q a = (case mq_heap q a of None \<Rightarrow> Inl NullDeref | Some n \<Rightarrow> Inr n)"

definition new_mpsc :: "'a MpscQueue" where
  "new_mpsc = \<lparr>mq_heap = [0 \<mapsto> \<lparr>nd_data = None, nd_next = None\<rparr>], mq_head = 0, mq_tail = 0, mq_fresh = 1\<rparr>"

text \<open>
  \<open>push\<close> up to and including \<open>head.exchange(new_node)\<close>, which returns the previous head and the new
  node; then \<open>prev->next.store(new_node)\<close>.
\<close>

definition push_exchange :: "'a \<Rightarrow> 'a MpscQueue \<Rightarrow> (nat \<times> nat) \<times> 'a MpscQueue" where
  "push_exchange v q =
     ((mq_head q, mq_fresh q),
      q\<lparr>mq_heap := (mq_heap q)(mq_fresh q \<mapsto> \<lparr>nd_data = Some v, nd_next = None\<rparr>),
        mq_head := mq_fresh q, mq_fresh := Suc (mq_fresh q)\<rparr>)"

definition push_link :: "nat \<Rightarrow> nat \<Rightarrow> 'a MpscQueue \<Rightarrow> 'a MpscQueue res" where
  "push_link prev new_node q =
     bind_res (deref q prev) (\<lambda>n. Inr (q\<lparr>mq_heap := (mq_heap q)(prev \<mapsto> n\<lparr>nd_next := Some new_node\<rparr>)\<rparr>))"

definition push_mpsc :: "'a \<Rightarrow> 'a MpscQueue \<Rightarrow> 'a MpscQueue res" where
  "push_mpsc v q = (case push_exchange v q of ((prev, new_node), q1) \<Rightarrow> push_link prev new_node q1)"

text \<open>
  \<open>pop\<close> from the load of \<open>tail_->next\<close> on. Where the next pointer is null although the queue is not
  empty, the source spins until the producer has stored it; the result \<open>Inr None\<close> says so.
\<close>

definition pop_unlink :: "nat \<Rightarrow> nat \<Rightarrow> 'a MpscQueue \<Rightarrow> 'a MpscQueue" where
  "pop_unlink tail0 next0 q =
     q\<lparr>mq_tail := next0, mq_heap := (mq_heap q)(tail0 := None)\<rparr>"

definition pop_mpsc :: "'a MpscQueue \<Rightarrow> (bool \<times> 'a MpscQueue) option res" where
  "pop_mpsc q =
     bind_res (deref q (mq_tail q)) (\<lambda>n.
       case nd_next n of
         None \<Rightarrow> if mq_tail q = mq_head q then Inr (Some (False, q)) else Inr None
       | Some next0 \<Rightarrow> Inr (Some (True, pop_unlink (mq_tail q) next0 q)))"

text \<open>\<open>front\<close> returns \<open>T{}\<close> when the queue is empty; the argument \<open>d\<close> is that value.\<close>

definition front_mpsc :: "'a \<Rightarrow> 'a MpscQueue \<Rightarrow> 'a option res" where
  "front_mpsc d q =
     bind_res (deref q (mq_tail q)) (\<lambda>n.
       case nd_next n of
         None \<Rightarrow> if mq_tail q = mq_head q then Inr (Some d) else Inr None
       | Some next0 \<Rightarrow>
           bind_res (deref q next0) (\<lambda>m.
             case nd_data m of None \<Rightarrow> Inl NullDeref | Some v \<Rightarrow> Inr (Some v)))"

definition empty_mpsc :: "'a MpscQueue \<Rightarrow> bool res" where
  "empty_mpsc q = bind_res (deref q (mq_tail q)) (\<lambda>n. Inr (nd_next n = None))"

section \<open>The contract\<close>

locale fifo_queue =
  fixes inv :: "'q \<Rightarrow> bool" and elems :: "'q \<Rightarrow> 'a list"
    and push :: "'a \<Rightarrow> 'q \<Rightarrow> 'q res" and pop :: "'q \<Rightarrow> (bool \<times> 'q) option res"
    and front :: "'a \<Rightarrow> 'q \<Rightarrow> 'a option res" and is_empty :: "'q \<Rightarrow> bool res"
  assumes push_ok: "inv q \<Longrightarrow> \<exists>q'. push x q = Inr q' \<and> inv q' \<and> elems q' = elems q @ [x]"
    and pop_ok: "inv q \<Longrightarrow> \<exists>q'. pop q = Inr (Some (elems q \<noteq> [], q')) \<and> inv q' \<and> elems q' = tl (elems q)"
    and front_ok: "inv q \<Longrightarrow> front d q = Inr (Some (if elems q = [] then d else hd (elems q)))"
    and empty_ok: "inv q \<Longrightarrow> is_empty q = Inr (elems q = [])"
begin

lemma no_fault:
  assumes "inv q"
  shows "is_ok (push x q)" "is_ok (pop q)" "is_ok (front d q)" "is_ok (is_empty q)"
  using push_ok [OF assms, of x] pop_ok [OF assms] front_ok [OF assms] empty_ok [OF assms] by auto

lemma push_keeps_front:
  assumes "inv q" "elems q \<noteq> []" "push x q = Inr q'"
  shows "front d q' = front d q"
proof -
  have "inv q'" "elems q' = elems q @ [x]" using push_ok [OF assms(1), of x] assms(3) by auto
  then show ?thesis using assms(1,2) by (simp add: front_ok)
qed

end

section \<open>The queue as a list\<close>

text \<open>The nodes from the stub to the head, in the order of their insertion, with their values.\<close>

fun chain :: "(nat \<rightharpoonup> 'a Node) \<Rightarrow> (nat \<times> nat) set \<Rightarrow> nat list \<Rightarrow> bool" where
  "chain h pend [] = False"
| "chain h pend [a] = (\<exists>n. h a = Some n \<and> nd_next n = None)"
| "chain h pend (a # b # ns) =
     ((\<exists>n. h a = Some n \<and> (if (a, b) \<in> pend then nd_next n = None else nd_next n = Some b)) \<and>
      chain h pend (b # ns))"

fun links :: "nat list \<Rightarrow> (nat \<times> nat) set" where
  "links (a # b # ns) = insert (a, b) (links (b # ns))"
| "links ns = {}"

text \<open>
  \<open>nodes_ok gone pend ns q\<close>: the heap consists of the nodes \<open>ns\<close> and of the nodes \<open>gone\<close> that are
  out of the list and not deleted yet; the first of \<open>ns\<close> is the stub \<open>tail\<close>, the last is \<open>head\<close>,
  all but the stub carry a value, and the links \<open>pend\<close> are still to be stored.
\<close>

definition nodes_ok :: "nat set \<Rightarrow> (nat \<times> nat) set \<Rightarrow> nat list \<Rightarrow> 'a MpscQueue \<Rightarrow> bool" where
  "nodes_ok gone pend ns q \<longleftrightarrow>
     chain (mq_heap q) pend ns \<and> distinct ns \<and> dom (mq_heap q) = set ns \<union> gone \<and>
     set ns \<inter> gone = {} \<and> hd ns = mq_tail q \<and> last ns = mq_head q \<and>
     (\<forall>a \<in> set ns \<union> gone. a < mq_fresh q) \<and> pend \<subseteq> links ns \<and>
     (\<forall>a \<in> set (tl ns). nd_data (the (mq_heap q a)) \<noteq> None)"

definition node_values :: "'a MpscQueue \<Rightarrow> nat list \<Rightarrow> 'a list" where
  "node_values q ns = map (\<lambda>a. the (nd_data (the (mq_heap q a)))) (tl ns)"

lemma chain_ne: "chain h pend ns \<Longrightarrow> ns \<noteq> []"
  by auto

lemma in_set_tl: "x \<in> set (tl xs) \<Longrightarrow> x \<in> set xs"
  by (cases xs) simp_all

lemma links_in: "(a, b) \<in> links ns \<Longrightarrow> a \<in> set ns \<and> b \<in> set (tl ns)"
  by (induction ns rule: links.induct) auto

lemma links_snoc: "ns \<noteq> [] \<Longrightarrow> links (ns @ [c]) = insert (last ns, c) (links ns)"
  by (induction ns rule: links.induct) auto

lemma links_prev_unique: "distinct ns \<Longrightarrow> (a, b) \<in> links ns \<Longrightarrow> (a, c) \<in> links ns \<Longrightarrow> b = c"
  by (induction ns rule: links.induct) (auto dest: links_in)

lemma links_last: "distinct ns \<Longrightarrow> (last ns, c) \<notin> links ns"
  by (induction ns rule: links.induct) (auto dest: links_in)

lemma chain_cong:
  "chain h pend ns \<Longrightarrow> (\<And>a. a \<in> set ns \<Longrightarrow> h' a = h a) \<Longrightarrow>
    (\<And>a b. (a, b) \<in> links ns \<Longrightarrow> (a, b) \<in> pend' \<longleftrightarrow> (a, b) \<in> pend) \<Longrightarrow> chain h' pend' ns"
  by (induction h pend ns rule: chain.induct) auto

lemma chain_snoc:
  assumes "chain h pend ns" "\<And>a. a \<in> set ns \<Longrightarrow> h' a = h a"
    and "(last ns, c) \<in> pend'" "\<And>a b. (a, b) \<in> links ns \<Longrightarrow> (a, b) \<in> pend' \<longleftrightarrow> (a, b) \<in> pend"
    and "h' c = Some n" "nd_next n = None"
  shows "chain h' pend' (ns @ [c])"
  using assms by (induction h pend ns rule: chain.induct) auto

lemma chain_link:
  "chain h pend ns \<Longrightarrow> distinct ns \<Longrightarrow> (a, b) \<in> links ns \<Longrightarrow> (a, b) \<in> pend \<Longrightarrow> h a = Some n \<Longrightarrow>
    chain (h(a \<mapsto> n\<lparr>nd_next := Some b\<rparr>)) (pend - {(a, b)}) ns"
proof (induction h pend ns rule: chain.induct)
  case (3 h pend x y ns)
  show ?case
  proof (cases "a = x")
    case True
    then have "b = y" using "3.prems"(2,3) links_prev_unique [of "x # y # ns" x b y] by simp
    have "chain (h(a \<mapsto> n\<lparr>nd_next := Some b\<rparr>)) (pend - {(a, b)}) (y # ns)"
    proof (rule chain_cong [of h pend])
      show "chain h pend (y # ns)" using "3.prems"(1) by simp
      show "(h(a \<mapsto> n\<lparr>nd_next := Some b\<rparr>)) z = h z" if "z \<in> set (y # ns)" for z
        using that "3.prems"(2) True by auto
      show "(u, v) \<in> pend - {(a, b)} \<longleftrightarrow> (u, v) \<in> pend" if "(u, v) \<in> links (y # ns)" for u v
        using links_in [OF that] "3.prems"(2) True by auto
    qed
    then show ?thesis
      unfolding chain.simps
      by (intro conjI exI [of _ "n\<lparr>nd_next := Some b\<rparr>"]) (use True \<open>b = y\<close> in simp_all)
  next
    case False
    then have "(a, b) \<in> links (y # ns)" using "3.prems"(3) by simp
    then have "chain (h(a \<mapsto> n\<lparr>nd_next := Some b\<rparr>)) (pend - {(a, b)}) (y # ns)"
      using "3.prems" by (intro "3.IH") simp_all
    moreover obtain m where "h x = Some m" "if (x, y) \<in> pend then nd_next m = None else nd_next m = Some y"
      using "3.prems"(1) by auto
    ultimately show ?thesis
      unfolding chain.simps by (intro conjI exI [of _ m]) (use False in simp_all)
  qed
qed simp_all

lemma nodes_okD:
  assumes "nodes_ok gone pend ns q"
  shows "chain (mq_heap q) pend ns" "distinct ns" "dom (mq_heap q) = set ns \<union> gone"
    "set ns \<inter> gone = {}" "hd ns = mq_tail q" "last ns = mq_head q"
    "\<And>a. a \<in> set ns \<union> gone \<Longrightarrow> a < mq_fresh q" "pend \<subseteq> links ns"
    "\<And>a. a \<in> set (tl ns) \<Longrightarrow> nd_data (the (mq_heap q a)) \<noteq> None"
  using assms unfolding nodes_ok_def by blast+

lemma nodes_cases:
  assumes "nodes_ok gone pend ns q"
  obtains (one) a where "ns = [a]" | (more) a b ms where "ns = a # b # ms"
proof -
  have "ns \<noteq> []" using nodes_okD(1) [OF assms] by (rule chain_ne)
  then obtain a ks where "ns = a # ks" by (cases ns) blast+
  then show thesis using one more by (cases ks) blast+
qed

lemma nodes_ok_exchange:
  assumes "nodes_ok gone pend ns q" and r: "push_exchange v q = ((a, c), q')"
  shows "nodes_ok gone (insert (a, c) pend) (ns @ [c]) q'"
    and "node_values q' (ns @ [c]) = node_values q ns @ [v]"
    and "(a, c) \<notin> pend"
proof -
  have ns: "ns \<noteq> []" "a = last ns" "c = mq_fresh q" "c \<notin> set ns" "c \<notin> gone"
    using assms by (auto simp: nodes_ok_def push_exchange_def dest: chain_ne)
  have h: "mq_heap q' x = (if x = c then Some \<lparr>nd_data = Some v, nd_next = None\<rparr> else mq_heap q x)" for x
    using r by (auto simp: push_exchange_def)
  have pend: "pend \<subseteq> links ns" using assms(1) by (simp add: nodes_ok_def)
  then show "(a, c) \<notin> pend" using ns links_in [of a c ns] by (auto dest: in_set_tl)
  have "chain (mq_heap q') (insert (a, c) pend) (ns @ [c])"
  proof (rule chain_snoc)
    show "chain (mq_heap q) pend ns" using assms(1) by (simp add: nodes_ok_def)
    show "(x, y) \<in> insert (a, c) pend \<longleftrightarrow> (x, y) \<in> pend" if "(x, y) \<in> links ns" for x y
      using links_in [OF that] ns(4) by (auto dest: in_set_tl)
  qed (use ns h in auto)
  moreover have "tl (ns @ [c]) = tl ns @ [c]" using ns by simp
  moreover have "nd_data (the (mq_heap q' x)) \<noteq> None" if "x \<in> set (tl (ns @ [c]))" for x
    using that assms(1) ns by (auto simp: h nodes_ok_def)
  moreover have "dom (mq_heap q') = insert c (dom (mq_heap q))" by (auto simp: h dom_def)
  ultimately show "nodes_ok gone (insert (a, c) pend) (ns @ [c]) q'"
    using assms ns pend by (auto simp: nodes_ok_def push_exchange_def links_snoc less_Suc_eq)
  show "node_values q' (ns @ [c]) = node_values q ns @ [v]"
    using ns by (auto simp: node_values_def h dest: in_set_tl)
qed

lemma nodes_ok_link:
  assumes ok: "nodes_ok gone pend ns q" and "(a, b) \<in> pend"
  shows "\<exists>q'. push_link a b q = Inr q' \<and> nodes_ok gone (pend - {(a, b)}) ns q' \<and>
    node_values q' ns = node_values q ns \<and> mq_tail q' = mq_tail q \<and> mq_head q' = mq_head q"
proof -
  have ab: "(a, b) \<in> links ns" and a: "a \<in> set ns"
    using assms links_in [of a b ns] by (auto simp: nodes_ok_def)
  then have "a \<in> dom (mq_heap q)" using ok by (simp add: nodes_ok_def)
  then obtain n where n: "mq_heap q a = Some n" by blast
  let ?q = "q\<lparr>mq_heap := (mq_heap q)(a \<mapsto> n\<lparr>nd_next := Some b\<rparr>)\<rparr>"
  have l: "push_link a b q = Inr ?q" by (simp add: push_link_def deref_def n)
  have "chain (mq_heap ?q) (pend - {(a, b)}) ns"
    using chain_link [of "mq_heap q" pend ns a b n] ok ab assms(2) n by (simp add: nodes_ok_def)
  then have "nodes_ok gone (pend - {(a, b)}) ns ?q"
    using ok a n by (auto simp: nodes_ok_def)
  moreover have "node_values ?q ns = node_values q ns"
    using n by (simp add: node_values_def)
  ultimately show ?thesis using l by auto
qed

lemma nodes_ok_pop:
  assumes ok: "nodes_ok gone pend (a # b # ns) q"
  shows "mq_tail q = a" "mq_head q \<noteq> a"
    and "\<exists>n. mq_heap q a = Some n \<and> nd_next n = (if (a, b) \<in> pend then None else Some b)"
    and "(a, b) \<notin> pend \<Longrightarrow> nodes_ok (insert a gone) pend (b # ns) (q\<lparr>mq_tail := b\<rparr>)"
    and "node_values q (a # b # ns) = the (nd_data (the (mq_heap q b))) # node_values q (b # ns)"
proof -
  have d: "distinct (a # b # ns)" "chain (mq_heap q) pend (a # b # ns)"
    using ok by (simp_all only: nodes_ok_def)
  have t: "mq_tail q = a" "mq_head q = last (b # ns)"
    using ok by (simp_all add: nodes_ok_def)
  show "mq_tail q = a" by (rule t)
  have "last (b # ns) \<in> set (b # ns)" by (rule last_in_set) simp
  then show "mq_head q \<noteq> a" using d(1) t(2) by auto
  show "\<exists>n. mq_heap q a = Some n \<and> nd_next n = (if (a, b) \<in> pend then None else Some b)"
    using d(2) by (cases "(a, b) \<in> pend") simp_all
  show "nodes_ok (insert a gone) pend (b # ns) (q\<lparr>mq_tail := b\<rparr>)" if "(a, b) \<notin> pend"
  proof -
    have "pend \<subseteq> insert (a, b) (links (b # ns))" using nodes_okD(8) [OF ok] by simp
    then have "pend \<subseteq> links (b # ns)" using that by blast
    moreover have "chain (mq_heap q) pend (b # ns)" using d(2) by simp
    ultimately show ?thesis
      using d(1) nodes_okD(3,4,7,9) [OF ok] t(2) by (simp add: nodes_ok_def insert_commute)
  qed
  show "node_values q (a # b # ns) = the (nd_data (the (mq_heap q b))) # node_values q (b # ns)"
    by (simp add: node_values_def)
qed

lemma nodes_ok_delete:
  assumes "nodes_ok gone pend ns q" "a \<in> gone"
  shows "nodes_ok (gone - {a}) pend ns (q\<lparr>mq_heap := (mq_heap q)(a := None)\<rparr>)"
    and "node_values (q\<lparr>mq_heap := (mq_heap q)(a := None)\<rparr>) ns = node_values q ns"
proof -
  let ?q = "q\<lparr>mq_heap := (mq_heap q)(a := None)\<rparr>"
  have a: "a \<notin> set ns" using nodes_okD(4) [OF assms(1)] assms(2) by blast
  then have tl: "a \<notin> set (tl ns)" by (blast dest: in_set_tl)
  have "chain (mq_heap ?q) pend ns"
    using a nodes_okD(1) [OF assms(1)] by (elim chain_cong) auto
  moreover have "dom (mq_heap ?q) = set ns \<union> (gone - {a})"
    using a nodes_okD(3) [OF assms(1)] by auto
  moreover have "nd_data (the (mq_heap ?q x)) \<noteq> None" if "x \<in> set (tl ns)" for x
    using that tl nodes_okD(9) [OF assms(1), of x] by auto
  ultimately show "nodes_ok (gone - {a}) pend ns ?q"
    using nodes_okD(2,4-8) [OF assms(1)] unfolding nodes_ok_def by auto
  show "node_values ?q ns = node_values q ns"
    using tl by (auto simp: node_values_def)
qed

section \<open>One thread at a time\<close>

text \<open>Following the links from the stub, with as many steps as there can be nodes.\<close>

fun walk :: "(nat \<rightharpoonup> 'a Node) \<Rightarrow> nat \<Rightarrow> nat \<Rightarrow> nat list" where
  "walk h 0 a = [a]"
| "walk h (Suc k) a = a # (case h a of None \<Rightarrow> [] | Some n \<Rightarrow>
     (case nd_next n of None \<Rightarrow> [] | Some b \<Rightarrow> walk h k b))"

definition mq_nodes :: "'a MpscQueue \<Rightarrow> nat list" where
  "mq_nodes q = walk (mq_heap q) (mq_fresh q) (mq_tail q)"

definition mq_elems :: "'a MpscQueue \<Rightarrow> 'a list" where
  "mq_elems q = node_values q (mq_nodes q)"

definition mq_inv :: "'a MpscQueue \<Rightarrow> bool" where
  "mq_inv q \<longleftrightarrow> nodes_ok {} {} (mq_nodes q) q"

lemma walk_chain: "chain h {} ns \<Longrightarrow> length ns \<le> Suc k \<Longrightarrow> walk h k (hd ns) = ns"
proof (induction k arbitrary: ns)
  case 0
  then show ?case by (cases ns) simp_all
next
  case (Suc k)
  show ?case
  proof (cases ns)
    case (Cons a ms)
    show ?thesis
    proof (cases ms)
      case Nil
      with Cons Suc.prems(1) show ?thesis by auto
    next
      case (Cons b ks)
      with \<open>ns = a # ms\<close> Suc.prems(1) obtain n where "h a = Some n" "nd_next n = Some b" "chain h {} ms"
        by auto
      moreover have "walk h k b = ms"
        using Suc.IH [OF \<open>chain h {} ms\<close>] Suc.prems(2) Cons \<open>ns = a # ms\<close> by simp
      ultimately show ?thesis using \<open>ns = a # ms\<close> by simp
    qed
  qed (use Suc in simp)
qed

lemma nodes_ok_walk: "nodes_ok gone {} ns q \<Longrightarrow> mq_nodes q = ns"
proof -
  assume ok: "nodes_ok gone {} ns q"
  have "set ns \<subseteq> {..<mq_fresh q}" using nodes_okD(7) [OF ok] by auto
  then have "card (set ns) \<le> mq_fresh q" by (metis card_lessThan card_mono finite_lessThan)
  then have "length ns \<le> Suc (mq_fresh q)" using nodes_okD(2) [OF ok] by (simp add: distinct_card)
  then show ?thesis
    using walk_chain [OF nodes_okD(1) [OF ok]] nodes_okD(5) [OF ok] by (simp add: mq_nodes_def)
qed

lemma mq_inv_nodes: "mq_inv q \<Longrightarrow> nodes_ok {} {} (mq_nodes q) q"
  by (simp add: mq_inv_def)

lemma mq_inv_iff: "mq_inv q \<longleftrightarrow> (\<exists>ns. nodes_ok {} {} ns q)"
  unfolding mq_inv_def using nodes_ok_walk by metis

lemma mq_elems_eq: "nodes_ok {} {} ns q \<Longrightarrow> mq_elems q = node_values q ns"
  by (simp add: mq_elems_def nodes_ok_walk)

lemma new_mpsc_ok: "nodes_ok {} {} [0] new_mpsc"
  by (simp add: nodes_ok_def new_mpsc_def)

lemma push_mpsc_ok:
  assumes "nodes_ok {} {} ns q"
  shows "\<exists>q'. push_mpsc v q = Inr q' \<and> mq_inv q' \<and> mq_elems q' = mq_elems q @ [v]"
proof -
  obtain a c q1 where e: "push_exchange v q = ((a, c), q1)" by (metis prod.exhaust)
  have 1: "nodes_ok {} {(a, c)} (ns @ [c]) q1" and v: "node_values q1 (ns @ [c]) = node_values q ns @ [v]"
    using nodes_ok_exchange [OF assms e] by simp_all
  obtain q2 where 2: "push_link a c q1 = Inr q2" "nodes_ok {} {} (ns @ [c]) q2"
    "node_values q2 (ns @ [c]) = node_values q1 (ns @ [c])"
    using nodes_ok_link [OF 1, of a c] by auto
  have "push_mpsc v q = Inr q2" using e 2(1) by (simp add: push_mpsc_def)
  with 2 v show ?thesis
    using mq_elems_eq [OF 2(2)] mq_elems_eq [OF assms] by (auto simp: mq_inv_iff)
qed

lemma pop_mpsc_ok:
  assumes "nodes_ok {} {} ns q"
  shows "\<exists>q'. pop_mpsc q = Inr (Some (mq_elems q \<noteq> [], q')) \<and> mq_inv q' \<and> mq_elems q' = tl (mq_elems q)"
  using assms
proof (cases rule: nodes_cases)
  case (more a b ms)
  then have ok: "nodes_ok {} {} (a # b # ms) q" using assms by simp
  let ?q1 = "q\<lparr>mq_tail := b\<rparr>"
  have g: "nodes_ok {a} {} (b # ms) ?q1" using nodes_ok_pop(4) [OF ok] by simp
  have 3: "nodes_ok {} {} (b # ms) (pop_unlink a b q)"
    using nodes_ok_delete(1) [OF g, of a] by (simp add: pop_unlink_def)
  have "node_values (pop_unlink a b q) (b # ms) = node_values q (b # ms)"
    using nodes_ok_delete(2) [OF g, of a] by (simp add: pop_unlink_def node_values_def)
  then have e: "mq_elems (pop_unlink a b q) = tl (mq_elems q)" "mq_elems q \<noteq> []"
    using mq_elems_eq [OF 3] mq_elems_eq [OF ok] nodes_ok_pop(5) [OF ok] by simp_all
  have "pop_mpsc q = Inr (Some (True, pop_unlink a b q))"
    using nodes_ok_pop(1,3) [OF ok] by (auto simp: pop_mpsc_def deref_def)
  with e 3 show ?thesis by (auto simp: mq_inv_iff)
next
  case (one a)
  then obtain n where "mq_heap q (mq_tail q) = Some n" "nd_next n = None" "mq_tail q = mq_head q"
    using nodes_okD(1,5,6) [OF assms] by auto
  moreover have "mq_elems q = []" using mq_elems_eq [OF assms] one by (simp add: node_values_def)
  ultimately show ?thesis using assms by (auto simp: pop_mpsc_def deref_def mq_inv_iff)
qed

lemma front_empty_mpsc_ok:
  assumes "nodes_ok {} {} ns q"
  shows "front_mpsc d q = Inr (Some (if mq_elems q = [] then d else hd (mq_elems q)))"
    and "empty_mpsc q = Inr (mq_elems q = [])"
proof -
  have "front_mpsc d q = Inr (Some (if mq_elems q = [] then d else hd (mq_elems q))) \<and>
    empty_mpsc q = Inr (mq_elems q = [])"
    using assms
  proof (cases rule: nodes_cases)
    case (more a b ms)
    then have ok: "nodes_ok {} {} (a # b # ms) q" using assms by simp
    have "b \<in> dom (mq_heap q)" using nodes_okD(3) [OF ok] by simp
    then obtain m where m: "mq_heap q b = Some m" by blast
    then obtain v where v: "nd_data m = Some v" using nodes_okD(9) [OF ok, of b] by auto
    have "mq_elems q = v # node_values q (b # ms)"
      using mq_elems_eq [OF ok] nodes_ok_pop(5) [OF ok] m v by simp
    then show ?thesis
      using nodes_ok_pop(1,3) [OF ok] m v by (auto simp: front_mpsc_def empty_mpsc_def deref_def)
  next
    case (one a)
    then obtain n where "mq_heap q (mq_tail q) = Some n" "nd_next n = None" "mq_tail q = mq_head q"
      using nodes_okD(1,5,6) [OF assms] by auto
    moreover have "mq_elems q = []" using mq_elems_eq [OF assms] one by (simp add: node_values_def)
    ultimately show ?thesis by (simp add: front_mpsc_def empty_mpsc_def deref_def)
  qed
  then show "front_mpsc d q = Inr (Some (if mq_elems q = [] then d else hd (mq_elems q)))"
    and "empty_mpsc q = Inr (mq_elems q = [])" by blast+
qed

interpretation mpsc: fifo_queue mq_inv mq_elems push_mpsc pop_mpsc front_mpsc empty_mpsc
  by unfold_locales (rule push_mpsc_ok pop_mpsc_ok front_empty_mpsc_ok, erule mq_inv_nodes)+

lemma new_mpsc_inv: "mq_inv new_mpsc" "mq_elems new_mpsc = []"
  using new_mpsc_ok mq_elems_eq [OF new_mpsc_ok] by (auto simp: mq_inv_iff node_values_def)

section \<open>The destructor\<close>

text \<open>
  The destructor: \<open>pop\<close> until the queue is empty, then \<open>delete\<close> of the stub. The value the stub still
  points to is not deleted with it and is returned; the bound \<open>k\<close> is on the calls of \<open>pop\<close>.
\<close>

fun destroy_mpsc :: "nat \<Rightarrow> 'a MpscQueue \<Rightarrow> ('a option \<times> 'a MpscQueue) option res" where
  "destroy_mpsc 0 q = Inr None"
| "destroy_mpsc (Suc k) q =
     bind_res (pop_mpsc q) (\<lambda>r. case r of
       None \<Rightarrow> Inr None
     | Some (again, q1) \<Rightarrow>
         if again then destroy_mpsc k q1
         else bind_res (deref q1 (mq_tail q1)) (\<lambda>n.
                Inr (Some (nd_data n, q1\<lparr>mq_heap := (mq_heap q1)(mq_tail q1 := None)\<rparr>))))"

text \<open>The value the stub carries: the one that was popped last.\<close>

definition stub_value :: "'a MpscQueue \<Rightarrow> 'a option" where
  "stub_value q = nd_data (the (mq_heap q (mq_tail q)))"

lemma pop_mpsc_stub:
  assumes inv: "mq_inv q" and ne: "mq_elems q \<noteq> []" and pop: "pop_mpsc q = Inr (Some (b, q'))"
  shows "stub_value q' = Some (hd (mq_elems q))"
  using mq_inv_nodes [OF inv]
proof (cases rule: nodes_cases)
  case (more a c ms)
  then have ok: "nodes_ok {} {} (a # c # ms) q" using mq_inv_nodes [OF inv] by simp
  have q': "q' = pop_unlink a c q" using pop nodes_ok_pop(1,3) [OF ok] by (auto simp: pop_mpsc_def deref_def)
  have "nd_data (the (mq_heap q c)) \<noteq> None" "a \<noteq> c" using nodes_okD(2,9) [OF ok] by auto
  moreover have "hd (mq_elems q) = the (nd_data (the (mq_heap q c)))" using mq_elems_eq [OF ok] by (simp add: node_values_def)
  ultimately show ?thesis by (simp add: q' stub_value_def pop_unlink_def)
qed (use ne mq_elems_eq [OF mq_inv_nodes [OF inv]] in \<open>simp add: node_values_def\<close>)

lemma destroy_mpsc_frees_nodes:
  assumes "mq_inv q" "length (mq_elems q) < k"
  shows "\<exists>q'. destroy_mpsc k q = Inr (Some (if mq_elems q = [] then stub_value q else Some (last (mq_elems q)), q')) \<and> mq_heap q' = Map.empty"
  using assms
proof (induction k arbitrary: q)
  case (Suc k)
  obtain q1 where q1: "pop_mpsc q = Inr (Some (mq_elems q \<noteq> [], q1))" "mq_inv q1" "mq_elems q1 = tl (mq_elems q)"
    using mpsc.pop_ok [OF Suc.prems(1)] by blast
  show ?case
  proof (cases "mq_elems q = []")
    case True
    have "\<exists>a. mq_nodes q1 = [a]"
      using mq_inv_nodes [OF q1(2)] q1(3) True by (cases rule: nodes_cases) (auto simp: mq_elems_def node_values_def)
    then have "dom (mq_heap q1) = {mq_tail q1}" using mq_inv_nodes [OF q1(2)] by (auto simp: nodes_ok_def)
    moreover have "q1 = q" using q1(1) True by (auto simp: pop_mpsc_def bind_res_Inr_iff split: option.splits if_splits)
    ultimately obtain n where "mq_heap q = [mq_tail q \<mapsto> n]" by (auto simp: dom_eq_singleton_conv)
    then show ?thesis using q1(1) True \<open>q1 = q\<close> by (simp add: deref_def stub_value_def)
  next
    case False
    then have "length (mq_elems q1) < k" using Suc.prems(2) q1(3) by (cases "mq_elems q") simp_all
    moreover have "(if mq_elems q1 = [] then stub_value q1 else Some (last (mq_elems q1))) = Some (last (mq_elems q))"
      using pop_mpsc_stub [OF Suc.prems(1) False q1(1)] q1(3) False by (cases "mq_elems q") auto
    ultimately show ?thesis using Suc.IH [OF q1(2)] q1(1) False by simp
  qed
qed simp

section \<open>Producers and the consumer interleaved\<close>

text \<open>
  A producer is either outside \<open>push\<close> or between the exchange and the store of the link. The
  consumer is outside \<open>pop\<close>, has read a null link and is about to compare with \<open>head\<close>, spins, is
  about to store the new tail, or is about to delete the old stub. \<open>pushed\<close> lists the values in the
  order of the exchanges, \<open>popped\<close> those the consumer has removed.
\<close>

datatype producer_pc = PIdle | PLink nat nat

datatype consumer_pc = CIdle | CCheck nat | CSpin nat | CAdvance nat nat | CDelete nat

record 'a mpsc_state =
  ms_queue :: "'a MpscQueue"
  ms_producer :: "nat \<Rightarrow> producer_pc"
  ms_consumer :: consumer_pc
  ms_pushed :: "'a list"
  ms_popped :: "'a list"

definition mpsc_init :: "'a mpsc_state" where
  "mpsc_init = \<lparr>ms_queue = new_mpsc, ms_producer = (\<lambda>_. PIdle), ms_consumer = CIdle,
     ms_pushed = [], ms_popped = []\<rparr>"

text \<open>The next access of some thread goes to a node that has been freed.\<close>

definition mpsc_dangling :: "'a mpsc_state \<Rightarrow> bool" where
  "mpsc_dangling s \<longleftrightarrow>
     (\<exists>i a b. ms_producer s i = PLink a b \<and> mq_heap (ms_queue s) a = None) \<or>
     (case ms_consumer s of
        CIdle \<Rightarrow> mq_heap (ms_queue s) (mq_tail (ms_queue s)) = None
      | CSpin t \<Rightarrow> mq_heap (ms_queue s) t = None
      | CDelete t \<Rightarrow> mq_heap (ms_queue s) t = None
      | CAdvance t b \<Rightarrow> mq_heap (ms_queue s) b = None
      | CCheck t \<Rightarrow> False)"

inductive mpsc_step :: "'a mpsc_state \<Rightarrow> 'a mpsc_state \<Rightarrow> bool" where
  exchange: "\<lbrakk>ms_producer s i = PIdle; push_exchange v (ms_queue s) = ((a, c), q')\<rbrakk> \<Longrightarrow>
    mpsc_step s (s\<lparr>ms_queue := q', ms_producer := (ms_producer s)(i := PLink a c),
      ms_pushed := ms_pushed s @ [v]\<rparr>)"
| link: "\<lbrakk>ms_producer s i = PLink a b; push_link a b (ms_queue s) = Inr q'\<rbrakk> \<Longrightarrow>
    mpsc_step s (s\<lparr>ms_queue := q', ms_producer := (ms_producer s)(i := PIdle)\<rparr>)"
| load: "\<lbrakk>ms_consumer s = CIdle; t = mq_tail (ms_queue s); deref (ms_queue s) t = Inr n\<rbrakk> \<Longrightarrow>
    mpsc_step s (s\<lparr>ms_consumer := (case nd_next n of None \<Rightarrow> CCheck t | Some b \<Rightarrow> CAdvance t b)\<rparr>)"
| check: "ms_consumer s = CCheck t \<Longrightarrow>
    mpsc_step s (s\<lparr>ms_consumer := (if t = mq_head (ms_queue s) then CIdle else CSpin t)\<rparr>)"
| spin: "\<lbrakk>ms_consumer s = CSpin t; deref (ms_queue s) t = Inr n\<rbrakk> \<Longrightarrow>
    mpsc_step s (s\<lparr>ms_consumer := (case nd_next n of None \<Rightarrow> CSpin t | Some b \<Rightarrow> CAdvance t b)\<rparr>)"
| advance: "\<lbrakk>ms_consumer s = CAdvance t b; deref (ms_queue s) b = Inr n\<rbrakk> \<Longrightarrow>
    mpsc_step s (s\<lparr>ms_queue := (ms_queue s)\<lparr>mq_tail := b\<rparr>, ms_consumer := CDelete t,
      ms_popped := ms_popped s @ [the (nd_data n)]\<rparr>)"
| delete: "ms_consumer s = CDelete t \<Longrightarrow>
    mpsc_step s (s\<lparr>ms_queue := (ms_queue s)\<lparr>mq_heap := (mq_heap (ms_queue s))(t := None)\<rparr>,
      ms_consumer := CIdle\<rparr>)"

inductive mpsc_reachable :: "'a mpsc_state \<Rightarrow> bool" where
  init: "mpsc_reachable mpsc_init"
| step: "mpsc_reachable s \<Longrightarrow> mpsc_step s s' \<Longrightarrow> mpsc_reachable s'"

definition pending :: "'a mpsc_state \<Rightarrow> (nat \<times> nat) set" where
  "pending s = {(a, b). \<exists>i. ms_producer s i = PLink a b}"

definition gone_nodes :: "'a mpsc_state \<Rightarrow> nat set" where
  "gone_nodes s = (case ms_consumer s of CDelete t \<Rightarrow> {t} | _ \<Rightarrow> {})"

text \<open>What the consumer knows of the list at each point of \<open>pop\<close>.\<close>

definition consumer_ok :: "nat list \<Rightarrow> 'a mpsc_state \<Rightarrow> bool" where
  "consumer_ok ns s \<longleftrightarrow>
     (case ms_consumer s of
        CCheck t \<Rightarrow> t = hd ns
      | CSpin t \<Rightarrow> t = hd ns \<and> tl ns \<noteq> []
      | CAdvance t b \<Rightarrow> (\<exists>ms. ns = t # b # ms) \<and> (t, b) \<notin> pending s
      | _ \<Rightarrow> True)"

definition mpsc_good :: "nat list \<Rightarrow> 'a mpsc_state \<Rightarrow> bool" where
  "mpsc_good ns s \<longleftrightarrow>
     nodes_ok (gone_nodes s) (pending s) ns (ms_queue s) \<and> consumer_ok ns s \<and>
     (\<forall>i j a b. ms_producer s i = PLink a b \<longrightarrow> ms_producer s j = PLink a b \<longrightarrow> i = j) \<and>
     ms_pushed s = ms_popped s @ node_values (ms_queue s) ns"

lemma mpsc_goodD:
  assumes "mpsc_good ns s"
  shows "nodes_ok (gone_nodes s) (pending s) ns (ms_queue s)" "consumer_ok ns s"
    "\<And>i j a b. ms_producer s i = PLink a b \<Longrightarrow> ms_producer s j = PLink a b \<Longrightarrow> i = j"
    "ms_pushed s = ms_popped s @ node_values (ms_queue s) ns"
  using assms unfolding mpsc_good_def by blast+

lemma mpsc_goodI:
  assumes "nodes_ok gone pend ns q" "gone_nodes s = gone" "pending s = pend" "ms_queue s = q"
    and "consumer_ok ns s"
    and "\<And>i j a b. ms_producer s i = PLink a b \<Longrightarrow> ms_producer s j = PLink a b \<Longrightarrow> i = j"
    and "ms_pushed s = ms_popped s @ node_values q ns"
  shows "mpsc_good ns s"
  using assms unfolding mpsc_good_def by blast

lemma good_init: "mpsc_good [0] mpsc_init"
  using new_mpsc_ok
  by (simp add: mpsc_good_def mpsc_init_def pending_def gone_nodes_def consumer_ok_def node_values_def)

lemma good_exchange:
  assumes good: "mpsc_good ns s" and idle: "ms_producer s i = PIdle"
    and e: "push_exchange v (ms_queue s) = ((a, c), q')"
    and s': "s' = s\<lparr>ms_queue := q', ms_producer := (ms_producer s)(i := PLink a c), ms_pushed := ms_pushed s @ [v]\<rparr>"
  shows "mpsc_good (ns @ [c]) s'"
proof -
  note D = mpsc_goodD [OF good]
  note E = nodes_ok_exchange [OF D(1) e]
  have pend: "pending s' = insert (a, c) (pending s)"
  proof -
    have "(\<exists>x. ((ms_producer s)(i := PLink a c)) x = PLink p r) \<longleftrightarrow>
        (p, r) = (a, c) \<or> (\<exists>x. ms_producer s x = PLink p r)" for p r
      using idle by (metis fun_upd_apply producer_pc.distinct(1) producer_pc.inject prod.inject)
    then show ?thesis by (auto simp: pending_def s')
  qed
  have ne: "ns \<noteq> []" using chain_ne [OF nodes_okD(1) [OF D(1)]] .
  have cons: "ms_consumer s' = ms_consumer s" "gone_nodes s' = gone_nodes s"
    by (simp_all add: s' gone_nodes_def)
  have "consumer_ok (ns @ [c]) s'"
  proof (cases "ms_consumer s")
    case (CAdvance t b)
    then obtain ms where ns: "ns = t # b # ms" and np: "(t, b) \<notin> pending s"
      using D(2) by (auto simp: consumer_ok_def)
    have "t \<noteq> mq_head (ms_queue s)" using nodes_ok_pop(2) [OF D(1) [unfolded ns]] by simp
    moreover have "a = mq_head (ms_queue s)" using e by (simp add: push_exchange_def)
    ultimately have "(t, b) \<notin> pending s'" using np pend by simp
    then show ?thesis using CAdvance ns by (simp add: consumer_ok_def cons)
  qed (use D(2) ne in \<open>simp_all add: consumer_ok_def cons\<close>)
  have new: "ms_producer s x \<noteq> PLink a c" for x
    using E(3) by (auto simp: pending_def)
  show ?thesis
  proof (rule mpsc_goodI [OF E(1)])
    show "x = y" if "ms_producer s' x = PLink p r" "ms_producer s' y = PLink p r" for x y p r
      using that new D(3) [of x p r y] by (cases "x = i"; cases "y = i") (simp_all add: s')
    show "ms_pushed s' = ms_popped s' @ node_values q' (ns @ [c])"
      using E(2) D(4) by (simp add: s')
  qed (use pend cons \<open>consumer_ok (ns @ [c]) s'\<close> in \<open>simp_all add: s'\<close>)
qed

lemma good_link:
  assumes good: "mpsc_good ns s" and p: "ms_producer s i = PLink a b"
    and l: "push_link a b (ms_queue s) = Inr q'"
    and s': "s' = s\<lparr>ms_queue := q', ms_producer := (ms_producer s)(i := PIdle)\<rparr>"
  shows "mpsc_good ns s'"
proof -
  note D = mpsc_goodD [OF good]
  have "(a, b) \<in> pending s" using p by (auto simp: pending_def)
  then obtain q2 where "push_link a b (ms_queue s) = Inr q2" "nodes_ok (gone_nodes s) (pending s - {(a, b)}) ns q2"
    "node_values q2 ns = node_values (ms_queue s) ns"
    using nodes_ok_link [OF D(1)] by blast
  then have E: "nodes_ok (gone_nodes s) (pending s - {(a, b)}) ns q'" "node_values q' ns = node_values (ms_queue s) ns"
    using l by simp_all
  have "(\<exists>x. ((ms_producer s)(i := PIdle)) x = PLink u v) \<longleftrightarrow>
      (u, v) \<noteq> (a, b) \<and> (\<exists>x. ms_producer s x = PLink u v)" for u v
    using D(3) [OF p] p by (metis fun_upd_apply producer_pc.distinct(1) producer_pc.inject prod.inject)
  then have pend: "pending s' = pending s - {(a, b)}"
    by (auto simp: pending_def s')
  have cons: "ms_consumer s' = ms_consumer s" "gone_nodes s' = gone_nodes s"
    by (simp_all add: s' gone_nodes_def)
  have "consumer_ok ns s'"
    using D(2) pend by (cases "ms_consumer s") (simp_all add: consumer_ok_def cons)
  show ?thesis
  proof (rule mpsc_goodI [OF E(1)])
    show "x = y" if "ms_producer s' x = PLink p r" "ms_producer s' y = PLink p r" for x y p r
      using that D(3) [of x p r y] by (cases "x = i"; cases "y = i") (simp_all add: s')
    show "ms_pushed s' = ms_popped s' @ node_values q' ns"
      using E(2) D(4) by (simp add: s')
  qed (use pend cons \<open>consumer_ok ns s'\<close> in \<open>simp_all add: s'\<close>)
qed

lemma good_consumer:
  assumes good: "mpsc_good ns s" and "s' = s\<lparr>ms_consumer := pc\<rparr>"
    and "gone_nodes s' = gone_nodes s" "consumer_ok ns s'"
  shows "mpsc_good ns s'"
proof (rule mpsc_goodI [OF mpsc_goodD(1) [OF good]])
  note D = mpsc_goodD [OF good]
  show "pending s' = pending s" "ms_queue s' = ms_queue s" by (simp_all add: assms(2) pending_def)
  show "i = j" if "ms_producer s' i = PLink a b" "ms_producer s' j = PLink a b" for i j a b
    using D(3) that by (simp add: assms(2))
  show "ms_pushed s' = ms_popped s' @ node_values (ms_queue s) ns" using D(4) by (simp add: assms(2))
qed (use assms in simp_all)

lemma good_load:
  assumes good: "mpsc_good ns s" and n: "deref (ms_queue s) (hd ns) = Inr n"
    and "gone_nodes s = {}" and "nd_next n = None \<Longrightarrow> gone_nodes (s\<lparr>ms_consumer := pc\<rparr>) = {} \<and> consumer_ok ns (s\<lparr>ms_consumer := pc\<rparr>)"
    and s': "s' = s\<lparr>ms_consumer := (case nd_next n of None \<Rightarrow> pc | Some b \<Rightarrow> CAdvance (hd ns) b)\<rparr>"
  shows "mpsc_good ns s'"
proof (cases "nd_next n")
  case None
  then show ?thesis using assms good_consumer [OF good, of s' pc] by simp
next
  case (Some b)
  have "consumer_ok ns s'"
    using mpsc_goodD(1) [OF good]
  proof (cases rule: nodes_cases)
    case (more a c ms)
    then have ok: "nodes_ok (gone_nodes s) (pending s) (a # c # ms) (ms_queue s)"
      using mpsc_goodD(1) [OF good] by simp
    have "(a, c) \<notin> pending s \<and> b = c"
      using nodes_ok_pop(3) [OF ok] n Some more by (auto simp: deref_def split: option.splits if_splits)
    then show ?thesis using more Some by (simp add: consumer_ok_def s' pending_def)
  next
    case (one a)
    then show ?thesis using nodes_okD(1) [OF mpsc_goodD(1) [OF good]] n Some
      by (auto simp: deref_def split: option.splits)
  qed
  then show ?thesis
    using good_consumer [OF good, of s' "CAdvance (hd ns) b"] Some assms(3)
    by (simp add: s' gone_nodes_def)
qed

lemma good_advance:
  assumes good: "mpsc_good ns s" and c: "ms_consumer s = CAdvance t b"
    and n: "deref (ms_queue s) b = Inr n"
    and s': "s' = s\<lparr>ms_queue := (ms_queue s)\<lparr>mq_tail := b\<rparr>, ms_consumer := CDelete t,
      ms_popped := ms_popped s @ [the (nd_data n)]\<rparr>"
  shows "mpsc_good (tl ns) s'"
proof -
  note D = mpsc_goodD [OF good]
  obtain ms where ns: "ns = t # b # ms" and np: "(t, b) \<notin> pending s"
    using D(2) c by (auto simp: consumer_ok_def)
  have g: "gone_nodes s = {}" "gone_nodes s' = {t}" "pending s' = pending s"
    by (simp_all add: gone_nodes_def c s' pending_def)
  have ok: "nodes_ok {} (pending s) (t # b # ms) (ms_queue s)" using D(1) ns g by simp
  have "mq_heap (ms_queue s) b = Some n" using n by (simp add: deref_def split: option.splits)
  then have v: "node_values (ms_queue s) ns = the (nd_data n) # node_values (ms_queue s) (b # ms)"
    using nodes_ok_pop(5) [OF ok] ns by simp
  have "nodes_ok {t} (pending s) (b # ms) ((ms_queue s)\<lparr>mq_tail := b\<rparr>)"
    using nodes_ok_pop(4) [OF ok np] by simp
  then have "mpsc_good (b # ms) s'"
  proof (rule mpsc_goodI)
    show "consumer_ok (b # ms) s'" by (simp add: consumer_ok_def s')
    show "i = j" if "ms_producer s' i = PLink x y" "ms_producer s' j = PLink x y" for i j x y
      using D(3) that by (simp add: s')
    show "ms_pushed s' = ms_popped s' @ node_values ((ms_queue s)\<lparr>mq_tail := b\<rparr>) (b # ms)"
      using D(4) v by (simp add: s' node_values_def)
  qed (use g in \<open>simp_all add: s'\<close>)
  then show ?thesis using ns by simp
qed

lemma good_delete:
  assumes good: "mpsc_good ns s" and c: "ms_consumer s = CDelete t"
    and s': "s' = s\<lparr>ms_queue := (ms_queue s)\<lparr>mq_heap := (mq_heap (ms_queue s))(t := None)\<rparr>, ms_consumer := CIdle\<rparr>"
  shows "mpsc_good ns s'"
proof -
  note D = mpsc_goodD [OF good]
  have g: "gone_nodes s = {t}" "gone_nodes s' = {}" "pending s' = pending s"
    by (simp_all add: gone_nodes_def c s' pending_def)
  have E: "nodes_ok {} (pending s) ns (ms_queue s')" "node_values (ms_queue s') ns = node_values (ms_queue s) ns"
    using nodes_ok_delete [OF D(1), of t] g by (simp_all add: s')
  show ?thesis
  proof (rule mpsc_goodI [OF E(1)])
    show "consumer_ok ns s'" by (simp add: consumer_ok_def s')
    show "i = j" if "ms_producer s' i = PLink x y" "ms_producer s' j = PLink x y" for i j x y
      using D(3) that by (simp add: s')
    show "ms_pushed s' = ms_popped s' @ node_values (ms_queue s') ns"
      using D(4) E(2) by (simp add: s')
  qed (use g in simp_all)
qed

lemma good_step: "mpsc_step s s' \<Longrightarrow> mpsc_good ns s \<Longrightarrow> \<exists>ns'. mpsc_good ns' s'"
proof (induction rule: mpsc_step.induct)
  case (load s t n)
  have "t = hd ns" using load nodes_okD(5) [OF mpsc_goodD(1) [OF load.prems]] by simp
  moreover have "gone_nodes s = {}" using load by (simp add: gone_nodes_def)
  ultimately show ?case
    using good_load [OF load.prems, of n "CCheck t"] load.hyps
    by (auto simp: gone_nodes_def consumer_ok_def)
next
  case (check s t)
  have t: "t = hd ns" using check mpsc_goodD(2) [OF check.prems] by (simp add: consumer_ok_def)
  have "t \<noteq> mq_head (ms_queue s) \<Longrightarrow> tl ns \<noteq> []"
    using mpsc_goodD(1) [OF check.prems] t nodes_okD(6) [OF mpsc_goodD(1) [OF check.prems]]
    by (cases rule: nodes_cases) auto
  then have "mpsc_good ns (s\<lparr>ms_consumer := (if t = mq_head (ms_queue s) then CIdle else CSpin t)\<rparr>)"
    using check t by (intro good_consumer [OF check.prems refl]) (auto simp: gone_nodes_def consumer_ok_def)
  then show ?case by blast
next
  case (spin s t n)
  have "t = hd ns" "tl ns \<noteq> []" using spin mpsc_goodD(2) [OF spin.prems] by (simp_all add: consumer_ok_def)
  moreover have "gone_nodes s = {}" using spin by (simp add: gone_nodes_def)
  ultimately show ?case
    using good_load [OF spin.prems, of n "CSpin t"] spin.hyps
    by (auto simp: gone_nodes_def consumer_ok_def)
next
  case (exchange s i v a c q')
  then show ?case using good_exchange [OF exchange.prems exchange.hyps refl] by blast
next
  case (link s i a b q')
  then show ?case using good_link [OF link.prems link.hyps refl] by blast
next
  case (advance s t b n)
  then show ?case using good_advance [OF advance.prems advance.hyps refl] by blast
next
  case (delete s t)
  then show ?case using good_delete [OF delete.prems delete.hyps refl] by blast
qed

lemma reachable_good: "mpsc_reachable s \<Longrightarrow> \<exists>ns. mpsc_good ns s"
  by (induction rule: mpsc_reachable.induct) (use good_init good_step in blast)+

lemma good_not_dangling:
  assumes "mpsc_good ns s"
  shows "\<not> mpsc_dangling s"
proof -
  note D = mpsc_goodD [OF assms]
  note N = nodes_okD [OF D(1)]
  have in_dom: "mq_heap (ms_queue s) a \<noteq> None" if "a \<in> set ns \<union> gone_nodes s" for a
    using that N(3) by blast
  have hd: "hd ns \<in> set ns" using chain_ne [OF N(1)] by simp
  have "mq_heap (ms_queue s) a \<noteq> None" if "ms_producer s i = PLink a b" for i a b
  proof -
    have "(a, b) \<in> links ns" using that N(8) by (auto simp: pending_def)
    then show ?thesis using links_in [of a b ns] in_dom by blast
  qed
  moreover have "\<not> (case ms_consumer s of
        CIdle \<Rightarrow> mq_heap (ms_queue s) (mq_tail (ms_queue s)) = None
      | CSpin t \<Rightarrow> mq_heap (ms_queue s) t = None
      | CDelete t \<Rightarrow> mq_heap (ms_queue s) t = None
      | CAdvance t b \<Rightarrow> mq_heap (ms_queue s) b = None
      | CCheck t \<Rightarrow> False)"
    using D(2) hd in_dom N(5)
    by (cases "ms_consumer s") (auto simp: consumer_ok_def gone_nodes_def)
  ultimately show ?thesis unfolding mpsc_dangling_def by blast
qed

lemma good_quiescent:
  assumes "mpsc_good ns s" "\<And>i. ms_producer s i = PIdle" "ms_consumer s = CIdle"
  shows "mq_inv (ms_queue s)" "ms_pushed s = ms_popped s @ mq_elems (ms_queue s)"
proof -
  note D = mpsc_goodD [OF assms(1)]
  have ok: "nodes_ok {} {} ns (ms_queue s)"
    using D(1) assms(2,3) by (simp add: pending_def gone_nodes_def)
  then show "mq_inv (ms_queue s)" by (auto simp: mq_inv_iff)
  show "ms_pushed s = ms_popped s @ mq_elems (ms_queue s)"
    using D(4) mq_elems_eq [OF ok] by simp
qed

text \<open>
  C5. However any number of producers and the consumer interleave, no thread ever accesses a freed
  node, and the values come out in the order of the producers' exchanges: what has been popped is an
  initial part of what has been pushed. When no operation is under way, the rest of the pushed values
  is exactly the contents of the queue and its heap holds no node beyond the list, so nothing is lost,
  duplicated or leaked.
\<close>

theorem mpsc_fifo_and_memory_safe:
  assumes "mpsc_reachable s"
  shows "\<not> mpsc_dangling s \<and> (\<exists>rest. ms_pushed s = ms_popped s @ rest) \<and>
    ((\<forall>i. ms_producer s i = PIdle) \<and> ms_consumer s = CIdle \<longrightarrow>
       mq_inv (ms_queue s) \<and> ms_pushed s = ms_popped s @ mq_elems (ms_queue s) \<and>
       dom (mq_heap (ms_queue s)) = set (mq_nodes (ms_queue s)))"
proof -
  obtain ns where ns: "mpsc_good ns s" using reachable_good [OF assms] by blast
  have "dom (mq_heap (ms_queue s)) = set (mq_nodes (ms_queue s))" if "mq_inv (ms_queue s)"
    using nodes_okD(3) [OF mq_inv_nodes [OF that]] by simp
  then show ?thesis
    using good_not_dangling [OF ns] mpsc_goodD(4) [OF ns] good_quiescent [OF ns] by blast
qed

theorem mpsc_fifo_and_memory_safe_witness:
  "\<not> mpsc_dangling (mpsc_init\<lparr>ms_queue := snd (push_exchange (7 :: nat) new_mpsc),
     ms_producer := (\<lambda>_. PIdle)(4 := PLink 0 1), ms_pushed := [7]\<rparr>)"
proof -
  have "mpsc_step mpsc_init (mpsc_init\<lparr>ms_queue := snd (push_exchange (7 :: nat) new_mpsc),
     ms_producer := (\<lambda>_. PIdle)(4 := PLink 0 1), ms_pushed := [7]\<rparr>)"
    using mpsc_step.exchange [of "mpsc_init :: nat mpsc_state" 4 7 0 1 "snd (push_exchange 7 new_mpsc)"]
    by (simp add: mpsc_init_def push_exchange_def new_mpsc_def)
  then have "mpsc_reachable (mpsc_init\<lparr>ms_queue := snd (push_exchange (7 :: nat) new_mpsc),
     ms_producer := (\<lambda>_. PIdle)(4 := PLink 0 1), ms_pushed := [7]\<rparr>)"
    by (rule mpsc_reachable.step [OF mpsc_reachable.init])
  from mpsc_fifo_and_memory_safe [OF this] show ?thesis by (rule conjunct1)
qed

end
