(* ===== verification/Pools.thy ===== *)
theory Pools
  imports Packet Fixed_Queue
begin

text \<open>
  \<open>pool/PacketPool.cpp\<close>, \<open>pool/IOContextPool.h\<close>, \<open>pool/SessionPool.cpp\<close> and
  \<open>session/Session.h\<close>: the three pools of preallocated objects. A pointer into a pool is the index
  of the object, a null pointer is \<open>None\<close>. The locale \<open>index_pool\<close> is the discipline they share:
  an object is either free or held by one borrower. Each function is one locked region of the source
  together with the code before and after it, run without interference.
\<close>

section \<open>Packets\<close>

definition PACKET_POOL_SIZE :: nat where "PACKET_POOL_SIZE = 25000"

record PacketPool =
  pp_pool :: "Packet list"
  pp_availableIdx :: "nat list"
  pp_inUse :: "byte list"
  pp_currentPacketUse :: nat
  pp_peak :: nat

text \<open>\<open>std::vector::resize\<close> value-initializes the packets, which zeroes their arrays.\<close>

definition new_PacketPool :: PacketPool where
  "new_PacketPool =
     \<lparr>pp_pool = replicate PACKET_POOL_SIZE (new_packet zero_header (replicate DATA_SIZE 0)),
      pp_availableIdx = [0..<PACKET_POOL_SIZE], pp_inUse = replicate PACKET_POOL_SIZE 0,
      pp_currentPacketUse = 0, pp_peak = 0\<rparr>"

text \<open>The \<open>while (true)\<close> loop: indices that are marked in use are dropped.\<close>

fun borrow_scan :: "byte list \<Rightarrow> nat list \<Rightarrow> (nat \<times> nat list) res" where
  "borrow_scan inUse [] = Inl EmptyFront"
| "borrow_scan inUse (i # is) =
     (if length inUse \<le> i then Inl OutOfBounds
      else if inUse ! i = 0 then Inr (i, is) else borrow_scan inUse is)"

definition borrowPacket :: "PacketPool \<Rightarrow> (nat option \<times> PacketPool) res" where
  "borrowPacket p =
     (if pp_availableIdx p = [] then Inr (None, p)
      else bind_res (borrow_scan (pp_inUse p) (pp_availableIdx p)) (\<lambda>(i, is).
        if PACKET_POOL_SIZE \<le> i then Inl (RuntimeError ''Invalid packet index'')
        else let newCount = pp_currentPacketUse p + 1
             in Inr (Some i, p\<lparr>pp_availableIdx := is, pp_inUse := (pp_inUse p)[i := 1],
                  pp_pool := (pp_pool p)[i := (pp_pool p ! i)\<lparr>pkt_id := i\<rparr>],
                  pp_currentPacketUse := newCount, pp_peak := max (pp_peak p) newCount\<rparr>)))"

text \<open>The packet is cleared before the in-use mark is looked at.\<close>

definition returnPacket :: "nat option \<Rightarrow> PacketPool \<Rightarrow> PacketPool" where
  "returnPacket ptr p =
     (case ptr of None \<Rightarrow> p
      | Some a \<Rightarrow>
          let i = pkt_id (pp_pool p ! a) in
          if PACKET_POOL_SIZE \<le> i then p
          else let p1 = p\<lparr>pp_pool := (pp_pool p)[a := (clearInPointer (pp_pool p ! a))\<lparr>data := replicate DATA_SIZE 0\<rparr>]\<rparr>
               in if pp_inUse p1 ! i = 0 then p1
                  else p1\<lparr>pp_availableIdx := pp_availableIdx p1 @ [i], pp_inUse := (pp_inUse p1)[i := 0],
                          pp_currentPacketUse := pp_currentPacketUse p1 - 1\<rparr>)"

definition returnPeak :: "PacketPool \<Rightarrow> nat" where
  "returnPeak p = pp_peak p"

section \<open>I/O contexts\<close>

text \<open>\<open>operationType\<close> is 0 for a send and 2 for the zero-byte receive.\<close>

record PER_IO_OPERATION_DATA =
  io_len :: nat
  io_offset :: nat
  io_operationType :: int
  io_packet :: "nat option"
  io_totalToSend :: int
  io_bytesSent :: int
  io_id :: nat

definition IO_POOL_SIZE :: nat where "IO_POOL_SIZE = 20000"

record IOContextPool =
  ic_pool :: "PER_IO_OPERATION_DATA list"
  ic_freeIndices :: "nat Fqueue"
  ic_currentPacketUse :: nat
  ic_peak :: nat

definition zero_io :: "nat \<Rightarrow> PER_IO_OPERATION_DATA" where
  "zero_io i = \<lparr>io_len = 0, io_offset = 0, io_operationType = 0, io_packet = None,
     io_totalToSend = 0, io_bytesSent = 0, io_id = i\<rparr>"

text \<open>A queue operation that would retry for ever is the fault \<open>Diverges\<close>.\<close>

definition returns :: "'a option \<Rightarrow> 'a res" where
  "returns r = (case r of None \<Rightarrow> Inl Diverges | Some x \<Rightarrow> Inr x)"

fun push_all :: "nat list \<Rightarrow> nat Fqueue \<Rightarrow> nat Fqueue res" where
  "push_all [] q = Inr q"
| "push_all (i # is) q = bind_res (returns (push_fq i q)) (push_all is)"

definition new_IOContextPool :: "IOContextPool res" where
  "new_IOContextPool =
     bind_res (push_all [0..<IO_POOL_SIZE] (new_fqueue (of_nat IO_POOL_SIZE))) (\<lambda>q.
       Inr \<lparr>ic_pool = map zero_io [0..<IO_POOL_SIZE], ic_freeIndices = q,
            ic_currentPacketUse = 0, ic_peak = 0\<rparr>)"

definition borrowIOPdata :: "IOContextPool \<Rightarrow> (nat option \<times> IOContextPool) res" where
  "borrowIOPdata p =
     bind_res (returns (pop_fq (ic_freeIndices p))) (\<lambda>(r, q).
       let p1 = p\<lparr>ic_freeIndices := q\<rparr> in
       case r of None \<Rightarrow> Inr (None, p1)
       | Some i \<Rightarrow>
           if IO_POOL_SIZE \<le> i then Inr (None, p1)
           else let newCount = ic_currentPacketUse p + 1
                in Inr (Some i, p1\<lparr>ic_currentPacketUse := newCount, ic_peak := max (ic_peak p) newCount\<rparr>))"

definition returnIOPdata :: "nat option \<Rightarrow> IOContextPool \<Rightarrow> IOContextPool res" where
  "returnIOPdata ptr p =
     (case ptr of None \<Rightarrow> Inr p
      | Some a \<Rightarrow>
          let i = io_id (ic_pool p ! a) in
          if IO_POOL_SIZE \<le> i then Inr p
          else bind_res (returns (push_fq i (ic_freeIndices p))) (\<lambda>q.
            Inr (p\<lparr>ic_pool := (ic_pool p)[a := (ic_pool p ! a)\<lparr>io_packet := None, io_totalToSend := 0, io_bytesSent := 0\<rparr>],
                   ic_freeIndices := q, ic_currentPacketUse := ic_currentPacketUse p - 1\<rparr>)))"

section \<open>Sessions\<close>

definition INVALID_SOCKET :: SOCKET where "INVALID_SOCKET = -1"

text \<open>\<open>se_iocp\<close> says whether the pointer \<open>iocp\<close> has been set.\<close>

record Session =
  se_userId :: string
  se_socket :: SOCKET
  se_recievingFile :: bool
  se_iocp :: bool
  se_id :: nat
  se_updated :: bool
  se_auth_state :: int
  se_cached_user_id :: bytes
  se_cached_expiry :: u64

definition SESSION_POOL_SIZE :: nat where "SESSION_POOL_SIZE = 10000"

definition new_Session :: Session where
  "new_Session = \<lparr>se_userId = [], se_socket = 0, se_recievingFile = False, se_iocp = False, se_id = 0,
     se_updated = False, se_auth_state = 0, se_cached_user_id = replicate 16 0, se_cached_expiry = 0\<rparr>"

definition setSocket :: "SOCKET \<Rightarrow> Session \<Rightarrow> Session" where
  "setSocket s se = se\<lparr>se_socket := s\<rparr>"

definition close_session :: "Session \<Rightarrow> Session" where
  "close_session se = (if se_socket se \<noteq> INVALID_SOCKET then se\<lparr>se_socket := INVALID_SOCKET\<rparr> else se)"

text \<open>
  Moving a session, with the two sessions afterwards. What the move leaves in the other user id is not
  specified and given by \<open>rest\<close>. The members that the initializer list of the move constructor and its body
  do not mention have their default values, so that \<open>updated\<close> is not taken over.
\<close>

definition move_fields :: "Session \<Rightarrow> Session \<Rightarrow> Session" where
  "move_fields other se = se\<lparr>se_userId := se_userId other, se_socket := se_socket other, se_recievingFile := se_recievingFile other,
     se_iocp := se_iocp other, se_id := se_id other, se_auth_state := se_auth_state other,
     se_cached_user_id := se_cached_user_id other, se_cached_expiry := se_cached_expiry other\<rparr>"

definition moved_from :: "string \<Rightarrow> Session \<Rightarrow> Session" where
  "moved_from rest other = other\<lparr>se_userId := rest, se_socket := INVALID_SOCKET, se_iocp := False, se_auth_state := 0, se_cached_expiry := 0\<rparr>"

definition move_construct :: "string \<Rightarrow> Session \<Rightarrow> Session \<times> Session" where
  "move_construct rest other = (move_fields other new_Session, moved_from rest other)"

definition move_assign :: "bool \<Rightarrow> string \<Rightarrow> Session \<Rightarrow> Session \<Rightarrow> Session \<times> Session" where
  "move_assign same rest se other =
     (if same then (se, other) else (move_fields other (close_session se), moved_from rest other))"

record SessionPool =
  sp_pool :: "Session list"
  sp_freeIndices :: "nat list"

definition new_SessionPool :: SessionPool where
  "new_SessionPool = \<lparr>sp_pool = replicate SESSION_POOL_SIZE new_Session,
     sp_freeIndices = [0..<SESSION_POOL_SIZE]\<rparr>"

definition borrowSession :: "SOCKET \<Rightarrow> SessionPool \<Rightarrow> (nat option \<times> SessionPool) res" where
  "borrowSession s p =
     (case sp_freeIndices p of
        [] \<Rightarrow> Inr (None, p)
      | i # is \<Rightarrow>
          if length (sp_pool p) \<le> i then Inl OutOfBounds
          else Inr (Some i, p\<lparr>sp_freeIndices := is,
                 sp_pool := (sp_pool p)[i := setSocket s ((sp_pool p ! i)\<lparr>se_id := i\<rparr>)]\<rparr>))"

definition reset_session :: "Session \<Rightarrow> Session" where
  "reset_session se = se\<lparr>se_recievingFile := False, se_socket := INVALID_SOCKET, se_userId := [],
     se_auth_state := 0, se_cached_user_id := replicate 16 0, se_cached_expiry := 0\<rparr>"

definition returnSession :: "nat option \<Rightarrow> SessionPool \<Rightarrow> SessionPool res" where
  "returnSession ptr p =
     (case ptr of None \<Rightarrow> Inr p
      | Some a \<Rightarrow>
          let i = se_id (sp_pool p ! a) in
          if SESSION_POOL_SIZE \<le> i then Inl (RuntimeError ''Invalid packet index on return'')
          else Inr (p\<lparr>sp_pool := (sp_pool p)[a := reset_session (sp_pool p ! a)],
                      sp_freeIndices := sp_freeIndices p @ [i]\<rparr>))"

section \<open>The contract\<close>

text \<open>
  Runs of a pool in which objects are given back only by their holder: \<open>held\<close> are the objects
  borrowed and not given back yet.
\<close>

inductive pool_run ::
  "('p \<Rightarrow> (nat option \<times> 'p) res) \<Rightarrow> (nat \<Rightarrow> 'p \<Rightarrow> 'p res) \<Rightarrow> 'p \<Rightarrow> nat set \<Rightarrow> 'p \<Rightarrow> bool"
  for borrow give_back p0 where
  start: "pool_run borrow give_back p0 {} p0"
| borrowed: "pool_run borrow give_back p0 held p \<Longrightarrow> borrow p = Inr (Some i, p') \<Longrightarrow>
    pool_run borrow give_back p0 (insert i held) p'"
| refused: "pool_run borrow give_back p0 held p \<Longrightarrow> borrow p = Inr (None, p') \<Longrightarrow>
    pool_run borrow give_back p0 held p'"
| returned: "pool_run borrow give_back p0 held p \<Longrightarrow> i \<in> held \<Longrightarrow> give_back i p = Inr p' \<Longrightarrow>
    pool_run borrow give_back p0 (held - {i}) p'"

locale index_pool =
  fixes inv :: "'p \<Rightarrow> bool" and free :: "'p \<Rightarrow> nat list" and capacity :: nat
    and borrow :: "'p \<Rightarrow> (nat option \<times> 'p) res" and give_back :: "nat \<Rightarrow> 'p \<Rightarrow> 'p res"
  assumes free_ok: "inv p \<Longrightarrow> distinct (free p) \<and> set (free p) \<subseteq> {..<capacity}"
    and borrow_none: "inv p \<Longrightarrow> free p = [] \<Longrightarrow> borrow p = Inr (None, p)"
    and borrow_next: "inv p \<Longrightarrow> free p = i # is \<Longrightarrow>
      \<exists>p'. borrow p = Inr (Some i, p') \<and> inv p' \<and> free p' = is"
    and give_back_ok: "inv p \<Longrightarrow> i < capacity \<Longrightarrow> i \<notin> set (free p) \<Longrightarrow>
      \<exists>p'. give_back i p = Inr p' \<and> inv p' \<and> free p' = free p @ [i]"
begin

lemma borrow_cases:
  assumes "inv p"
  obtains (empty) "free p = []" "borrow p = Inr (None, p)"
    | (next_free) i "is" p' where "free p = i # is" "borrow p = Inr (Some i, p')" "inv p'" "free p' = is"
proof (cases "free p")
  case Nil
  then show thesis using empty borrow_none [OF assms] by blast
next
  case (Cons i "is")
  then show thesis using next_free borrow_next [OF assms] by blast
qed

lemma borrow_returns: "inv p \<Longrightarrow> \<exists>r p'. borrow p = Inr (r, p') \<and> inv p' \<and> (r = None \<longleftrightarrow> free p = [])"
  by (cases p rule: borrow_cases) auto

lemma run_partition:
  assumes "pool_run borrow give_back p0 held p" "inv p0" "set (free p0) = {..<capacity}"
  shows "inv p" "held \<inter> set (free p) = {}" "held \<union> set (free p) = {..<capacity}"
proof -
  have "inv p \<and> held \<inter> set (free p) = {} \<and> held \<union> set (free p) = {..<capacity}"
    using assms(1)
  proof (induction rule: pool_run.induct)
    case start
    then show ?case using assms(2,3) by simp
  next
    case (borrowed held p i p')
    then have inv: "inv p" by blast
    then show ?case
      using borrowed free_ok [OF inv] by (cases rule: borrow_cases) auto
  next
    case (refused held p p')
    then have "inv p" by blast
    then show ?case using refused by (cases rule: borrow_cases) auto
  next
    case (returned held p i p')
    then have "i < capacity" "i \<notin> set (free p)" by auto
    then show ?case using give_back_ok [of p i] returned by auto
  qed
  then show "inv p" "held \<inter> set (free p) = {}" "held \<union> set (free p) = {..<capacity}" by blast+
qed

lemma run_exclusive:
  assumes "pool_run borrow give_back p0 held p" "inv p0" "set (free p0) = {..<capacity}"
    and "borrow p = Inr (r, p')"
  shows "case r of None \<Rightarrow> held = {..<capacity} | Some i \<Rightarrow> i < capacity \<and> i \<notin> held"
  using run_partition(1) [OF assms(1-3)]
proof (cases rule: borrow_cases)
  case empty
  then show ?thesis using run_partition(3) [OF assms(1-3)] assms(4) by simp
next
  case (next_free i "is" p'')
  then show ?thesis using run_partition [OF assms(1-3)] assms(4) by auto
qed

lemma run_count:
  assumes "pool_run borrow give_back p0 held p" "inv p0" "set (free p0) = {..<capacity}"
  shows "card held + length (free p) = capacity"
proof -
  note P = run_partition [OF assms]
  have "finite held" using P(3) by (metis finite_Un finite_lessThan)
  then have "card held + card (set (free p)) = card (held \<union> set (free p))"
    using P(2) by (simp add: card_Un_disjoint)
  then show ?thesis using P(3) free_ok [OF P(1)] by (simp add: distinct_card)
qed

end

section \<open>The packet pool\<close>

definition pp_inv :: "PacketPool \<Rightarrow> bool" where
  "pp_inv p \<longleftrightarrow>
     length (pp_pool p) = PACKET_POOL_SIZE \<and> length (pp_inUse p) = PACKET_POOL_SIZE \<and>
     distinct (pp_availableIdx p) \<and>
     set (pp_availableIdx p) = {i. i < PACKET_POOL_SIZE \<and> pp_inUse p ! i = 0} \<and>
     (\<forall>i < PACKET_POOL_SIZE. length (data (pp_pool p ! i)) = DATA_SIZE) \<and>
     (\<forall>i < PACKET_POOL_SIZE. pp_inUse p ! i \<noteq> 0 \<longrightarrow> pkt_id (pp_pool p ! i) = i)"

lemma pp_invD:
  assumes "pp_inv p"
  shows "length (pp_pool p) = PACKET_POOL_SIZE" "length (pp_inUse p) = PACKET_POOL_SIZE"
    "distinct (pp_availableIdx p)"
    "set (pp_availableIdx p) = {i. i < PACKET_POOL_SIZE \<and> pp_inUse p ! i = 0}"
    "\<And>i. i < PACKET_POOL_SIZE \<Longrightarrow> length (data (pp_pool p ! i)) = DATA_SIZE"
    "\<And>i. i < PACKET_POOL_SIZE \<Longrightarrow> pp_inUse p ! i \<noteq> 0 \<Longrightarrow> pkt_id (pp_pool p ! i) = i"
  using assms unfolding pp_inv_def by blast+

lemma pp_invI:
  assumes "length (pp_pool p) = PACKET_POOL_SIZE" "length (pp_inUse p) = PACKET_POOL_SIZE"
    "distinct (pp_availableIdx p)"
    "\<And>i. i \<in> set (pp_availableIdx p) \<longleftrightarrow> i < PACKET_POOL_SIZE \<and> pp_inUse p ! i = 0"
    "\<And>i. i < PACKET_POOL_SIZE \<Longrightarrow> length (data (pp_pool p ! i)) = DATA_SIZE"
    "\<And>i. i < PACKET_POOL_SIZE \<Longrightarrow> pp_inUse p ! i \<noteq> 0 \<Longrightarrow> pkt_id (pp_pool p ! i) = i"
  shows "pp_inv p"
  using assms unfolding pp_inv_def by blast

lemma available_iff:
  "pp_inv p \<Longrightarrow> i \<in> set (pp_availableIdx p) \<longleftrightarrow> i < PACKET_POOL_SIZE \<and> pp_inUse p ! i = 0"
  using pp_invD(4) by blast

lemma new_PacketPool_inv: "pp_inv new_PacketPool" "pp_availableIdx new_PacketPool = [0..<PACKET_POOL_SIZE]"
  by (auto simp: pp_inv_def new_PacketPool_def new_packet_def)

lemma borrowPacket_next:
  assumes inv: "pp_inv p" and av: "pp_availableIdx p = i # is"
  shows "borrowPacket p = Inr (Some i, p\<lparr>pp_availableIdx := is, pp_inUse := (pp_inUse p)[i := 1],
      pp_pool := (pp_pool p)[i := (pp_pool p ! i)\<lparr>pkt_id := i\<rparr>],
      pp_currentPacketUse := pp_currentPacketUse p + 1, pp_peak := max (pp_peak p) (pp_currentPacketUse p + 1)\<rparr>)"
proof -
  have "i \<in> set (pp_availableIdx p)" using av by simp
  then have "i < PACKET_POOL_SIZE" "pp_inUse p ! i = 0" using pp_invD(4) [OF inv] by blast+
  then show ?thesis using pp_invD(2) [OF inv] av by (simp add: borrowPacket_def Let_def)
qed

lemma borrowPacket_inv:
  assumes inv: "pp_inv p" and av: "pp_availableIdx p = i # is"
  shows "\<exists>p'. borrowPacket p = Inr (Some i, p') \<and> pp_inv p' \<and> pp_availableIdx p' = is"
proof -
  note D = pp_invD [OF inv]
  let ?p = "p\<lparr>pp_availableIdx := is, pp_inUse := (pp_inUse p)[i := 1],
      pp_pool := (pp_pool p)[i := (pp_pool p ! i)\<lparr>pkt_id := i\<rparr>],
      pp_currentPacketUse := pp_currentPacketUse p + 1, pp_peak := max (pp_peak p) (pp_currentPacketUse p + 1)\<rparr>"
  have i: "i < PACKET_POOL_SIZE" "i \<notin> set is" using available_iff [OF inv, of i] D(3) av by auto
  have "pp_inv ?p"
  proof (rule pp_invI)
    fix j
    show "j \<in> set (pp_availableIdx ?p) \<longleftrightarrow> j < PACKET_POOL_SIZE \<and> pp_inUse ?p ! j = 0"
      using available_iff [OF inv, of j] av i D(2) by (cases "j = i") simp_all
    show "length (data (pp_pool ?p ! j)) = DATA_SIZE" if "j < PACKET_POOL_SIZE"
      using that D(1,5) by (cases "j = i") simp_all
    show "pkt_id (pp_pool ?p ! j) = j" if "j < PACKET_POOL_SIZE" "pp_inUse ?p ! j \<noteq> 0"
      using that D(1,6) by (cases "j = i") simp_all
  qed (use D(1-3) av in simp_all)
  then show ?thesis using borrowPacket_next [OF inv av] by auto
qed

lemma returnPacket_inv:
  assumes inv: "pp_inv p" and i: "i < PACKET_POOL_SIZE" "i \<notin> set (pp_availableIdx p)"
  shows "pp_inv (returnPacket (Some i) p)"
    and "pp_availableIdx (returnPacket (Some i) p) = pp_availableIdx p @ [i]"
proof -
  note D = pp_invD [OF inv]
  let ?q = "p\<lparr>pp_pool := (pp_pool p)[i := (clearInPointer (pp_pool p ! i))\<lparr>data := replicate DATA_SIZE 0\<rparr>],
      pp_availableIdx := pp_availableIdx p @ [i], pp_inUse := (pp_inUse p)[i := 0],
      pp_currentPacketUse := pp_currentPacketUse p - 1\<rparr>"
  have u: "pp_inUse p ! i \<noteq> 0" using i D(4) by blast
  then have r: "returnPacket (Some i) p = ?q"
    using i(1) D(6) [OF i(1) u] by (simp add: returnPacket_def Let_def)
  have "pp_inv ?q"
  proof (rule pp_invI)
    fix j
    show "j \<in> set (pp_availableIdx ?q) \<longleftrightarrow> j < PACKET_POOL_SIZE \<and> pp_inUse ?q ! j = 0"
      using available_iff [OF inv, of j] i D(2) by (cases "j = i") simp_all
    show "length (data (pp_pool ?q ! j)) = DATA_SIZE" if "j < PACKET_POOL_SIZE"
      using that D(1,5) by (cases "j = i") simp_all
    show "pkt_id (pp_pool ?q ! j) = j" if "j < PACKET_POOL_SIZE" "pp_inUse ?q ! j \<noteq> 0"
      using that D(1,2,6) by (cases "j = i") simp_all
  qed (use D(1-3) i in simp_all)
  then show "pp_inv (returnPacket (Some i) p)"
    and "pp_availableIdx (returnPacket (Some i) p) = pp_availableIdx p @ [i]"
    using r by simp_all
qed

interpretation packet_pool: index_pool pp_inv pp_availableIdx PACKET_POOL_SIZE borrowPacket
  "\<lambda>i p. Inr (returnPacket (Some i) p)"
proof
  fix p i "is" assume inv: "pp_inv p"
  show "distinct (pp_availableIdx p) \<and> set (pp_availableIdx p) \<subseteq> {..<PACKET_POOL_SIZE}"
    using pp_invD(3,4) [OF inv] by auto
  show "borrowPacket p = Inr (None, p)" if "pp_availableIdx p = []"
    using that by (simp add: borrowPacket_def)
  show "\<exists>p'. borrowPacket p = Inr (Some i, p') \<and> pp_inv p' \<and> pp_availableIdx p' = is"
    if "pp_availableIdx p = i # is" using borrowPacket_inv [OF inv that] .
  show "\<exists>p'. Inr (returnPacket (Some i) p) = (Inr p' :: PacketPool res) \<and> pp_inv p' \<and>
      pp_availableIdx p' = pp_availableIdx p @ [i]"
    if "i < PACKET_POOL_SIZE" "i \<notin> set (pp_availableIdx p)"
    using returnPacket_inv [OF inv that] by blast
qed

text \<open>A packet given back twice stays in the queue of available packets once.\<close>

lemma returnPacket_twice:
  assumes inv: "pp_inv p" and i: "i \<in> set (pp_availableIdx p)" "pkt_id (pp_pool p ! i) = i"
  shows "pp_inv (returnPacket (Some i) p)"
    and "pp_availableIdx (returnPacket (Some i) p) = pp_availableIdx p"
    and "pp_inUse (returnPacket (Some i) p) = pp_inUse p"
proof -
  note D = pp_invD [OF inv]
  let ?q = "p\<lparr>pp_pool := (pp_pool p)[i := (clearInPointer (pp_pool p ! i))\<lparr>data := replicate DATA_SIZE 0\<rparr>]\<rparr>"
  have b: "i < PACKET_POOL_SIZE" "pp_inUse p ! i = 0" using i D(4) by blast+
  then have r: "returnPacket (Some i) p = ?q"
    using i(2) by (simp add: returnPacket_def Let_def)
  have "pp_inv ?q"
  proof (rule pp_invI)
    fix j
    show "j \<in> set (pp_availableIdx ?q) \<longleftrightarrow> j < PACKET_POOL_SIZE \<and> pp_inUse ?q ! j = 0"
      using available_iff [OF inv, of j] by simp
    show "length (data (pp_pool ?q ! j)) = DATA_SIZE" if "j < PACKET_POOL_SIZE"
      using that D(1,5) by (cases "j = i") simp_all
    show "pkt_id (pp_pool ?q ! j) = j" if "j < PACKET_POOL_SIZE" "pp_inUse ?q ! j \<noteq> 0"
      using that b(2) D(6) by (cases "j = i") simp_all
  qed (use D(1-3) in simp_all)
  then show "pp_inv (returnPacket (Some i) p)"
    and "pp_availableIdx (returnPacket (Some i) p) = pp_availableIdx p"
    and "pp_inUse (returnPacket (Some i) p) = pp_inUse p"
    using r by simp_all
qed

section \<open>The session pool\<close>

definition sp_inv :: "SessionPool \<Rightarrow> bool" where
  "sp_inv p \<longleftrightarrow>
     length (sp_pool p) = SESSION_POOL_SIZE \<and> distinct (sp_freeIndices p) \<and>
     set (sp_freeIndices p) \<subseteq> {..<SESSION_POOL_SIZE} \<and>
     (\<forall>i < SESSION_POOL_SIZE. i \<notin> set (sp_freeIndices p) \<longrightarrow> se_id (sp_pool p ! i) = i)"

text \<open>
  A move hands the connection and the login over: the new session agrees with the old one but for the flag
  \<open>updated\<close>, and the old one has neither a socket nor a login.
\<close>

lemma move_hands_over:
  assumes "move_construct rest other = (se, other')"
  shows "se\<lparr>se_updated := se_updated other\<rparr> = other" "\<not> se_updated se"
    and "se_socket other' = INVALID_SOCKET" "se_auth_state other' = 0" "se_cached_expiry other' = 0"
  using assms by (auto simp: move_construct_def move_fields_def moved_from_def new_Session_def)

lemma move_assign_hands_over:
  assumes "move_assign False rest se other = (se', other')"
  shows "se' = other\<lparr>se_updated := se_updated se\<rparr>" "other' = snd (move_construct rest other)"
  using assms by (auto simp: move_assign_def move_construct_def move_fields_def close_session_def split: if_splits)

lemma new_SessionPool_inv: "sp_inv new_SessionPool" "sp_freeIndices new_SessionPool = [0..<SESSION_POOL_SIZE]"
  by (auto simp: sp_inv_def new_SessionPool_def)

interpretation session_pool: index_pool sp_inv sp_freeIndices SESSION_POOL_SIZE "borrowSession s"
  "\<lambda>i. returnSession (Some i)" for s
proof
  fix p i "is" assume inv: "sp_inv p"
  then show "distinct (sp_freeIndices p) \<and> set (sp_freeIndices p) \<subseteq> {..<SESSION_POOL_SIZE}"
    by (simp add: sp_inv_def)
  show "borrowSession s p = Inr (None, p)" if "sp_freeIndices p = []"
    using that by (simp add: borrowSession_def)
  show "\<exists>p'. borrowSession s p = Inr (Some i, p') \<and> sp_inv p' \<and> sp_freeIndices p' = is"
    if "sp_freeIndices p = i # is"
    using inv that by (auto simp: borrowSession_def sp_inv_def setSocket_def nth_list_update)
  show "\<exists>p'. returnSession (Some i) p = Inr p' \<and> sp_inv p' \<and> sp_freeIndices p' = sp_freeIndices p @ [i]"
    if "i < SESSION_POOL_SIZE" "i \<notin> set (sp_freeIndices p)"
    using inv that by (auto simp: returnSession_def sp_inv_def reset_session_def nth_list_update)
qed

section \<open>The pool of I/O contexts\<close>

definition ic_inv :: "IOContextPool \<Rightarrow> bool" where
  "ic_inv p \<longleftrightarrow>
     length (ic_pool p) = IO_POOL_SIZE \<and> fq_inv (ic_freeIndices p) \<and>
     IO_POOL_SIZE < fq_cap (ic_freeIndices p) \<and>
     distinct (fq_elems (ic_freeIndices p)) \<and> set (fq_elems (ic_freeIndices p)) \<subseteq> {..<IO_POOL_SIZE} \<and>
     (\<forall>i < IO_POOL_SIZE. io_id (ic_pool p ! i) = i)"

definition ic_free :: "IOContextPool \<Rightarrow> nat list" where
  "ic_free p = fq_elems (ic_freeIndices p)"

lemma distinct_bounded_length: "distinct xs \<Longrightarrow> set xs \<subseteq> {..<n} \<Longrightarrow> length xs \<le> n"
  by (metis card_lessThan card_mono distinct_card finite_lessThan)

interpretation io_pool: index_pool ic_inv ic_free IO_POOL_SIZE borrowIOPdata "\<lambda>i. returnIOPdata (Some i)"
proof
  fix p i "is" assume inv: "ic_inv p"
  then have q: "fq_inv (ic_freeIndices p)" by (simp add: ic_inv_def)
  show "distinct (ic_free p) \<and> set (ic_free p) \<subseteq> {..<IO_POOL_SIZE}"
    using inv by (simp add: ic_inv_def ic_free_def)
  show "borrowIOPdata p = Inr (None, p)" if "ic_free p = []"
    using fqueue.pop_none [OF q] that by (simp add: borrowIOPdata_def returns_def ic_free_def)
  show "\<exists>p'. borrowIOPdata p = Inr (Some i, p') \<and> ic_inv p' \<and> ic_free p' = is" if f: "ic_free p = i # is"
  proof -
    obtain q' where "pop_fq (ic_freeIndices p) = Some (Some i, q')" "fq_inv q'" "fq_elems q' = is"
      "fq_cap q' = fq_cap (ic_freeIndices p)"
      using fqueue.pop_some [OF q, of i "is"] f unfolding ic_free_def by blast
    moreover have "i < IO_POOL_SIZE" "distinct is" "set is \<subseteq> {..<IO_POOL_SIZE}"
      using inv f by (simp_all add: ic_inv_def ic_free_def)
    ultimately show ?thesis
      using inv by (simp add: borrowIOPdata_def returns_def ic_inv_def ic_free_def Let_def)
  qed
  show "\<exists>p'. returnIOPdata (Some i) p = Inr p' \<and> ic_inv p' \<and> ic_free p' = ic_free p @ [i]"
    if i: "i < IO_POOL_SIZE" "i \<notin> set (ic_free p)"
  proof -
    have "length (fq_elems (ic_freeIndices p)) < fq_cap (ic_freeIndices p)"
      using inv distinct_bounded_length [of "fq_elems (ic_freeIndices p)" IO_POOL_SIZE]
      by (simp add: ic_inv_def)
    then obtain q' where "push_fq i (ic_freeIndices p) = Some q'" "fq_inv q'"
      "fq_elems q' = fq_elems (ic_freeIndices p) @ [i]" "fq_cap q' = fq_cap (ic_freeIndices p)"
      using fqueue.push_room [OF q, of i] by blast
    then show ?thesis
      using inv i by (auto simp: returnIOPdata_def returns_def ic_inv_def ic_free_def nth_list_update)
  qed
qed

lemma push_all_ok:
  "fq_inv q \<Longrightarrow> length (fq_elems q) + length is \<le> fq_cap q \<Longrightarrow>
    \<exists>q'. push_all is q = Inr q' \<and> fq_inv q' \<and> fq_elems q' = fq_elems q @ is \<and> fq_cap q' = fq_cap q"
proof (induction "is" arbitrary: q)
  case (Cons i "is")
  then obtain q1 where q1: "push_fq i q = Some q1" "fq_inv q1" "fq_elems q1 = fq_elems q @ [i]" "fq_cap q1 = fq_cap q"
    using fqueue.push_room [of q i] by auto
  then have "length (fq_elems q1) + length is \<le> fq_cap q1"
    using Cons.prems(2) arg_cong [OF q1(3), of length] by simp
  with Cons.IH [OF q1(2)] q1 show ?case by (auto simp: returns_def)
qed simp

lemma new_IOContextPool_inv:
  "\<exists>p. new_IOContextPool = Inr p \<and> ic_inv p \<and> ic_free p = [0..<IO_POOL_SIZE]"
proof -
  have r: "round_up_to_power_of_two (of_nat IO_POOL_SIZE) = 2 ^ 15"
    by (simp add: round_up_to_power_of_two_def IO_POOL_SIZE_def smear_def)
  let ?q = "new_fqueue (of_nat IO_POOL_SIZE) :: nat Fqueue"
  have q: "fq_inv ?q" "fq_elems ?q = []" "fq_cap ?q = 32768"
    using new_fqueue_inv [OF r, where 'a = nat] by simp_all
  then have "length (fq_elems ?q) + length [0..<IO_POOL_SIZE] \<le> fq_cap ?q"
    by (simp add: IO_POOL_SIZE_def)
  then obtain q' where "push_all [0..<IO_POOL_SIZE] ?q = Inr q'" "fq_inv q'" "fq_elems q' = [0..<IO_POOL_SIZE]"
    "fq_cap q' = 32768"
    using push_all_ok [OF q(1), of "[0..<IO_POOL_SIZE]"] q by auto
  then show ?thesis
    by (auto simp: new_IOContextPool_def ic_inv_def ic_free_def zero_io_def IO_POOL_SIZE_def)
qed

section \<open>Properties\<close>



text \<open>
  Once a session has been updated to its permanent id, recycling it does not undo that:
  \<open>returnSession\<close> clears the id, the socket and the authentication state, but not \<open>updated\<close>, so the
  next connection that borrows the session finds \<open>updated\<close> already set.
\<close>

theorem recycled_session_stays_updated:
  assumes "sp_inv p" "i < SESSION_POOL_SIZE" "sp_freeIndices p = []" "se_updated (sp_pool p ! i)"
  shows "\<exists>p1 p2. returnSession (Some i) p = Inr p1 \<and> borrowSession s p1 = Inr (Some i, p2) \<and>
    se_updated (sp_pool p2 ! i) \<and> se_userId (sp_pool p2 ! i) = [] \<and>
    se_auth_state (sp_pool p2 ! i) = 0 \<and> se_socket (sp_pool p2 ! i) = s"
proof -
  have "se_id (sp_pool p ! i) = i" "length (sp_pool p) = SESSION_POOL_SIZE"
    using assms by (simp_all add: sp_inv_def)
  then show ?thesis
    using assms by (simp add: returnSession_def borrowSession_def reset_session_def setSocket_def)
qed

theorem recycled_session_stays_updated_witness:
  "\<exists>p1 p2. returnSession (Some 3) (new_SessionPool\<lparr>sp_freeIndices := [],
       sp_pool := map (\<lambda>i. new_Session\<lparr>se_id := i, se_updated := True\<rparr>) [0..<10000]\<rparr>) = Inr p1 \<and>
     borrowSession 80 p1 = Inr (Some 3, p2) \<and> se_updated (sp_pool p2 ! 3)"
  using recycled_session_stays_updated [of "new_SessionPool\<lparr>sp_freeIndices := [],
       sp_pool := map (\<lambda>i. new_Session\<lparr>se_id := i, se_updated := True\<rparr>) [0..<10000]\<rparr>" 3 80]
  by (auto simp: sp_inv_def SESSION_POOL_SIZE_def)

text \<open>
  The pool of I/O contexts starts with all 20000 contexts in its lock-free queue, and as long as
  contexts are given back by their holders no context is lost, duplicated or dropped by the bounded
  queue: the contexts held and the contexts queued are together always the 20000 contexts, each once.
\<close>

theorem io_pool_conserves_contexts:
  assumes "new_IOContextPool = Inr p0"
    and "pool_run borrowIOPdata (\<lambda>i. returnIOPdata (Some i)) p0 held p"
  shows "held \<inter> set (ic_free p) = {} \<and> held \<union> set (ic_free p) = {..<20000} \<and>
    distinct (ic_free p) \<and> card held + length (ic_free p) = 20000"
proof -
  obtain p1 where "new_IOContextPool = Inr p1" "ic_inv p1" "ic_free p1 = [0..<IO_POOL_SIZE]"
    using new_IOContextPool_inv by blast
  moreover from calculation(1) assms(1) have "p1 = p0" by (metis sum.inject(2))
  ultimately have p0: "ic_inv p0" "set (ic_free p0) = {..<IO_POOL_SIZE}"
    by (simp_all add: atLeast0LessThan)
  note R = io_pool.run_partition [OF assms(2) p0]
  show ?thesis
    using R(2,3) io_pool.free_ok [OF R(1)] io_pool.run_count [OF assms(2) p0]
    by (simp add: IO_POOL_SIZE_def)
qed

theorem io_pool_conserves_contexts_witness:
  "\<exists>p0. new_IOContextPool = Inr p0 \<and> length (ic_free p0) = 20000"
proof -
  obtain p0 where p0: "new_IOContextPool = Inr p0" using new_IOContextPool_inv by blast
  have "length (ic_free p0) = 20000"
    using io_pool_conserves_contexts [OF p0 pool_run.start] by simp
  then show ?thesis using p0 by blast
qed

end
