(* ===== verification/Group_Manager.thy ===== *)
theory Group_Manager
  imports Prelude
begin

text \<open>
  \<open>chat/Group.cpp\<close> and \<open>chat/GroupManager.cpp\<close>: groups and their members. The specification is the
  set of pairs of a group and a member; a group exists exactly as long as it has members.
\<close>

section \<open>The classes\<close>

record Group =
  group_id :: string
  admin_id :: string
  members :: "string list"

definition isMember :: "string \<Rightarrow> Group \<Rightarrow> bool" where
  "isMember u g \<longleftrightarrow> u \<in> set (members g)"

definition addMember :: "string \<Rightarrow> Group \<Rightarrow> Group" where
  "addMember u g = (if \<not> isMember u g then g\<lparr>members := members g @ [u]\<rparr> else g)"

text \<open>\<open>erase\<close> at the first occurrence.\<close>

definition removeMember :: "string \<Rightarrow> Group \<Rightarrow> Group" where
  "removeMember u g = g\<lparr>members := remove1 u (members g)\<rparr>"

type_synonym GroupManager = "string \<rightharpoonup> Group"

definition createGroup :: "string \<Rightarrow> string \<Rightarrow> GroupManager \<Rightarrow> bool \<times> GroupManager" where
  "createGroup groupId adminId gm =
     (case gm groupId of
        Some _ \<Rightarrow> (False, gm)
      | None \<Rightarrow> (True, gm(groupId \<mapsto> addMember adminId \<lparr>group_id = groupId, admin_id = adminId, members = []\<rparr>)))"

definition joinGroup :: "string \<Rightarrow> string \<Rightarrow> GroupManager \<Rightarrow> bool \<times> GroupManager" where
  "joinGroup groupId userId gm =
     (case gm groupId of
        None \<Rightarrow> (False, gm)
      | Some g \<Rightarrow> if isMember userId g then (False, gm) else (True, gm(groupId \<mapsto> addMember userId g)))"

definition leaveGroup :: "string \<Rightarrow> string \<Rightarrow> GroupManager \<Rightarrow> bool \<times> GroupManager" where
  "leaveGroup groupId userId gm =
     (case gm groupId of
        None \<Rightarrow> (False, gm)
      | Some g \<Rightarrow>
          if \<not> isMember userId g then (False, gm)
          else let g' = removeMember userId g
               in (True, if members g' = [] then gm(groupId := None) else gm(groupId \<mapsto> g')))"

definition getGroup :: "string \<Rightarrow> GroupManager \<Rightarrow> Group option" where
  "getGroup groupId gm = gm groupId"

section \<open>Specification\<close>

definition group_ok :: "string \<Rightarrow> Group \<Rightarrow> bool" where
  "group_ok k g \<longleftrightarrow> group_id g = k \<and> members g \<noteq> [] \<and> distinct (members g)"

definition groups_ok :: "GroupManager \<Rightarrow> bool" where
  "groups_ok gm \<longleftrightarrow> (\<forall>k g. gm k = Some g \<longrightarrow> group_ok k g)"

definition membership :: "GroupManager \<Rightarrow> (string \<times> string) set" where
  "membership gm = {(k, u). \<exists>g. gm k = Some g \<and> u \<in> set (members g)}"

definition spec_create :: "string \<Rightarrow> string \<Rightarrow> (string \<times> string) set \<Rightarrow> bool \<times> (string \<times> string) set" where
  "spec_create k u r = (if k \<in> fst ` r then (False, r) else (True, insert (k, u) r))"

definition spec_join :: "string \<Rightarrow> string \<Rightarrow> (string \<times> string) set \<Rightarrow> bool \<times> (string \<times> string) set" where
  "spec_join k u r = (if k \<in> fst ` r \<and> (k, u) \<notin> r then (True, insert (k, u) r) else (False, r))"

definition spec_leave :: "string \<Rightarrow> string \<Rightarrow> (string \<times> string) set \<Rightarrow> bool \<times> (string \<times> string) set" where
  "spec_leave k u r = (if (k, u) \<in> r then (True, r - {(k, u)}) else (False, r))"

lemma groups_okD: "groups_ok gm \<Longrightarrow> gm k = Some g \<Longrightarrow> group_id g = k \<and> members g \<noteq> [] \<and> distinct (members g)"
  by (simp add: groups_ok_def group_ok_def)

lemma membership_iff: "(k, u) \<in> membership gm \<longleftrightarrow> (\<exists>g. gm k = Some g \<and> u \<in> set (members g))"
  by (simp add: membership_def)

lemma exists_iff:
  assumes "groups_ok gm"
  shows "k \<in> fst ` membership gm \<longleftrightarrow> gm k \<noteq> None"
proof
  assume "gm k \<noteq> None"
  then obtain g where g: "gm k = Some g" by blast
  then have "(k, hd (members g)) \<in> membership gm"
    using groups_okD [OF assms g] by (auto simp: membership_iff)
  then show "k \<in> fst ` membership gm" by force
qed (auto simp: membership_iff)

lemma membership_upd:
  "membership (gm(k \<mapsto> g)) = {(j, u) \<in> membership gm. j \<noteq> k} \<union> {k} \<times> set (members g)"
  by (auto simp: membership_def split: if_splits)

lemma membership_del: "membership (gm(k := None)) = {(j, u) \<in> membership gm. j \<noteq> k}"
  by (auto simp: membership_def split: if_splits)

lemma membership_split:
  "gm k = Some g \<Longrightarrow> membership gm = {(j, u) \<in> membership gm. j \<noteq> k} \<union> {k} \<times> set (members g)"
  by (auto simp: membership_def)

lemma groups_ok_upd: "groups_ok gm \<Longrightarrow> group_ok k g \<Longrightarrow> groups_ok (gm(k \<mapsto> g))"
  by (simp add: groups_ok_def)

lemma groups_ok_del: "groups_ok gm \<Longrightarrow> groups_ok (gm(k := None))"
  by (simp add: groups_ok_def)

section \<open>The operations meet the specification\<close>

lemma createGroup_refines:
  assumes "groups_ok gm"
  shows "map_prod id membership (createGroup k u gm) = spec_create k u (membership gm)"
    and "groups_ok (snd (createGroup k u gm))"
proof -
  show "map_prod id membership (createGroup k u gm) = spec_create k u (membership gm)"
  proof (cases "gm k")
    case None
    then have "{(j, v) \<in> membership gm. j \<noteq> k} = membership gm" by (auto simp: membership_iff)
    with None show ?thesis
      using exists_iff [OF assms, of k]
      by (simp add: createGroup_def spec_create_def addMember_def isMember_def membership_upd)
  next
    case (Some g)
    then show ?thesis using exists_iff [OF assms, of k] by (simp add: createGroup_def spec_create_def)
  qed
  show "groups_ok (snd (createGroup k u gm))"
    using assms by (auto simp: createGroup_def addMember_def isMember_def group_ok_def
        split: option.splits intro!: groups_ok_upd)
qed

lemma joinGroup_refines:
  assumes "groups_ok gm"
  shows "map_prod id membership (joinGroup k u gm) = spec_join k u (membership gm)"
    and "groups_ok (snd (joinGroup k u gm))"
proof -
  show "map_prod id membership (joinGroup k u gm) = spec_join k u (membership gm)"
  proof (cases "gm k")
    case None
    then show ?thesis using exists_iff [OF assms, of k] by (simp add: joinGroup_def spec_join_def)
  next
    case (Some g)
    show ?thesis
    proof (cases "u \<in> set (members g)")
      case True
      with Some have "(k, u) \<in> membership gm" by (auto simp: membership_iff)
      with True Some show ?thesis by (simp add: joinGroup_def spec_join_def isMember_def)
    next
      case False
      with Some have "(k, u) \<notin> membership gm" by (simp add: membership_iff)
      moreover have "membership (gm(k \<mapsto> addMember u g)) = insert (k, u) (membership gm)"
        using False Some by (auto simp: membership_def addMember_def isMember_def split: if_splits)
      ultimately show ?thesis
        using False Some exists_iff [OF assms, of k]
        by (simp add: joinGroup_def spec_join_def isMember_def)
    qed
  qed
  show "groups_ok (snd (joinGroup k u gm))"
    using assms groups_okD [OF assms, of k]
    by (auto simp: joinGroup_def addMember_def isMember_def group_ok_def
        split: option.splits intro!: groups_ok_upd)
qed

lemma leaveGroup_refines:
  assumes "groups_ok gm"
  shows "map_prod id membership (leaveGroup k u gm) = spec_leave k u (membership gm)"
    and "groups_ok (snd (leaveGroup k u gm))"
proof -
  have "map_prod id membership (leaveGroup k u gm) = spec_leave k u (membership gm) \<and>
      groups_ok (snd (leaveGroup k u gm))"
  proof (cases "gm k")
    case None
    then show ?thesis using assms by (simp add: leaveGroup_def spec_leave_def membership_iff)
  next
    case (Some g)
    note ok = groups_okD [OF assms Some]
    show ?thesis
    proof (cases "u \<in> set (members g)")
      case False
      with Some assms show ?thesis
        by (simp add: leaveGroup_def spec_leave_def membership_iff isMember_def)
    next
      case True
      let ?g = "removeMember u g"
      have m: "set (members ?g) = set (members g) - {u}" "group_id ?g = k" "distinct (members ?g)"
        using ok by (simp_all add: removeMember_def)
      have r: "membership gm - {(k, u)} = {(j, v) \<in> membership gm. j \<noteq> k} \<union> {k} \<times> set (members ?g)"
        using m(1) by (subst membership_split [of gm k g, OF Some]) auto
      have "membership (if members ?g = [] then gm(k := None) else gm(k \<mapsto> ?g)) = membership gm - {(k, u)}"
        by (simp add: r membership_upd membership_del)
      moreover have "groups_ok (if members ?g = [] then gm(k := None) else gm(k \<mapsto> ?g))"
        using assms m by (simp add: groups_ok_upd groups_ok_del group_ok_def)
      moreover have "(k, u) \<in> membership gm" using True Some by (simp add: membership_iff)
      ultimately show ?thesis using True Some by (simp add: leaveGroup_def spec_leave_def isMember_def Let_def)
    qed
  qed
  then show "map_prod id membership (leaveGroup k u gm) = spec_leave k u (membership gm)"
    and "groups_ok (snd (leaveGroup k u gm))" by blast+
qed

text \<open>
  C18. The group manager implements the membership relation: creating, joining and leaving a group
  return and change the relation as the specification says, a group exists exactly as long as it has
  a member, no member is listed twice, and every operation keeps it so.
\<close>

theorem group_manager_refines_membership:
  assumes "groups_ok gm"
  shows "map_prod id membership (createGroup k u gm) = spec_create k u (membership gm) \<and>
    map_prod id membership (joinGroup k u gm) = spec_join k u (membership gm) \<and>
    map_prod id membership (leaveGroup k u gm) = spec_leave k u (membership gm) \<and>
    groups_ok (snd (createGroup k u gm)) \<and> groups_ok (snd (joinGroup k u gm)) \<and>
    groups_ok (snd (leaveGroup k u gm)) \<and> (getGroup k gm = None \<longleftrightarrow> k \<notin> fst ` membership gm)"
  using createGroup_refines [OF assms] joinGroup_refines [OF assms] leaveGroup_refines [OF assms]
    exists_iff [OF assms] by (simp add: getGroup_def)

theorem group_manager_refines_membership_witness:
  "membership (snd (leaveGroup ''g'' ''a'' (snd (createGroup ''g'' ''a'' Map.empty)))) = {}"
proof -
  have "groups_ok Map.empty" by (simp add: groups_ok_def)
  from group_manager_refines_membership [OF this, of "''g''" "''a''"]
  have 1: "groups_ok (snd (createGroup ''g'' ''a'' Map.empty))"
    and "map_prod id membership (createGroup ''g'' ''a'' Map.empty) = spec_create ''g'' ''a'' (membership Map.empty)"
    by blast+
  then have 2: "membership (snd (createGroup ''g'' ''a'' Map.empty)) = {(''g'', ''a'')}"
    by (simp add: spec_create_def membership_def prod_eq_iff)
  from group_manager_refines_membership [OF 1, of "''g''" "''a''"]
  show ?thesis by (simp add: 2 spec_leave_def prod_eq_iff)
qed

end
