(* ===== verification/Network.thy ===== *)
theory Network
  imports Pools Circular_Buffer
begin

text \<open>
  The part of \<open>network/IOCPManager.cpp\<close> that the other components call: posting sends and receives
  and taking a connection down. The operating system is the parameter \<open>wsa\<close>: \<open>wsa n\<close> says whether
  the \<open>n\<close>-th overlapped call succeeds or is pending (\<open>True\<close>) or fails at once. What was posted and
  which sockets were closed is recorded in the state.
\<close>

record ConnectionBuffer =
  cn_buffer :: CircularBuffer
  cn_disconnected :: bool

definition new_ConnectionBuffer :: ConnectionBuffer where
  "new_ConnectionBuffer = \<lparr>cn_buffer = new_buffer (replicate 16384 0), cn_disconnected = False\<rparr>"

text \<open>A send that the system has accepted: socket, I/O context, bytes.\<close>

record posted_send =
  ps_socket :: SOCKET
  ps_context :: nat
  ps_bytes :: bytes

record net_state =
  n_packets :: PacketPool
  n_io :: IOContextPool
  n_spool :: SessionPool
  n_calls :: nat
  n_posted :: "posted_send list"
  n_recvs :: "(SOCKET \<times> nat) list"
  n_disconnectedSockets :: "SOCKET set"
  n_socketBuffers :: "SOCKET \<rightharpoonup> ConnectionBuffer"
  n_closed :: "SOCKET list"

definition packet_at :: "nat \<Rightarrow> 'z net_state_scheme \<Rightarrow> Packet" where
  "packet_at a st = pp_pool (n_packets st) ! a"

definition set_packet :: "nat \<Rightarrow> Packet \<Rightarrow> 'z net_state_scheme \<Rightarrow> 'z net_state_scheme" where
  "set_packet a p st =
     st\<lparr>n_packets := (n_packets st)\<lparr>pp_pool := (pp_pool (n_packets st))[a := p]\<rparr>\<rparr>"

definition set_io :: "nat \<Rightarrow> PER_IO_OPERATION_DATA \<Rightarrow> 'z net_state_scheme \<Rightarrow> 'z net_state_scheme" where
  "set_io k d st = st\<lparr>n_io := (n_io st)\<lparr>ic_pool := (ic_pool (n_io st))[k := d]\<rparr>\<rparr>"

definition session_at :: "nat \<Rightarrow> 'z net_state_scheme \<Rightarrow> Session" where
  "session_at i st = sp_pool (n_spool st) ! i"

definition set_session :: "nat \<Rightarrow> Session \<Rightarrow> 'z net_state_scheme \<Rightarrow> 'z net_state_scheme" where
  "set_session i se st =
     st\<lparr>n_spool := (n_spool st)\<lparr>sp_pool := (sp_pool (n_spool st))[i := se]\<rparr>\<rparr>"

text \<open>The pools' operations on the state.\<close>

definition borrow_packet :: "'z net_state_scheme \<Rightarrow> (nat option \<times> 'z net_state_scheme) res" where
  "borrow_packet st = bind_res (borrowPacket (n_packets st)) (\<lambda>(r, p). Inr (r, st\<lparr>n_packets := p\<rparr>))"

definition return_packet :: "nat \<Rightarrow> 'z net_state_scheme \<Rightarrow> 'z net_state_scheme" where
  "return_packet a st = st\<lparr>n_packets := returnPacket (Some a) (n_packets st)\<rparr>"

definition borrow_io :: "'z net_state_scheme \<Rightarrow> (nat option \<times> 'z net_state_scheme) res" where
  "borrow_io st = bind_res (borrowIOPdata (n_io st)) (\<lambda>(r, p). Inr (r, st\<lparr>n_io := p\<rparr>))"

definition return_io :: "nat \<Rightarrow> 'z net_state_scheme \<Rightarrow> 'z net_state_scheme res" where
  "return_io k st = bind_res (returnIOPdata (Some k) (n_io st)) (\<lambda>p. Inr (st\<lparr>n_io := p\<rparr>))"

section \<open>Posting\<close>

text \<open>
  \<open>toCopy\<close> is the payload length read from the packet: in
  \<open>uint32_t toCopy = ntohl(*(uint32_t*)(p->data + 4)); + HEADER_SIZE;\<close> the addition is a statement
  of its own and has no effect.
\<close>

definition toCopy :: "Packet \<Rightarrow> u32" where
  "toCopy p = rd32 (drop 4 (data p))"

definition initiateSend ::
  "(nat \<Rightarrow> bool) \<Rightarrow> SOCKET \<Rightarrow> nat \<Rightarrow> 'z net_state_scheme \<Rightarrow> (bool \<times> 'z net_state_scheme) res" where
  "initiateSend wsa s a st =
     bind_res (borrow_io st) (\<lambda>(r, st1).
       case r of None \<Rightarrow> Inl NullDeref
       | Some k \<Rightarrow>
           let p = (packet_at a st1)\<lparr>isSending := True, isSent := False, isSentFail := False\<rparr>;
               n = toCopy p;
               st2 = set_packet a p (set_io k ((zero_io (io_id (ic_pool (n_io st1) ! k)))
                 \<lparr>io_offset := 0, io_len := unat n, io_operationType := 0, io_packet := Some a,
                  io_totalToSend := sint n, io_bytesSent := 0\<rparr>) st1)
           in bind_res (read_bytes 0 (unat n) (data p)) (\<lambda>bs.
                let st3 = st2\<lparr>n_calls := Suc (n_calls st2)\<rparr> in
                if wsa (n_calls st2)
                then Inr (True, st3\<lparr>n_posted := n_posted st3 @ [\<lparr>ps_socket = s, ps_context = k, ps_bytes = bs\<rparr>]\<rparr>)
                else bind_res (return_io k (set_packet a (p\<lparr>isSending := False, isSentFail := True\<rparr>) st3))
                       (\<lambda>st4. Inr (False, st4))))"

definition postRecv ::
  "(nat \<Rightarrow> bool) \<Rightarrow> SOCKET \<Rightarrow> 'z net_state_scheme \<Rightarrow> (bool \<times> 'z net_state_scheme) res" where
  "postRecv wsa s st =
     bind_res (borrow_io st) (\<lambda>(r, st1).
       case r of None \<Rightarrow> Inl NullDeref
       | Some k \<Rightarrow>
           let st2 = set_io k ((zero_io (io_id (ic_pool (n_io st1) ! k)))\<lparr>io_operationType := 2\<rparr>) st1;
               st3 = st2\<lparr>n_calls := Suc (n_calls st2)\<rparr>
           in if wsa (n_calls st2) then Inr (True, st3\<lparr>n_recvs := n_recvs st3 @ [(s, k)]\<rparr>)
              else bind_res (return_io k st3) (\<lambda>st4. Inr (False, st4)))"

definition sendPacket ::
  "(nat \<Rightarrow> bool) \<Rightarrow> nat \<Rightarrow> nat \<Rightarrow> SOCKET \<Rightarrow> 'z net_state_scheme \<Rightarrow> (bool \<times> 'z net_state_scheme) res" where
  "sendPacket wsa i a sock st =
     (if se_iocp (session_at i st) then initiateSend wsa sock a st else Inr (True, st))"

section \<open>Taking a connection down\<close>

definition HandleDisconnectWithoutLock :: "SOCKET \<Rightarrow> 'z net_state_scheme \<Rightarrow> 'z net_state_scheme" where
  "HandleDisconnectWithoutLock s st =
     (if s \<in> n_disconnectedSockets st then st
      else st\<lparr>n_disconnectedSockets := insert s (n_disconnectedSockets st),
              n_socketBuffers := (n_socketBuffers st)(s := None), n_closed := n_closed st @ [s]\<rparr>)"

lemma HandleDisconnectWithoutLock_idem [simp]:
  "HandleDisconnectWithoutLock s (HandleDisconnectWithoutLock s st) = HandleDisconnectWithoutLock s st"
  by (simp add: HandleDisconnectWithoutLock_def)

lemma HandleDisconnectWithoutLock_fields [simp]:
  "n_spool (HandleDisconnectWithoutLock s st) = n_spool st"
  "n_packets (HandleDisconnectWithoutLock s st) = n_packets st"
  "n_io (HandleDisconnectWithoutLock s st) = n_io st"
  "n_posted (HandleDisconnectWithoutLock s st) = n_posted st"
  by (simp_all add: HandleDisconnectWithoutLock_def)

section \<open>What is posted\<close>

definition net_inv :: "'z net_state_scheme \<Rightarrow> bool" where
  "net_inv st \<longleftrightarrow> pp_inv (n_packets st) \<and> ic_inv (n_io st) \<and> sp_inv (n_spool st)"

text \<open>The packets a handler may pass on hold a frame.\<close>

lemma holds_frame_toCopy:
  "holds_frame type payload p \<Longrightarrow> unat (toCopy p) = length payload"
  using holds_frame_length by (simp add: toCopy_def)

lemma pp_inv_set_packet:
  assumes "pp_inv q" "length (data p) = DATA_SIZE" "pkt_id p = pkt_id (pp_pool q ! a)"
  shows "pp_inv (q\<lparr>pp_pool := (pp_pool q)[a := p]\<rparr>)"
proof (rule pp_invI)
  note D = pp_invD [OF assms(1)]
  fix j
  show "length (data (pp_pool (q\<lparr>pp_pool := (pp_pool q)[a := p]\<rparr>) ! j)) = DATA_SIZE" if "j < PACKET_POOL_SIZE"
    using that D(1,5) assms(2) by (cases "j = a") simp_all
  show "pkt_id (pp_pool (q\<lparr>pp_pool := (pp_pool q)[a := p]\<rparr>) ! j) = j"
    if "j < PACKET_POOL_SIZE" "pp_inUse (q\<lparr>pp_pool := (pp_pool q)[a := p]\<rparr>) ! j \<noteq> 0"
    using that D(1,6) assms(3) by (cases "j = a") simp_all
qed (use pp_invD [OF assms(1)] in simp_all)

lemma ic_inv_set_io:
  assumes "ic_inv q" "k < IO_POOL_SIZE" "io_id d = k"
  shows "ic_inv (q\<lparr>ic_pool := (ic_pool q)[k := d]\<rparr>)" "ic_free (q\<lparr>ic_pool := (ic_pool q)[k := d]\<rparr>) = ic_free q"
  using assms by (auto simp: ic_inv_def ic_free_def nth_list_update)

lemma borrow_io_cases:
  assumes "ic_inv (n_io st)"
  obtains (none) "ic_free (n_io st) = []" "borrow_io st = Inr (None, st)"
    | (some) k ks q where "ic_free (n_io st) = k # ks" "borrow_io st = Inr (Some k, st\<lparr>n_io := q\<rparr>)"
      "ic_inv q" "ic_free q = ks" "k < IO_POOL_SIZE" "k \<notin> set ks" "io_id (ic_pool q ! k) = k"
  using assms
proof (cases rule: io_pool.borrow_cases)
  case empty
  then show thesis using none by (simp add: borrow_io_def)
next
  case (next_free k ks q)
  moreover have "k < IO_POOL_SIZE" "k \<notin> set ks" "io_id (ic_pool q ! k) = k"
    using io_pool.free_ok [OF assms] next_free by (auto simp: ic_inv_def)
  ultimately show thesis using some by (simp add: borrow_io_def)
qed

lemma return_io_ok:
  assumes "ic_inv (n_io st)" "k < IO_POOL_SIZE" "k \<notin> set (ic_free (n_io st))"
  shows "\<exists>q. return_io k st = Inr (st\<lparr>n_io := q\<rparr>) \<and> ic_inv q \<and> ic_free q = ic_free (n_io st) @ [k]"
  using io_pool.give_back_ok [OF assms] by (auto simp: return_io_def)

text \<open>
  A send leaves the sessions, the connections and every other packet alone; it fails only where the
  system refuses it, and then the I/O context is free again.
\<close>

definition same_connections :: "'z net_state_scheme \<Rightarrow> 'z net_state_scheme \<Rightarrow> bool" where
  "same_connections st st' \<longleftrightarrow>
     n_spool st' = n_spool st \<and> n_disconnectedSockets st' = n_disconnectedSockets st \<and>
     n_socketBuffers st' = n_socketBuffers st \<and> n_closed st' = n_closed st \<and>
     net_state.more st' = net_state.more st"

lemma initiateSend_spec:
  assumes inv: "net_inv st" and a: "a < PACKET_POOL_SIZE"
    and n: "unat (toCopy (packet_at a st)) \<le> DATA_SIZE" and free: "ic_free (n_io st) = k # ks"
  shows "\<exists>st'. initiateSend wsa s a st = Inr (wsa (n_calls st), st') \<and> net_inv st' \<and>
    same_connections st st' \<and> n_calls st' = Suc (n_calls st) \<and>
    pp_availableIdx (n_packets st') = pp_availableIdx (n_packets st) \<and>
    (\<forall>b. data (packet_at b st') = data (packet_at b st)) \<and>
    (if wsa (n_calls st)
     then n_posted st' = n_posted st @ [\<lparr>ps_socket = s, ps_context = k,
            ps_bytes = take (unat (toCopy (packet_at a st))) (data (packet_at a st))\<rparr>] \<and> ic_free (n_io st') = ks
     else n_posted st' = n_posted st \<and> ic_free (n_io st') = ks @ [k])"
proof -
  have pi: "pp_inv (n_packets st)" and ii: "ic_inv (n_io st)" and si: "sp_inv (n_spool st)"
    using inv by (simp_all add: net_inv_def)
  obtain q where q: "borrow_io st = Inr (Some k, st\<lparr>n_io := q\<rparr>)" "ic_inv q" "ic_free q = ks"
    "k < IO_POOL_SIZE" "k \<notin> set ks" "io_id (ic_pool q ! k) = k"
    using ii free by (cases rule: borrow_io_cases) auto
  let ?p = "(packet_at a st)\<lparr>isSending := True, isSent := False, isSentFail := False\<rparr>"
  let ?f = "?p\<lparr>isSending := False, isSentFail := True\<rparr>"
  let ?n = "toCopy (packet_at a st)"
  let ?d = "(zero_io k)\<lparr>io_offset := 0, io_len := unat ?n, io_operationType := 0, io_packet := Some a,
     io_totalToSend := sint ?n, io_bytesSent := 0\<rparr>"
  let ?io = "q\<lparr>ic_pool := (ic_pool q)[k := ?d]\<rparr>"
  let ?pk = "\<lambda>p. (n_packets st)\<lparr>pp_pool := (pp_pool (n_packets st))[a := p]\<rparr>"
  let ?st = "st\<lparr>n_io := ?io, n_packets := ?pk ?p, n_calls := Suc (n_calls st)\<rparr>"
  have len: "length (data (packet_at a st)) = DATA_SIZE" "a < length (pp_pool (n_packets st))"
    using pp_invD(1,5) [OF pi] a by (simp_all add: packet_at_def)
  have io: "ic_inv ?io" "ic_free ?io = ks"
    using ic_inv_set_io [OF q(2,4), of ?d] q(3) by (simp_all add: zero_io_def)
  have pk: "pp_inv (?pk ?p)" "pp_inv (?pk ?f)"
    using len by (auto intro!: pp_inv_set_packet [OF pi] simp: packet_at_def)
  have rd: "read_bytes 0 (unat ?n) (data (packet_at a st)) = Inr (take (unat ?n) (data (packet_at a st)))"
    using n len by (simp add: read_bytes_def segment_def)
  have e: "initiateSend wsa s a st =
      (if wsa (n_calls st)
       then Inr (True, ?st\<lparr>n_posted := n_posted st @ [\<lparr>ps_socket = s, ps_context = k,
              ps_bytes = take (unat ?n) (data (packet_at a st))\<rparr>]\<rparr>)
       else bind_res (return_io k (?st\<lparr>n_packets := ?pk ?f\<rparr>)) (\<lambda>st4. Inr (False, st4)))"
    unfolding initiateSend_def q(1)
    by (simp add: rd packet_at_def set_packet_def set_io_def toCopy_def q(6) [simplified] Let_def
        rd [unfolded packet_at_def toCopy_def])
  obtain q2 where q2: "return_io k (?st\<lparr>n_packets := ?pk ?f\<rparr>) = Inr (?st\<lparr>n_packets := ?pk ?f, n_io := q2\<rparr>)"
    "ic_inv q2" "ic_free q2 = ks @ [k]"
    using return_io_ok [of "?st\<lparr>n_packets := ?pk ?f\<rparr>" k] io q(4,5) by auto
  show ?thesis
  proof (cases "wsa (n_calls st)")
    case True
    then show ?thesis
      using e io pk(1) si len by (simp add: net_inv_def same_connections_def packet_at_def nth_list_update)
  next
    case False
    then show ?thesis
      using e q2 pk(2) si len by (simp add: net_inv_def same_connections_def packet_at_def nth_list_update)
  qed
qed

text \<open>Packets are taken, filled and given back without touching anything else.\<close>

lemma same_connections_refl [simp]: "same_connections st st"
  by (simp add: same_connections_def)

lemma same_connections_trans:
  "same_connections st1 st2 \<Longrightarrow> same_connections st2 st3 \<Longrightarrow> same_connections st1 st3"
  by (simp add: same_connections_def)

lemma borrow_packet_cases:
  assumes "net_inv st"
  obtains (none) "pp_availableIdx (n_packets st) = []" "borrow_packet st = Inr (None, st)"
    | (some) a as st1 where "pp_availableIdx (n_packets st) = a # as" "borrow_packet st = Inr (Some a, st1)"
        "net_inv st1" "pp_availableIdx (n_packets st1) = as" "a < PACKET_POOL_SIZE" "a \<notin> set as"
        "same_connections st st1" "n_io st1 = n_io st" "n_posted st1 = n_posted st" "n_calls st1 = n_calls st"
        "n_recvs st1 = n_recvs st" "\<And>b. data (packet_at b st1) = data (packet_at b st)"
proof (cases "pp_availableIdx (n_packets st)")
  case Nil
  then show thesis using none by (simp add: borrow_packet_def borrowPacket_def)
next
  case (Cons a as)
  have inv: "pp_inv (n_packets st)" using assms by (simp add: net_inv_def)
  note q = borrowPacket_next [OF inv Cons]
  obtain q where q': "borrowPacket (n_packets st) = Inr (Some a, q)" "pp_inv q" "pp_availableIdx q = as"
    using borrowPacket_inv [OF inv Cons] by blast
  have "a < PACKET_POOL_SIZE" "a \<notin> set as" using packet_pool.free_ok [OF inv] Cons by auto
  moreover from this(1) have "data (pp_pool q ! b) = data (pp_pool (n_packets st) ! b)" for b
    using q q'(1) pp_invD(1) [OF inv] by (auto simp: nth_list_update)
  moreover have "borrow_packet st = Inr (Some a, st\<lparr>n_packets := q\<rparr>)" using q'(1) by (simp add: borrow_packet_def)
  ultimately show thesis
    using some [of a as "st\<lparr>n_packets := q\<rparr>"] Cons q' assms
    by (simp add: net_inv_def same_connections_def packet_at_def)
qed

lemma return_packet_ok:
  assumes "net_inv st" "a < PACKET_POOL_SIZE" "a \<notin> set (pp_availableIdx (n_packets st))"
  shows "net_inv (return_packet a st)" "pp_availableIdx (n_packets (return_packet a st)) = pp_availableIdx (n_packets st) @ [a]"
  using returnPacket_inv [of "n_packets st" a] assms by (simp_all add: net_inv_def return_packet_def)

lemma return_packet_fields [simp]:
  "same_connections st (return_packet a st)" "n_io (return_packet a st) = n_io st"
  "n_posted (return_packet a st) = n_posted st" "n_calls (return_packet a st) = n_calls st"
  "n_recvs (return_packet a st) = n_recvs st" "n_spool (return_packet a st) = n_spool st"
  by (simp_all add: return_packet_def same_connections_def)

lemma set_packet_ok:
  assumes "net_inv st" "length (data p) = DATA_SIZE" "pkt_id p = pkt_id (packet_at a st)"
  shows "net_inv (set_packet a p st)"
  using assms pp_inv_set_packet [of "n_packets st" p a] by (simp add: net_inv_def set_packet_def packet_at_def)

lemma set_packet_fields [simp]:
  "same_connections st (set_packet a p st)" "n_io (set_packet a p st) = n_io st"
  "n_posted (set_packet a p st) = n_posted st" "n_calls (set_packet a p st) = n_calls st"
  "n_recvs (set_packet a p st) = n_recvs st" "n_spool (set_packet a p st) = n_spool st"
  "pp_availableIdx (n_packets (set_packet a p st)) = pp_availableIdx (n_packets st)"
  by (simp_all add: set_packet_def same_connections_def)

lemma packet_at_set_packet:
  assumes "net_inv st" "a < PACKET_POOL_SIZE"
  shows "packet_at a (set_packet a p st) = p" "b \<noteq> a \<Longrightarrow> packet_at b (set_packet a p st) = packet_at b st"
  using assms pp_invD(1) [of "n_packets st"] by (simp_all add: packet_at_def set_packet_def net_inv_def)

lemma session_at_set_packet [simp]: "session_at i (set_packet a p st) = session_at i st"
  by (simp add: session_at_def)

text \<open>A state in which the pools are as constructed and no connection exists.\<close>

definition fresh_net :: "IOContextPool \<Rightarrow> net_state" where
  "fresh_net io = \<lparr>n_packets = new_PacketPool, n_io = io, n_spool = new_SessionPool, n_calls = 0,
     n_posted = [], n_recvs = [], n_disconnectedSockets = {}, n_socketBuffers = Map.empty, n_closed = []\<rparr>"

lemma fresh_net_inv: "ic_inv io \<Longrightarrow> net_inv (fresh_net io)"
  by (simp add: net_inv_def fresh_net_def new_PacketPool_inv new_SessionPool_inv)

text \<open>
  Every packet is sent 16 bytes short: for a packet of any type and payload, \<open>initiateSend\<close> hands
  to the system only the first \<open>n\<close> of the \<open>n + 16\<close> bytes of the frame, \<open>n\<close> being the payload's length,
  because the header's size is added in a separate statement.
\<close>

theorem send_drops_last_16_bytes:
  assumes "net_inv st" "a < PACKET_POOL_SIZE" "holds_frame type payload (packet_at a st)"
    and "ic_free (n_io st) \<noteq> []" "wsa (n_calls st)"
  shows "\<exists>st' k. initiateSend wsa s a st = Inr (True, st') \<and>
    n_posted st' = n_posted st @ [\<lparr>ps_socket = s, ps_context = k, ps_bytes = take (length payload) (frame type payload)\<rparr>] \<and>
    length (frame type payload) = length payload + 16"
proof -
  obtain k ks where free: "ic_free (n_io st) = k # ks" using assms(4) by (auto simp: neq_Nil_conv)
  have n: "unat (toCopy (packet_at a st)) = length payload" using holds_frame_toCopy [OF assms(3)] .
  have le: "HEADER_SIZE + length payload \<le> DATA_SIZE"
    and d: "take (HEADER_SIZE + length payload) (data (packet_at a st)) = frame type payload"
    using assms(3) by (simp_all add: holds_frame_def)
  have "take (length payload) (data (packet_at a st)) = take (length payload) (frame type payload)"
    unfolding d [symmetric] by (simp add: min_def)
  moreover have "length (frame type payload) = length payload + 16" by (simp add: HEADER_SIZE_def)
  ultimately show ?thesis
    using initiateSend_spec [OF assms(1,2) _ free, of wsa s] n le assms(5) by auto
qed

theorem send_drops_last_16_bytes_witness:
  "\<exists>(st :: net_state) st' k. initiateSend (\<lambda>_. True) 80 0 st = Inr (True, st') \<and>
    n_posted st' = n_posted st @ [\<lparr>ps_socket = 80, ps_context = k, ps_bytes = take 3 (frame PKT_LOGOUT [1, 2, 3])\<rparr>]"
proof -
  obtain io where io: "ic_inv io" "ic_free io = [0..<IO_POOL_SIZE]" using new_IOContextPool_inv by blast
  let ?p = "snd (serializeRaw PKT_LOGOUT (bytes_str [1, 2, 3]) (new_packet zero_header (replicate 4096 0)))"
  let ?st = "set_packet 0 ?p (fresh_net io)"
  have e: "emits PKT_LOGOUT (str_bytes (bytes_str [1, 2, 3])) (new_packet zero_header (replicate 4096 0))
      (serializeRaw PKT_LOGOUT (bytes_str [1, 2, 3]) (new_packet zero_header (replicate 4096 0)))"
    by (rule serializeRaw_emits) (simp_all add: wf_packet_def new_packet_def DATA_SIZE_def)
  have "pp_inv (new_PacketPool\<lparr>pp_pool := (pp_pool new_PacketPool)[0 := ?p]\<rparr>)"
    using e by (intro pp_inv_set_packet [OF new_PacketPool_inv(1)])
      (simp_all add: emits_def holds_frame_def new_PacketPool_def new_packet_def PACKET_POOL_SIZE_def)
  then have "net_inv ?st"
    using fresh_net_inv [OF io(1)] by (simp add: net_inv_def set_packet_def fresh_net_def)
  moreover have "packet_at 0 ?st = ?p"
    by (simp add: packet_at_def set_packet_def fresh_net_def new_PacketPool_def PACKET_POOL_SIZE_def)
  moreover have "ic_free (n_io ?st) \<noteq> []"
    using io(2) by (simp add: set_packet_def fresh_net_def IO_POOL_SIZE_def)
  moreover have "holds_frame PKT_LOGOUT [1, 2, 3] ?p" using e by (simp add: emits_def)
  ultimately show ?thesis
    using send_drops_last_16_bytes [of ?st 0 PKT_LOGOUT "[1, 2, 3]" "\<lambda>_. True" 80]
    by (fastforce simp: PACKET_POOL_SIZE_def numeral_3_eq_3)
qed

text \<open>
  When all I/O contexts are in use, posting a send or a receive dereferences the null pointer
  that \<open>borrowIOPdata\<close> returns.
\<close>

theorem exhausted_io_pool_crashes:
  assumes "net_inv st" "ic_free (n_io st) = []"
  shows "initiateSend wsa s a st = Inl NullDeref \<and> postRecv wsa s st = Inl NullDeref"
proof -
  have "borrow_io st = Inr (None, st)"
    using io_pool.borrow_none [of "n_io st"] assms by (simp add: borrow_io_def net_inv_def)
  then show ?thesis by (simp add: initiateSend_def postRecv_def)
qed

theorem exhausted_io_pool_crashes_witness:
  "\<exists>st :: net_state. initiateSend (\<lambda>_. True) 80 0 st = Inl NullDeref"
proof -
  have r: "round_up_to_power_of_two (of_nat 20001) = 2 ^ 15"
    by (simp add: round_up_to_power_of_two_def smear_def)
  have "ic_inv \<lparr>ic_pool = map zero_io [0..<IO_POOL_SIZE], ic_freeIndices = new_fqueue (of_nat 20001),
      ic_currentPacketUse = 0, ic_peak = 0\<rparr>"
    using new_fqueue_inv [OF r, where 'a = nat] by (simp add: ic_inv_def zero_io_def IO_POOL_SIZE_def)
  moreover have "fq_elems (new_fqueue (of_nat 20001) :: nat Fqueue) = []"
    using new_fqueue_inv(2) [OF r, where 'a = nat] by simp
  ultimately show ?thesis
    using exhausted_io_pool_crashes [OF fresh_net_inv, of "\<lparr>ic_pool = map zero_io [0..<IO_POOL_SIZE],
      ic_freeIndices = new_fqueue (of_nat 20001), ic_currentPacketUse = 0, ic_peak = 0\<rparr>"]
    by (auto simp: fresh_net_def ic_free_def)
qed

end
