(* ===== verification/Auth_Store.thy ===== *)
theory Auth_Store
  imports Wire_Structs
begin

text \<open>
  The data of the authentication system: \<open>authentication/auth_types.h\<close> with the signed token payloads
  and their packed layout, and the two in-memory stores of \<open>authentication/auth_store.h\<close>, users and
  refresh-token families. Libsodium is the parameter \<open>S\<close>, a record of the functions the code calls;
  the predicates below say what its manual promises of them. The stores' reader-writer locks make every
  operation atomic.
\<close>

section \<open>Libsodium\<close>

text \<open>
  \<open>sd_auth m k\<close> is the tag of \<open>crypto_auth\<close> or \<open>None\<close> where it fails, \<open>sd_auth_verify t m k\<close> whether
  \<open>crypto_auth_verify\<close> returns 0. The randomised functions take the state of the generator as their
  first argument.
\<close>

record sodium =
  sd_bin2hex :: "bytes \<Rightarrow> string"
  sd_auth :: "bytes \<Rightarrow> bytes \<Rightarrow> bytes option"
  sd_auth_verify :: "bytes \<Rightarrow> bytes \<Rightarrow> bytes \<Rightarrow> bool"
  sd_pwhash_str :: "nat \<Rightarrow> string \<Rightarrow> bytes option"
  sd_pwhash_str_verify :: "bytes \<Rightarrow> string \<Rightarrow> bool"
  sd_randombytes_buf :: "nat \<Rightarrow> nat \<Rightarrow> bytes"

definition crypto_auth_BYTES :: nat where "crypto_auth_BYTES = 32"
definition crypto_pwhash_STRBYTES :: nat where "crypto_pwhash_STRBYTES = 128"

definition sodium_auth_ok :: "sodium \<Rightarrow> bool" where
  "sodium_auth_ok S \<longleftrightarrow> (\<forall>m k t. sd_auth S m k = Some t \<longrightarrow> length t = crypto_auth_BYTES \<and> sd_auth_verify S t m k)"

definition hex_digits :: string where "hex_digits = ''0123456789abcdef''"

definition sodium_hex_ok :: "sodium \<Rightarrow> bool" where
  "sodium_hex_ok S \<longleftrightarrow> (\<forall>a. length (sd_bin2hex S a) = 2 * length a \<and> set (sd_bin2hex S a) \<subseteq> set hex_digits) \<and>
     inj (sd_bin2hex S)"

definition sodium_pwhash_ok :: "sodium \<Rightarrow> bool" where
  "sodium_pwhash_ok S \<longleftrightarrow> (\<forall>r p h. sd_pwhash_str S r p = Some h \<longrightarrow>
     length h = crypto_pwhash_STRBYTES \<and> sd_pwhash_str_verify S h p)"

definition sodium_random_ok :: "sodium \<Rightarrow> bool" where
  "sodium_random_ok S \<longleftrightarrow> (\<forall>r n. length (sd_randombytes_buf S r n) = n)"

text \<open>A small implementation of these functions, which shows that the promises can be kept.\<close>

definition hex2 :: "byte \<Rightarrow> string" where
  "hex2 b = [hex_digits ! (unat b div 16), hex_digits ! (unat b mod 16)]"

definition example_sodium :: sodium where
  "example_sodium = \<lparr>sd_bin2hex = (\<lambda>bs. concat (map hex2 bs)),
     sd_auth = (\<lambda>m k. Some (replicate crypto_auth_BYTES (foldr (+) (k @ m) 0))),
     sd_auth_verify = (\<lambda>t m k. t = replicate crypto_auth_BYTES (foldr (+) (k @ m) 0)),
     sd_pwhash_str = (\<lambda>r p. Some (take crypto_pwhash_STRBYTES (str_bytes p @ replicate crypto_pwhash_STRBYTES 0))),
     sd_pwhash_str_verify = (\<lambda>h p. h = take crypto_pwhash_STRBYTES (str_bytes p @ replicate crypto_pwhash_STRBYTES 0)),
     sd_randombytes_buf = (\<lambda>r n. replicate n (of_nat r))\<rparr>"

lemma unat_byte_less: "unat (b :: byte) < 256"
  using unsigned_less [of b] by simp

lemma hex2_inj: "hex2 b = hex2 c \<Longrightarrow> b = c"
proof -
  assume a: "hex2 b = hex2 c"
  have d: "distinct hex_digits" "length hex_digits = 16" by (simp_all add: hex_digits_def)
  have "unat b div 16 < 16" "unat c div 16 < 16" using unat_byte_less [of b] unat_byte_less [of c] by simp_all
  then have "unat b div 16 = unat c div 16" "unat b mod 16 = unat c mod 16"
    using a d nth_eq_iff_index_eq [OF d(1)] unfolding hex2_def d(2) by auto
  then have "unat b = unat c" by (metis mult_div_mod_eq)
  then show "b = c" by (simp add: word_unat_eq_iff)
qed

lemma length_hex2 [simp]: "length (hex2 b) = 2" "hex2 b \<noteq> []"
  by (simp_all add: hex2_def)

lemma concat_hex2_inj: "concat (map hex2 xs) = concat (map hex2 ys) \<Longrightarrow> xs = ys"
proof (induction xs arbitrary: ys)
  case Nil
  then show ?case by (cases ys) simp_all
next
  case (Cons x xs)
  then obtain y zs where ys: "ys = y # zs" by (cases ys) simp_all
  have "hex2 x = hex2 y" "concat (map hex2 xs) = concat (map hex2 zs)"
    using Cons.prems by (simp_all add: ys)
  then show ?case using ys Cons.IH hex2_inj by simp
qed

lemma example_sodium_ok:
  "sodium_hex_ok example_sodium" "sodium_auth_ok example_sodium" "sodium_pwhash_ok example_sodium"
  "sodium_random_ok example_sodium"
proof -
  have "length hex_digits = 16" by (simp add: hex_digits_def)
  then have "set (hex2 b) \<subseteq> set hex_digits" for b
    using unat_byte_less [of b] by (simp add: hex2_def)
  moreover have "length (concat (map hex2 bs)) = 2 * length bs" for bs by (induction bs) simp_all
  ultimately show "sodium_hex_ok example_sodium"
    using concat_hex2_inj by (auto simp: sodium_hex_ok_def example_sodium_def inj_def)
  show "sodium_auth_ok example_sodium" "sodium_pwhash_ok example_sodium" "sodium_random_ok example_sodium"
    by (simp_all add: sodium_auth_ok_def sodium_pwhash_ok_def sodium_random_ok_def example_sodium_def min_def)
qed

section \<open>Types\<close>

datatype AuthResult = SUCCESS | INVALID_CREDENTIALS | EMAIL_NOT_VERIFIED | ACCOUNT_LOCKED | INTERNAL_ERROR

definition UNAUTHENTICATED :: int where "UNAUTHENTICATED = 0"
definition AUTHENTICATED :: int where "AUTHENTICATED = 1"
definition EXPIRED :: int where "EXPIRED = 2"

text \<open>The character arrays of a user record, with the terminating zero bytes.\<close>

record UserRecord =
  ur_user_id :: bytes
  ur_username :: bytes
  ur_password_hash :: bytes
  ur_email :: bytes
  ur_email_verified :: bool
  ur_phone_hash :: bytes
  ur_phone_discoverable :: bool

definition new_UserRecord :: UserRecord where
  "new_UserRecord = \<lparr>ur_user_id = replicate 16 0, ur_username = replicate 32 0,
     ur_password_hash = replicate crypto_pwhash_STRBYTES 0, ur_email = replicate 64 0,
     ur_email_verified = False, ur_phone_hash = replicate 32 0, ur_phone_discoverable = False\<rparr>"

text \<open>The string in a character array: \<open>strnlen\<close> bytes of it.\<close>

definition cstr :: "bytes \<Rightarrow> string" where
  "cstr bs = bytes_str (takeWhile (\<lambda>b. b \<noteq> 0) bs)"

text \<open>The packed token structs are copied as they lie in memory, so their integers are little-endian.\<close>

definition le64 :: "u64 \<Rightarrow> bytes" where "le64 w = rev (be64 w)"
definition rdle64 :: "bytes \<Rightarrow> u64" where "rdle64 bs = rd64 (rev (take 8 bs))"

lemma length_le64 [simp, wire_simps]: "length (le64 w) = 8"
  by (simp add: le64_def)

lemma rdle64_le64 [simp, wire_simps]: "rdle64 (le64 w @ r) = w" "rdle64 (le64 w) = w"
proof -
  have "rev (take 8 (le64 w @ r)) = be64 w @ []" by (simp add: le64_def)
  then show "rdle64 (le64 w @ r) = w" unfolding rdle64_def by (simp only: rd64_be64)
  have "rev (take 8 (le64 w)) = be64 w @ []" by (simp add: le64_def)
  then show "rdle64 (le64 w) = w" unfolding rdle64_def by (simp only: rd64_be64)
qed

record AccessTokenPayload =
  ap_user_id :: bytes
  ap_issued_at :: u64
  ap_expiry :: u64
  ap_key_id :: byte

definition sizeof_AccessTokenPayload :: nat where "sizeof_AccessTokenPayload = 33"

definition enc_AccessTokenPayload :: "AccessTokenPayload \<Rightarrow> bytes" where
  "enc_AccessTokenPayload p = ap_user_id p @ le64 (ap_issued_at p) @ le64 (ap_expiry p) @ [ap_key_id p]"

definition dec_AccessTokenPayload :: "bytes \<Rightarrow> AccessTokenPayload" where
  "dec_AccessTokenPayload bs =
     \<lparr>ap_user_id = take 16 bs, ap_issued_at = rdle64 (drop 16 bs), ap_expiry = rdle64 (drop 24 bs), ap_key_id = bs ! 32\<rparr>"

record RefreshTokenPayload =
  rp_user_id :: bytes
  rp_family_id :: u64
  rp_token_id :: u64
  rp_expiry :: u64
  rp_key_id :: byte

definition sizeof_RefreshTokenPayload :: nat where "sizeof_RefreshTokenPayload = 41"

definition enc_RefreshTokenPayload :: "RefreshTokenPayload \<Rightarrow> bytes" where
  "enc_RefreshTokenPayload p =
     rp_user_id p @ le64 (rp_family_id p) @ le64 (rp_token_id p) @ le64 (rp_expiry p) @ [rp_key_id p]"

definition dec_RefreshTokenPayload :: "bytes \<Rightarrow> RefreshTokenPayload" where
  "dec_RefreshTokenPayload bs =
     \<lparr>rp_user_id = take 16 bs, rp_family_id = rdle64 (drop 16 bs), rp_token_id = rdle64 (drop 24 bs),
      rp_expiry = rdle64 (drop 32 bs), rp_key_id = bs ! 40\<rparr>"

interpretation ap_struct: wire_struct enc_AccessTokenPayload dec_AccessTokenPayload sizeof_AccessTokenPayload
  "\<lambda>p. length (ap_user_id p) = 16"
  by unfold_locales
    (auto simp: enc_AccessTokenPayload_def dec_AccessTokenPayload_def sizeof_AccessTokenPayload_def nth_append)

interpretation rp_struct: wire_struct enc_RefreshTokenPayload dec_RefreshTokenPayload sizeof_RefreshTokenPayload
  "\<lambda>p. length (rp_user_id p) = 16"
  by unfold_locales
    (auto simp: enc_RefreshTokenPayload_def dec_RefreshTokenPayload_def sizeof_RefreshTokenPayload_def nth_append)

record AccessToken =
  at_payload :: AccessTokenPayload
  at_signature :: bytes

record RefreshToken =
  rt_payload :: RefreshTokenPayload
  rt_signature :: bytes

definition sizeof_AccessToken :: nat where
  "sizeof_AccessToken = sizeof_AccessTokenPayload + crypto_auth_BYTES"

definition sizeof_RefreshToken :: nat where
  "sizeof_RefreshToken = sizeof_RefreshTokenPayload + crypto_auth_BYTES"

definition enc_AccessToken :: "AccessToken \<Rightarrow> bytes" where
  "enc_AccessToken t = enc_AccessTokenPayload (at_payload t) @ at_signature t"

definition enc_RefreshToken :: "RefreshToken \<Rightarrow> bytes" where
  "enc_RefreshToken t = enc_RefreshTokenPayload (rt_payload t) @ rt_signature t"

record RefreshFamilyRecord =
  fr_family_id :: u64
  fr_user_id :: bytes
  fr_current_token_id :: u64
  fr_revoked :: bool

record LoginResult =
  lr_access_token :: AccessToken
  lr_refresh_token :: RefreshToken
  lr_valid :: bool

definition new_LoginResult :: LoginResult where
  "new_LoginResult =
     \<lparr>lr_access_token = \<lparr>at_payload = \<lparr>ap_user_id = replicate 16 0, ap_issued_at = 0, ap_expiry = 0, ap_key_id = 0\<rparr>,
        at_signature = replicate crypto_auth_BYTES 0\<rparr>,
      lr_refresh_token = \<lparr>rt_payload = \<lparr>rp_user_id = replicate 16 0, rp_family_id = 0, rp_token_id = 0,
        rp_expiry = 0, rp_key_id = 0\<rparr>, rt_signature = replicate crypto_auth_BYTES 0\<rparr>,
      lr_valid = False\<rparr>"

section \<open>The user store\<close>

record UserStore =
  us_records :: "string \<rightharpoonup> UserRecord"
  us_email_to_uid :: "string \<rightharpoonup> string"
  us_username_to_uid :: "string \<rightharpoonup> string"

definition empty_UserStore :: UserStore where
  "empty_UserStore = \<lparr>us_records = Map.empty, us_email_to_uid = Map.empty, us_username_to_uid = Map.empty\<rparr>"

definition ToHex :: "sodium \<Rightarrow> bytes \<Rightarrow> string" where
  "ToHex S bs = sd_bin2hex S bs"

definition Insert_user :: "sodium \<Rightarrow> UserRecord \<Rightarrow> UserStore \<Rightarrow> bool \<times> UserStore" where
  "Insert_user S r us =
     (let uid_hex = ToHex S (ur_user_id r); email_key = cstr (ur_email r); uname_key = cstr (ur_username r) in
      if us_email_to_uid us email_key \<noteq> None then (False, us)
      else if uname_key \<noteq> [] \<and> us_username_to_uid us uname_key \<noteq> None then (False, us)
      else (True, us\<lparr>us_records := (us_records us)(uid_hex \<mapsto> r),
              us_email_to_uid := (us_email_to_uid us)(email_key \<mapsto> uid_hex),
              us_username_to_uid := (if uname_key \<noteq> [] then (us_username_to_uid us)(uname_key \<mapsto> uid_hex)
                                     else us_username_to_uid us)\<rparr>))"

definition FindByEmail :: "string \<Rightarrow> UserStore \<Rightarrow> UserRecord option" where
  "FindByEmail email us =
     (case us_email_to_uid us email of None \<Rightarrow> None | Some uid_hex \<Rightarrow> us_records us uid_hex)"

definition FindByUsername :: "string \<Rightarrow> UserStore \<Rightarrow> UserRecord option" where
  "FindByUsername username us =
     (case us_username_to_uid us username of None \<Rightarrow> None | Some uid_hex \<Rightarrow> us_records us uid_hex)"

definition FindByUserId :: "sodium \<Rightarrow> bytes \<Rightarrow> UserStore \<Rightarrow> UserRecord option" where
  "FindByUserId S user_id us = us_records us (ToHex S user_id)"

definition SetEmailVerified :: "sodium \<Rightarrow> bytes \<Rightarrow> UserStore \<Rightarrow> bool \<times> UserStore" where
  "SetEmailVerified S user_id us =
     (let uid_hex = ToHex S user_id in
      case us_records us uid_hex of
        None \<Rightarrow> (False, us)
      | Some r \<Rightarrow> (True, us\<lparr>us_records := (us_records us)(uid_hex \<mapsto> r\<lparr>ur_email_verified := True\<rparr>)\<rparr>))"

section \<open>The store of refresh families\<close>

type_synonym RefreshFamilyStore = "u64 \<rightharpoonup> RefreshFamilyRecord"

definition Insert_family :: "RefreshFamilyRecord \<Rightarrow> RefreshFamilyStore \<Rightarrow> RefreshFamilyStore" where
  "Insert_family r fs = fs(fr_family_id r \<mapsto> r)"

definition Find_family :: "u64 \<Rightarrow> RefreshFamilyStore \<Rightarrow> RefreshFamilyRecord option" where
  "Find_family f fs = fs f"

definition AdvanceTokenId :: "u64 \<Rightarrow> u64 \<Rightarrow> RefreshFamilyStore \<Rightarrow> bool \<times> RefreshFamilyStore" where
  "AdvanceTokenId f presented fs =
     (case fs f of
        None \<Rightarrow> (False, fs)
      | Some fam \<Rightarrow>
          if fr_revoked fam then (False, fs)
          else if fr_current_token_id fam \<noteq> presented then (False, fs(f \<mapsto> fam\<lparr>fr_revoked := True\<rparr>))
          else (True, fs(f \<mapsto> fam\<lparr>fr_current_token_id := fr_current_token_id fam + 1\<rparr>)))"

definition Revoke_family :: "u64 \<Rightarrow> RefreshFamilyStore \<Rightarrow> RefreshFamilyStore" where
  "Revoke_family f fs = (case fs f of None \<Rightarrow> fs | Some fam \<Rightarrow> fs(f \<mapsto> fam\<lparr>fr_revoked := True\<rparr>))"

definition Remove_family :: "u64 \<Rightarrow> RefreshFamilyStore \<Rightarrow> RefreshFamilyStore" where
  "Remove_family f fs = fs(f := None)"

section \<open>The user store implements a set of users\<close>

definition users :: "UserStore \<Rightarrow> UserRecord set" where
  "users us = ran (us_records us)"

definition us_inv :: "sodium \<Rightarrow> UserStore \<Rightarrow> bool" where
  "us_inv S us \<longleftrightarrow>
     (\<forall>e h. us_email_to_uid us e = Some h \<longrightarrow> (\<exists>r. us_records us h = Some r \<and> cstr (ur_email r) = e)) \<and>
     (\<forall>n h. us_username_to_uid us n = Some h \<longrightarrow> n \<noteq> [] \<and> (\<exists>r. us_records us h = Some r \<and> cstr (ur_username r) = n)) \<and>
     (\<forall>h r. us_records us h = Some r \<longrightarrow> h = ToHex S (ur_user_id r) \<and> us_email_to_uid us (cstr (ur_email r)) = Some h \<and>
        (cstr (ur_username r) \<noteq> [] \<longrightarrow> us_username_to_uid us (cstr (ur_username r)) = Some h))"

lemma us_invI:
  assumes "\<And>e h. us_email_to_uid us e = Some h \<Longrightarrow> \<exists>r. us_records us h = Some r \<and> cstr (ur_email r) = e"
    and "\<And>n h. us_username_to_uid us n = Some h \<Longrightarrow> n \<noteq> [] \<and> (\<exists>r. us_records us h = Some r \<and> cstr (ur_username r) = n)"
    and "\<And>h r. us_records us h = Some r \<Longrightarrow> h = ToHex S (ur_user_id r) \<and> us_email_to_uid us (cstr (ur_email r)) = Some h \<and>
        (cstr (ur_username r) \<noteq> [] \<longrightarrow> us_username_to_uid us (cstr (ur_username r)) = Some h)"
  shows "us_inv S us"
  unfolding us_inv_def by (rule conjI [OF _ conjI]; intro allI impI; erule assms)

lemma us_invD:
  assumes "us_inv S us"
  shows "us_email_to_uid us e = Some h \<Longrightarrow> \<exists>r. us_records us h = Some r \<and> cstr (ur_email r) = e"
    and "us_username_to_uid us n = Some h \<Longrightarrow> n \<noteq> [] \<and> (\<exists>r. us_records us h = Some r \<and> cstr (ur_username r) = n)"
    and "us_records us h = Some r \<Longrightarrow> h = ToHex S (ur_user_id r) \<and> us_email_to_uid us (cstr (ur_email r)) = Some h \<and>
        (cstr (ur_username r) \<noteq> [] \<longrightarrow> us_username_to_uid us (cstr (ur_username r)) = Some h)"
  by (rule assms [unfolded us_inv_def, THEN conjunct1, rule_format]
      assms [unfolded us_inv_def, THEN conjunct2, THEN conjunct1, rule_format]
      assms [unfolded us_inv_def, THEN conjunct2, THEN conjunct2, rule_format], assumption)+

lemma empty_UserStore_inv: "us_inv S empty_UserStore" "users empty_UserStore = {}"
  by (simp_all add: us_inv_def empty_UserStore_def users_def)

lemma FindByEmail_iff:
  assumes "us_inv S us"
  shows "FindByEmail e us = Some r \<longleftrightarrow> r \<in> users us \<and> cstr (ur_email r) = e"
  using us_invD(1) [OF assms, of e] us_invD(3) [OF assms]
  by (fastforce simp: FindByEmail_def users_def ran_def split: option.splits)

lemma FindByUsername_iff:
  assumes "us_inv S us"
  shows "FindByUsername n us = Some r \<longleftrightarrow> r \<in> users us \<and> cstr (ur_username r) = n \<and> n \<noteq> []"
  using us_invD(2) [OF assms, of n] us_invD(3) [OF assms]
  by (fastforce simp: FindByUsername_def users_def ran_def split: option.splits)

lemma FindByUserId_iff:
  assumes "us_inv S us" "sodium_hex_ok S"
  shows "FindByUserId S i us = Some r \<longleftrightarrow> r \<in> users us \<and> ur_user_id r = i"
  using us_invD(3) [OF assms(1)] assms(2)
  by (fastforce simp: FindByUserId_def users_def ran_def ToHex_def sodium_hex_ok_def dest: injD)

lemma user_indexes:
  assumes "us_inv S us"
  shows "us_email_to_uid us e = None \<longleftrightarrow> (\<forall>r \<in> users us. cstr (ur_email r) \<noteq> e)"
    and "n \<noteq> [] \<Longrightarrow> us_username_to_uid us n = None \<longleftrightarrow> (\<forall>r \<in> users us. cstr (ur_username r) \<noteq> n)"
proof -
  show "us_email_to_uid us e = None \<longleftrightarrow> (\<forall>r \<in> users us. cstr (ur_email r) \<noteq> e)"
    using us_invD(1) [OF assms, of e] us_invD(3) [OF assms]
    by (cases "us_email_to_uid us e") (fastforce simp: users_def ran_def)+
  show "us_username_to_uid us n = None \<longleftrightarrow> (\<forall>r \<in> users us. cstr (ur_username r) \<noteq> n)" if "n \<noteq> []"
    using us_invD(2) [OF assms, of n] us_invD(3) [OF assms] that
    by (cases "us_username_to_uid us n") (fastforce simp: users_def ran_def)+
qed

lemma Insert_user_accepts:
  assumes inv: "us_inv S us" and fresh: "us_records us (ToHex S (ur_user_id r)) = None"
    and new: "us_email_to_uid us (cstr (ur_email r)) = None"
      "cstr (ur_username r) = [] \<or> us_username_to_uid us (cstr (ur_username r)) = None"
  shows "\<exists>us'. Insert_user S r us = (True, us') \<and> us_inv S us' \<and> users us' = insert r (users us)"
proof -
  let ?us = "snd (Insert_user S r us)"
  have e: "Insert_user S r us = (True, ?us)" using new by (auto simp: Insert_user_def Let_def)
  have f: "us_records ?us = (us_records us)(ToHex S (ur_user_id r) \<mapsto> r)"
    "us_email_to_uid ?us = (us_email_to_uid us)(cstr (ur_email r) \<mapsto> ToHex S (ur_user_id r))"
    "us_username_to_uid ?us = (if cstr (ur_username r) \<noteq> []
       then (us_username_to_uid us)(cstr (ur_username r) \<mapsto> ToHex S (ur_user_id r)) else us_username_to_uid us)"
    using new by (auto simp: Insert_user_def Let_def)
  have "us_inv S ?us"
  proof (rule us_invI)
    show "\<exists>x. us_records ?us h = Some x \<and> cstr (ur_email x) = k" if "us_email_to_uid ?us k = Some h" for k h
      using that us_invD(1) [OF inv, of k h] fresh unfolding f by (auto split: if_splits)
    show "n \<noteq> [] \<and> (\<exists>x. us_records ?us h = Some x \<and> cstr (ur_username x) = n)"
      if "us_username_to_uid ?us n = Some h" for n h
      using that us_invD(2) [OF inv, of n h] fresh unfolding f by (auto split: if_splits)
    show "h = ToHex S (ur_user_id x) \<and> us_email_to_uid ?us (cstr (ur_email x)) = Some h \<and>
        (cstr (ur_username x) \<noteq> [] \<longrightarrow> us_username_to_uid ?us (cstr (ur_username x)) = Some h)"
      if "us_records ?us h = Some x" for h x
      using that us_invD(3) [OF inv, of h x] new unfolding f by (auto split: if_splits)
  qed
  moreover have "users ?us = insert r (users us)" unfolding users_def f using fresh by simp
  ultimately show ?thesis using e by blast
qed

lemma SetEmailVerified_spec:
  assumes inv: "us_inv S us" and r: "us_records us (ToHex S i) = Some r"
  shows "\<exists>us'. SetEmailVerified S i us = (True, us') \<and> us_inv S us' \<and>
    users us' = insert (r\<lparr>ur_email_verified := True\<rparr>) (users us - {r})"
proof -
  let ?r = "r\<lparr>ur_email_verified := True\<rparr>"
  let ?us = "us\<lparr>us_records := (us_records us)(ToHex S i \<mapsto> ?r)\<rparr>"
  have i: "ToHex S i = ToHex S (ur_user_id r)" using us_invD(3) [OF inv r] by blast
  have "us_inv S ?us"
  proof (rule us_invI)
    show "\<exists>x. us_records ?us h = Some x \<and> cstr (ur_email x) = k" if "us_email_to_uid ?us k = Some h" for k h
      using that us_invD(1) [OF inv, of k h] r by (cases "h = ToHex S i") auto
    show "n \<noteq> [] \<and> (\<exists>x. us_records ?us h = Some x \<and> cstr (ur_username x) = n)"
      if "us_username_to_uid ?us n = Some h" for n h
      using that us_invD(2) [OF inv, of n h] r by (cases "h = ToHex S i") auto
    show "h = ToHex S (ur_user_id x) \<and> us_email_to_uid ?us (cstr (ur_email x)) = Some h \<and>
        (cstr (ur_username x) \<noteq> [] \<longrightarrow> us_username_to_uid ?us (cstr (ur_username x)) = Some h)"
      if "us_records ?us h = Some x" for h x
    proof (cases "h = ToHex S i")
      case True
      then show ?thesis using that us_invD(3) [OF inv r] by auto
    next
      case False
      then show ?thesis using that us_invD(3) [OF inv, of h x] by simp
    qed
  qed
  moreover have "h = ToHex S i" if "us_records us h = Some r" for h
    using us_invD(3) [OF inv that] i by simp
  then have "(\<exists>h. h \<noteq> ToHex S i \<and> us_records us h = Some x) \<longleftrightarrow> x \<in> users us - {r}" for x
    using r unfolding users_def ran_def mem_Collect_eq Diff_iff singleton_iff by (metis option.inject)
  moreover have "x \<in> users ?us \<longleftrightarrow> x = ?r \<or> (\<exists>h. h \<noteq> ToHex S i \<and> us_records us h = Some x)" for x
    by (auto simp: users_def ran_def)
  ultimately have "us_inv S ?us" "users ?us = insert ?r (users us - {r})" by auto
  then show ?thesis using r by (simp add: SetEmailVerified_def)
qed



section \<open>Refresh tokens are used once\<close>

text \<open>The pairs of family and token id that a sequence of presentations gets accepted.\<close>

fun present :: "(u64 \<times> u64) list \<Rightarrow> RefreshFamilyStore \<Rightarrow> (u64 \<times> u64) list \<times> RefreshFamilyStore" where
  "present [] fs = ([], fs)"
| "present ((f, t) # ps) fs =
     (let (ok, fs1) = AdvanceTokenId f t fs; (acc, fs2) = present ps fs1
      in (if ok then (f, t) # acc else acc, fs2))"

definition live_id :: "RefreshFamilyStore \<Rightarrow> u64 \<Rightarrow> u64 option" where
  "live_id fs f = (case fs f of None \<Rightarrow> None | Some fam \<Rightarrow> if fr_revoked fam then None else Some (fr_current_token_id fam))"

lemma AdvanceTokenId_live:
  "fst (AdvanceTokenId f t fs) \<longleftrightarrow> live_id fs f = Some t"
  "live_id (snd (AdvanceTokenId f t fs)) g =
     (if g = f then (if live_id fs f = Some t then Some (t + 1) else None) else live_id fs g)"
  by (auto simp: AdvanceTokenId_def live_id_def split: option.splits)

lemma present_none:
  "live_id fs f = None \<Longrightarrow> filter (\<lambda>p. fst p = f) (fst (present ps fs)) = [] \<and> live_id (snd (present ps fs)) f = None"
proof (induction ps arbitrary: fs)
  case (Cons p ps)
  obtain g t where p: "p = (g, t)" by (cases p)
  have "live_id (snd (AdvanceTokenId g t fs)) f = None" "g = f \<Longrightarrow> \<not> fst (AdvanceTokenId g t fs)"
    using Cons.prems AdvanceTokenId_live [of g t fs] by auto
  then show ?case using Cons.IH [of "snd (AdvanceTokenId g t fs)"] by (auto simp: p split: prod.splits)
qed simp

lemma present_consecutive:
  assumes "live_id fs f = Some c"
  shows "\<exists>k \<le> length ps. filter (\<lambda>p. fst p = f) (fst (present ps fs)) = map (\<lambda>i. (f, c + of_nat i)) [0..<k]"
  using assms
proof (induction ps arbitrary: fs c)
  case (Cons p ps)
  obtain g t where p: "p = (g, t)" by (cases p)
  let ?fs = "snd (AdvanceTokenId g t fs)"
  note live = AdvanceTokenId_live [of g t fs]
  consider "g \<noteq> f" | "g = f" "t = c" | "g = f" "t \<noteq> c" by blast
  then show ?case
  proof cases
    case 1
    then have "live_id ?fs f = Some c" using live(2) Cons.prems by simp
    from Cons.IH [OF this] 1 show ?thesis by (auto simp: p intro: le_SucI split: prod.splits)
  next
    case 2
    then have "live_id ?fs f = Some (c + 1)" "fst (AdvanceTokenId g t fs)" using live Cons.prems by simp_all
    moreover obtain k where "k \<le> length ps"
      "filter (\<lambda>p. fst p = f) (fst (present ps ?fs)) = map (\<lambda>i. (f, c + 1 + of_nat i)) [0..<k]"
      using Cons.IH calculation(1) by blast
    moreover have "(f, c) # map (\<lambda>i. (f, c + 1 + of_nat i)) [0..<k] = map (\<lambda>i. (f, c + of_nat i)) [0..<Suc k]"
      by (simp add: upt_conv_Cons map_Suc_upt [symmetric] comp_def add.assoc del: upt_Suc)
    ultimately show ?thesis using 2 by (intro exI [of _ "Suc k"]) (auto simp: p split: prod.splits simp del: upt_Suc)
  next
    case 3
    then have "live_id ?fs f = None" "\<not> fst (AdvanceTokenId g t fs)" using live Cons.prems by simp_all
    with present_none [OF this(1), of ps] show ?thesis by (intro exI [of _ 0]) (auto simp: p split: prod.splits)
  qed
qed simp

text \<open>
  C9. A refresh token is accepted at most once, and a reuse revokes its family. Whatever sequence of up
  to \<open>2 ^ 64\<close> tokens is presented, the token ids accepted for one family are consecutive and no pair
  of family and token id is accepted twice; and once an id other than the current one has been
  presented, no later token of that family is accepted.
\<close>

theorem refresh_tokens_single_use:
  assumes "length ps < 2 ^ 64"
  shows "distinct (fst (present ps fs)) \<and>
    (live_id fs f = Some c \<longrightarrow> (\<exists>k. filter (\<lambda>p. fst p = f) (fst (present ps fs)) = map (\<lambda>i. (f, c + of_nat i)) [0..<k])) \<and>
    (live_id fs f \<noteq> Some t \<longrightarrow> filter (\<lambda>p. fst p = f) (fst (present ((f, t) # ps) fs)) = [])"
proof (intro conjI impI)
  have "distinct (filter (\<lambda>p. fst p = g) (fst (present ps fs)))" for g
  proof (cases "live_id fs g")
    case None
    then show ?thesis using present_none by simp
  next
    case (Some d)
    then obtain k where k: "k \<le> length ps" and
      e: "filter (\<lambda>p. fst p = g) (fst (present ps fs)) = map (\<lambda>i. (g, d + of_nat i)) [0..<k]"
      using present_consecutive by blast
    have "inj_on (\<lambda>i. d + of_nat i :: u64) {..<2 ^ 64}"
    proof (rule inj_onI)
      fix x y :: nat assume "x \<in> {..<2 ^ 64}" "y \<in> {..<2 ^ 64}" "d + of_nat x = d + of_nat y"
      moreover from this(3) have "unat (of_nat x :: u64) = unat (of_nat y :: u64)" by simp
      ultimately show "x = y" unfolding unat_of_nat by simp
    qed
    then have "inj_on (\<lambda>i. (g, d + of_nat i)) (set [0..<k])"
      using k assms by (auto simp: inj_on_def)
    then show ?thesis unfolding e by (simp add: distinct_map)
  qed
  moreover have "distinct xs" if "\<And>g. distinct (filter (\<lambda>p. fst p = g) xs)" for xs :: "(u64 \<times> u64) list"
    using that
  proof (induction xs)
    case (Cons x xs)
    have "distinct (filter (\<lambda>p. fst p = g) xs)" for g using Cons.prems [of g] by (simp split: if_splits)
    moreover have "x \<notin> set xs" using Cons.prems [of "fst x"] by auto
    ultimately show ?case using Cons.IH by simp
  qed simp
  ultimately show "distinct (fst (present ps fs))" by blast
  show "\<exists>k. filter (\<lambda>p. fst p = f) (fst (present ps fs)) = map (\<lambda>i. (f, c + of_nat i)) [0..<k]"
    if "live_id fs f = Some c" using present_consecutive [OF that] by blast
  show "filter (\<lambda>p. fst p = f) (fst (present ((f, t) # ps) fs)) = []" if "live_id fs f \<noteq> Some t"
    using present_none [of "snd (AdvanceTokenId f t fs)" f ps] AdvanceTokenId_live [of f t fs] that
    by (auto split: prod.splits)
qed

theorem refresh_tokens_single_use_witness:
  "distinct (fst (present [(7, 1), (7, 2), (7, 1), (7, 3)] [7 \<mapsto> \<lparr>fr_family_id = 7, fr_user_id = [],
     fr_current_token_id = 1, fr_revoked = False\<rparr>]))"
  using refresh_tokens_single_use [of "[(7, 1), (7, 2), (7, 1), (7, 3)]"] by simp

end
