(* ===== verification/Session_Manager.thy ===== *)
theory Session_Manager
  imports Network
begin

text \<open>
  The directory of connected users, \<open>session/SessionManager.cpp\<close>: two maps, from user ids to session
  objects and from sockets to user ids. The manager's mutex makes every operation atomic. A session is
  an index of the session pool; \<open>Some None\<close> in \<open>sm_sessions\<close> is an entry that holds a null pointer.
\<close>

record sm_state = net_state +
  sm_sessions :: "string \<rightharpoonup> nat option"
  sm_socketToUserId :: "SOCKET \<rightharpoonup> string"

definition return_session :: "nat \<Rightarrow> 'z net_state_scheme \<Rightarrow> 'z net_state_scheme res" where
  "return_session k st = bind_res (returnSession (Some k) (n_spool st)) (\<lambda>p. Inr (st\<lparr>n_spool := p\<rparr>))"

definition borrow_session :: "SOCKET \<Rightarrow> 'z net_state_scheme \<Rightarrow> (nat option \<times> 'z net_state_scheme) res" where
  "borrow_session s st = bind_res (borrowSession s (n_spool st)) (\<lambda>(r, p). Inr (r, st\<lparr>n_spool := p\<rparr>))"

section \<open>Operations\<close>

text \<open>The first half of \<open>updateNewId\<close>: an older session of the same user on another socket ends.\<close>

definition drop_older_login :: "nat \<Rightarrow> 'z sm_state_scheme \<Rightarrow> 'z sm_state_scheme res" where
  "drop_older_login i st =
     (let newid = se_userId (session_at i st); newSocket = se_socket (session_at i st) in
      case sm_sessions st newid of
        None \<Rightarrow> Inr st
      | Some None \<Rightarrow> Inl NullDeref
      | Some (Some k) \<Rightarrow>
          let oldSocket = se_socket (session_at k st) in
          if newSocket = oldSocket then Inr st
          else if \<not> se_iocp (session_at i st) then Inl NullDeref
          else
            let st1 = HandleDisconnectWithoutLock oldSocket st;
                st2 = st1\<lparr>sm_socketToUserId := (sm_socketToUserId st1)(oldSocket := None)\<rparr>
            in bind_res (return_session k st2)
                 (\<lambda>st3. Inr (st3\<lparr>sm_sessions := (sm_sessions st3)(newid := None)\<rparr>)))"

definition updateNewId :: "string \<Rightarrow> nat \<Rightarrow> 'z sm_state_scheme \<Rightarrow> 'z sm_state_scheme res" where
  "updateNewId uid i st =
     bind_res (drop_older_login i st) (\<lambda>st1.
       let se = session_at i st1;
           st2 = st1\<lparr>sm_sessions := (sm_sessions st1)(uid := None)\<rparr>;
           st3 = st2\<lparr>sm_socketToUserId := (sm_socketToUserId st2)(se_socket se \<mapsto> se_userId se)\<rparr>;
           st4 = st3\<lparr>sm_sessions := (sm_sessions st3)(se_userId se \<mapsto> Some i)\<rparr>
       in Inr (set_session i (se\<lparr>se_updated := True\<rparr>) st4))"

definition addSession :: "string \<Rightarrow> nat \<Rightarrow> 'z sm_state_scheme \<Rightarrow> 'z sm_state_scheme" where
  "addSession uid i st =
     st\<lparr>sm_sessions := (sm_sessions st)(uid \<mapsto> Some i),
        sm_socketToUserId := (sm_socketToUserId st)(se_socket (session_at i st) \<mapsto> uid)\<rparr>"

definition removeSession :: "string \<Rightarrow> 'z sm_state_scheme \<Rightarrow> 'z sm_state_scheme res" where
  "removeSession uid st =
     (case sm_sessions st uid of
        None \<Rightarrow> Inr st
      | Some None \<Rightarrow> Inl NullDeref
      | Some (Some k) \<Rightarrow>
          bind_res (return_session k
              (st\<lparr>sm_socketToUserId := (sm_socketToUserId st)(se_socket (session_at k st) := None)\<rparr>))
            (\<lambda>st1. Inr (st1\<lparr>sm_sessions := (sm_sessions st1)(uid := None)\<rparr>)))"

definition removeBySocket :: "SOCKET \<Rightarrow> 'z sm_state_scheme \<Rightarrow> 'z sm_state_scheme res" where
  "removeBySocket s st =
     (case sm_socketToUserId st s of
        None \<Rightarrow> Inr st
      | Some userId \<Rightarrow>
          let st1 = st\<lparr>sm_socketToUserId := (sm_socketToUserId st)(s := None)\<rparr> in
          case sm_sessions st1 userId of
            None \<Rightarrow> Inr st1
          | Some p \<Rightarrow>
              bind_res (case p of None \<Rightarrow> Inr st1 | Some k \<Rightarrow> return_session k st1)
                (\<lambda>st2. Inr (st2\<lparr>sm_sessions := (sm_sessions st2)(userId := None)\<rparr>)))"

definition findSession :: "string \<Rightarrow> 'z sm_state_scheme \<Rightarrow> nat option" where
  "findSession uid st = (case sm_sessions st uid of Some p \<Rightarrow> p | None \<Rightarrow> None)"

text \<open>\<open>sessions[it->second]\<close> adds an entry with a null pointer where there is none.\<close>

definition findBySocket :: "SOCKET \<Rightarrow> 'z sm_state_scheme \<Rightarrow> nat option \<times> 'z sm_state_scheme" where
  "findBySocket s st =
     (case sm_socketToUserId st s of
        None \<Rightarrow> (None, st)
      | Some u \<Rightarrow>
          (case sm_sessions st u of
             Some p \<Rightarrow> (p, st)
           | None \<Rightarrow> (None, st\<lparr>sm_sessions := (sm_sessions st)(u \<mapsto> None)\<rparr>)))"

definition getUserIdBySocket :: "SOCKET \<Rightarrow> 'z sm_state_scheme \<Rightarrow> string" where
  "getUserIdBySocket s st = (case sm_socketToUserId st s of Some u \<Rightarrow> u | None \<Rightarrow> [])"

definition checkReciever :: "string \<Rightarrow> 'z sm_state_scheme \<Rightarrow> bool res" where
  "checkReciever recId st =
     (case sm_sessions st recId of
        None \<Rightarrow> Inr False
      | Some None \<Rightarrow> Inl NullDeref
      | Some (Some i) \<Rightarrow> Inr (se_recievingFile (session_at i st)))"

definition setRecievingFile :: "bool \<Rightarrow> string \<Rightarrow> 'z sm_state_scheme \<Rightarrow> 'z sm_state_scheme res" where
  "setRecievingFile b recId st =
     (case sm_sessions st recId of
        None \<Rightarrow> Inr st
      | Some None \<Rightarrow> Inl NullDeref
      | Some (Some i) \<Rightarrow> Inr (set_session i ((session_at i st)\<lparr>se_recievingFile := b\<rparr>) st))"

definition setRecievingFileFalse :: "string \<Rightarrow> 'z sm_state_scheme \<Rightarrow> 'z sm_state_scheme res" where
  "setRecievingFileFalse = setRecievingFile False"

definition setRecievingFileTrue :: "string \<Rightarrow> 'z sm_state_scheme \<Rightarrow> 'z sm_state_scheme res" where
  "setRecievingFileTrue = setRecievingFile True"

section \<open>The invariant of the directory\<close>

text \<open>
  The two maps are inverse to each other through the sockets of the sessions, and every registered
  session is on loan from the pool.
\<close>

definition on_loan :: "nat \<Rightarrow> 'z net_state_scheme \<Rightarrow> bool" where
  "on_loan i st \<longleftrightarrow> i < SESSION_POOL_SIZE \<and> i \<notin> set (sp_freeIndices (n_spool st))"

definition sm_inv :: "'z sm_state_scheme \<Rightarrow> bool" where
  "sm_inv st \<longleftrightarrow> sp_inv (n_spool st) \<and>
     (\<forall>u x. sm_sessions st u = Some x \<longrightarrow>
        (\<exists>i. x = Some i \<and> on_loan i st \<and> sm_socketToUserId st (se_socket (session_at i st)) = Some u)) \<and>
     (\<forall>s u. sm_socketToUserId st s = Some u \<longrightarrow>
        (\<exists>i. sm_sessions st u = Some (Some i) \<and> se_socket (session_at i st) = s))"

lemma sm_invI:
  assumes "sp_inv (n_spool st)"
    and "\<And>u x. sm_sessions st u = Some x \<Longrightarrow>
      \<exists>i. x = Some i \<and> on_loan i st \<and> sm_socketToUserId st (se_socket (session_at i st)) = Some u"
    and "\<And>s u. sm_socketToUserId st s = Some u \<Longrightarrow>
      \<exists>i. sm_sessions st u = Some (Some i) \<and> se_socket (session_at i st) = s"
  shows "sm_inv st"
  using assms by (simp add: sm_inv_def)

lemma sm_invD:
  assumes "sm_inv st"
  shows "sp_inv (n_spool st)"
    and "sm_sessions st u = Some x \<Longrightarrow>
      \<exists>i. x = Some i \<and> on_loan i st \<and> sm_socketToUserId st (se_socket (session_at i st)) = Some u"
    and "sm_socketToUserId st s = Some u \<Longrightarrow>
      \<exists>i. sm_sessions st u = Some (Some i) \<and> se_socket (session_at i st) = s"
  using assms by (simp_all add: sm_inv_def)

lemma sm_inv_session:
  assumes "sm_inv st" "sm_sessions st u = Some (Some i)"
  shows "on_loan i st" "sm_socketToUserId st (se_socket (session_at i st)) = Some u" "i < length (sp_pool (n_spool st))"
  using sm_invD(1) [OF assms(1)] sm_invD(2) [OF assms] by (auto simp: on_loan_def sp_inv_def)

text \<open>Different users have different sessions on different sockets.\<close>

lemma sm_inv_inj:
  assumes "sm_inv st" "sm_sessions st u = Some (Some i)" "sm_sessions st v = Some (Some j)"
  shows "i = j \<longleftrightarrow> u = v" "se_socket (session_at i st) = se_socket (session_at j st) \<longleftrightarrow> u = v"
  using sm_inv_session(2) [OF assms(1,2)] sm_inv_session(2) [OF assms(1,3)] assms(2,3) by auto

lemma findBySocket_inv:
  assumes "sm_inv st"
  shows "snd (findBySocket s st) = st"
    "fst (findBySocket s st) = (case sm_socketToUserId st s of None \<Rightarrow> None | Some u \<Rightarrow> findSession u st)"
  using sm_invD(3) [OF assms] by (fastforce simp: findBySocket_def findSession_def split: option.splits)+

section \<open>Every operation keeps the invariant\<close>

text \<open>What a change of the session objects must keep.\<close>

lemma sm_inv_set_session:
  assumes "sm_inv st" "se_socket se = se_socket (session_at i st)" "se_id se = se_id (session_at i st)"
  shows "sm_inv (set_session i se st)"
proof (rule sm_invI)
  note D = sm_invD [OF assms(1)]
  let ?st = "set_session i se st"
  have sock: "se_socket (session_at j ?st) = se_socket (session_at j st)" for j
    using assms(2) by (cases "j = i"; cases "i < length (sp_pool (n_spool st))")
      (simp_all add: session_at_def set_session_def list_update_beyond)
  have uid: "se_id (sp_pool (n_spool ?st) ! j) = se_id (sp_pool (n_spool st) ! j)" for j
    using assms(3) by (cases "j = i"; cases "i < length (sp_pool (n_spool st))")
      (simp_all add: session_at_def set_session_def list_update_beyond)
  have loan: "on_loan j ?st = on_loan j st" for j by (simp add: on_loan_def set_session_def)
  show "sp_inv (n_spool ?st)" using D(1) uid by (simp add: sp_inv_def set_session_def)
  have maps: "sm_sessions ?st = sm_sessions st" "sm_socketToUserId ?st = sm_socketToUserId st"
    by (simp_all add: set_session_def)
  show "\<exists>j. x = Some j \<and> on_loan j ?st \<and> sm_socketToUserId ?st (se_socket (session_at j ?st)) = Some u"
    if "sm_sessions ?st u = Some x" for u x
    using that D(2) by (simp only: maps loan sock)
  show "\<exists>j. sm_sessions ?st u = Some (Some j) \<and> se_socket (session_at j ?st) = s"
    if "sm_socketToUserId ?st s = Some u" for s u
    using that D(3) by (simp only: maps sock)
qed

text \<open>Taking an entry out of the directory: its session goes back to the pool.\<close>

definition forget :: "string \<Rightarrow> nat \<Rightarrow> 'z sm_state_scheme \<Rightarrow> 'z sm_state_scheme" where
  "forget u k st = st\<lparr>
     n_spool := (n_spool st)\<lparr>sp_pool := (sp_pool (n_spool st))[k := reset_session (session_at k st)],
                              sp_freeIndices := sp_freeIndices (n_spool st) @ [k]\<rparr>,
     sm_sessions := (sm_sessions st)(u := None),
     sm_socketToUserId := (sm_socketToUserId st)(se_socket (session_at k st) := None)\<rparr>"

lemma return_session_ok:
  assumes "sp_inv (n_spool st)" "on_loan k st"
  shows "return_session k st = Inr (st\<lparr>n_spool := (n_spool st)
    \<lparr>sp_pool := (sp_pool (n_spool st))[k := reset_session (session_at k st)],
     sp_freeIndices := sp_freeIndices (n_spool st) @ [k]\<rparr>\<rparr>)"
  using assms by (simp add: return_session_def returnSession_def on_loan_def sp_inv_def session_at_def Let_def)

lemma session_at_forget:
  "j \<noteq> k \<Longrightarrow> session_at j (forget u k st) = session_at j st"
  by (simp add: session_at_def forget_def)

lemma forget_inv:
  assumes inv: "sm_inv st" and k: "sm_sessions st u = Some (Some k)"
  shows "sm_inv (forget u k st)"
proof (rule sm_invI)
  note K = sm_inv_session [OF inv k]
  let ?st = "forget u k st"
  show "sp_inv (n_spool ?st)"
    using sm_invD(1) [OF inv] K(1)
    by (auto simp: forget_def sp_inv_def on_loan_def reset_session_def nth_list_update session_at_def)
  show "\<exists>i. x = Some i \<and> on_loan i ?st \<and> sm_socketToUserId ?st (se_socket (session_at i ?st)) = Some v"
    if "sm_sessions ?st v = Some x" for v x
  proof -
    have v: "v \<noteq> u" "sm_sessions st v = Some x" using that by (auto simp: forget_def split: if_splits)
    obtain i where i: "x = Some i" "on_loan i st" "sm_socketToUserId st (se_socket (session_at i st)) = Some v"
      using sm_invD(2) [OF inv v(2)] by blast
    have "i \<noteq> k" "se_socket (session_at i st) \<noteq> se_socket (session_at k st)"
      using sm_inv_inj [OF inv k, of v i] v i by auto
    then show ?thesis
      using i session_at_forget [of i k u st] by (auto simp: forget_def on_loan_def)
  qed
  show "\<exists>i. sm_sessions ?st v = Some (Some i) \<and> se_socket (session_at i ?st) = s"
    if "sm_socketToUserId ?st s = Some v" for s v
  proof -
    have s: "s \<noteq> se_socket (session_at k st)" "sm_socketToUserId st s = Some v"
      using that by (auto simp: forget_def split: if_splits)
    obtain i where i: "sm_sessions st v = Some (Some i)" "se_socket (session_at i st) = s"
      using sm_invD(3) [OF inv s(2)] by blast
    then have "i \<noteq> k" "v \<noteq> u" using s(1) k by auto
    then show ?thesis using i session_at_forget [of i k u st] by (auto simp: forget_def)
  qed
qed

lemma removeSession_spec:
  assumes "sm_inv st"
  shows "removeSession u st = Inr (case findSession u st of None \<Rightarrow> st | Some k \<Rightarrow> forget u k st)"
proof (cases "sm_sessions st u")
  case None
  then show ?thesis by (simp add: removeSession_def findSession_def)
next
  case (Some x)
  then obtain k where k: "sm_sessions st u = Some (Some k)" "on_loan k st"
    using sm_invD(2) [OF assms] by blast
  moreover have "on_loan k (st\<lparr>sm_socketToUserId := m\<rparr>)" for m using k(2) by (simp add: on_loan_def)
  ultimately show ?thesis
    using sm_invD(1) [OF assms]
    by (simp add: removeSession_def return_session_ok findSession_def forget_def session_at_def)
qed

lemma removeSession_inv:
  assumes "sm_inv st"
  shows "\<exists>st'. removeSession u st = Inr st' \<and> sm_inv st' \<and> findSession u st' = None"
proof (cases "sm_sessions st u")
  case None
  then show ?thesis using removeSession_spec [OF assms] assms by (simp add: findSession_def)
next
  case (Some x)
  then obtain k where "sm_sessions st u = Some (Some k)" using sm_invD(2) [OF assms] by blast
  then show ?thesis
    using removeSession_spec [OF assms] forget_inv [OF assms] by (simp add: findSession_def) (simp add: forget_def)
qed

lemma removeBySocket_spec:
  assumes "sm_inv st"
  shows "removeBySocket s st = (case sm_socketToUserId st s of None \<Rightarrow> Inr st | Some u \<Rightarrow> removeSession u st)"
proof (cases "sm_socketToUserId st s")
  case None
  then show ?thesis by (simp add: removeBySocket_def)
next
  case (Some u)
  then obtain k where "sm_sessions st u = Some (Some k)" "se_socket (session_at k st) = s"
    using sm_invD(3) [OF assms] by blast
  then show ?thesis using Some by (simp add: removeBySocket_def removeSession_def)
qed

lemma addSession_inv:
  assumes inv: "sm_inv st" and i: "on_loan i st"
    and fresh: "sm_sessions st uid = None" "sm_socketToUserId st (se_socket (session_at i st)) = None"
  shows "sm_inv (addSession uid i st)"
proof (rule sm_invI)
  let ?st = "addSession uid i st"
  have at: "session_at j ?st = session_at j st" "on_loan j ?st = on_loan j st" for j
    by (simp_all add: addSession_def session_at_def on_loan_def)
  show "sp_inv (n_spool ?st)" using sm_invD(1) [OF inv] by (simp add: addSession_def)
  show "\<exists>j. x = Some j \<and> on_loan j ?st \<and> sm_socketToUserId ?st (se_socket (session_at j ?st)) = Some v"
    if "sm_sessions ?st v = Some x" for v x
  proof (cases "v = uid")
    case True
    then show ?thesis using that i unfolding at by (auto simp: addSession_def)
  next
    case False
    then show ?thesis using that sm_invD(2) [OF inv, of v x] fresh unfolding at by (fastforce simp: addSession_def)
  qed
  show "\<exists>j. sm_sessions ?st v = Some (Some j) \<and> se_socket (session_at j ?st) = s"
    if "sm_socketToUserId ?st s = Some v" for s v
    using that sm_invD(3) [OF inv, of s v] fresh unfolding at
    by (cases "s = se_socket (session_at i st)") (auto simp: addSession_def)
qed

section \<open>Logging in\<close>

lemma HandleDisconnectWithoutLock_sm:
  "sm_sessions (HandleDisconnectWithoutLock s st) = sm_sessions st"
  "sm_socketToUserId (HandleDisconnectWithoutLock s st) = sm_socketToUserId st"
  "session_at i (HandleDisconnectWithoutLock s st) = session_at i st"
  "on_loan i (HandleDisconnectWithoutLock s st) = on_loan i st"
  by (simp_all add: HandleDisconnectWithoutLock_def session_at_def on_loan_def)

lemma HandleDisconnectWithoutLock_inv:
  "sm_inv (HandleDisconnectWithoutLock s st) \<longleftrightarrow> sm_inv st"
  by (simp add: sm_inv_def HandleDisconnectWithoutLock_sm)

lemma drop_older_login_spec:
  assumes inv: "sm_inv st" and i: "sm_sessions st uid = Some (Some i)" "se_iocp (session_at i st)"
    and u: "u = se_userId (session_at i st)"
  shows "drop_older_login i st = Inr (case findSession u st of None \<Rightarrow> st
    | Some k \<Rightarrow> if k = i then st
        else forget u k (HandleDisconnectWithoutLock (se_socket (session_at k st)) st))"
proof (cases "sm_sessions st u")
  case None
  then show ?thesis using u by (simp add: drop_older_login_def findSession_def)
next
  case (Some x)
  then obtain k where k: "sm_sessions st u = Some (Some k)" "on_loan k st"
    using sm_invD(2) [OF inv] by blast
  have "se_socket (session_at i st) = se_socket (session_at k st) \<longleftrightarrow> k = i"
    using sm_inv_inj [OF inv i(1) k(1)] by auto
  moreover have "return_session k (st1\<lparr>sm_socketToUserId := m\<rparr>) = Inr (st1\<lparr>sm_socketToUserId := m,
      n_spool := (n_spool st1)\<lparr>sp_pool := (sp_pool (n_spool st1))[k := reset_session (session_at k st1)],
        sp_freeIndices := sp_freeIndices (n_spool st1) @ [k]\<rparr>\<rparr>)"
    if "sp_inv (n_spool st1)" "on_loan k st1" for st1 :: "'a sm_state_scheme" and m
    using return_session_ok [of "st1\<lparr>sm_socketToUserId := m\<rparr>" k] that by (simp add: on_loan_def session_at_def)
  ultimately show ?thesis
    using k i(2) u [symmetric] sm_invD(1) [OF inv]
    by (simp add: drop_older_login_def findSession_def Let_def HandleDisconnectWithoutLock_sm forget_def)
qed

lemma rename_inv:
  assumes inv: "sm_inv st" and i: "sm_sessions st uid = Some (Some i)"
    and u: "sm_sessions st u = None \<or> u = uid"
  shows "sm_inv (st\<lparr>sm_socketToUserId := (sm_socketToUserId st)(se_socket (session_at i st) \<mapsto> u),
    sm_sessions := (sm_sessions st)(uid := None, u \<mapsto> Some i)\<rparr>)" (is "sm_inv ?st")
proof (rule sm_invI)
  have at: "session_at j ?st = session_at j st" "on_loan j ?st = on_loan j st" for j
    by (simp_all add: session_at_def on_loan_def)
  show "sp_inv (n_spool ?st)" using sm_invD(1) [OF inv] by simp
  show "\<exists>j. x = Some j \<and> on_loan j ?st \<and> sm_socketToUserId ?st (se_socket (session_at j ?st)) = Some v"
    if "sm_sessions ?st v = Some x" for v x
  proof (cases "v = u")
    case True
    then show ?thesis using that sm_inv_session(1) [OF inv i] unfolding at by auto
  next
    case False
    then have v: "v \<noteq> uid" "sm_sessions st v = Some x" using that by (auto split: if_splits)
    obtain j where j: "x = Some j" "on_loan j st" "sm_socketToUserId st (se_socket (session_at j st)) = Some v"
      using sm_invD(2) [OF inv v(2)] by blast
    moreover have "se_socket (session_at j st) \<noteq> se_socket (session_at i st)"
      using sm_inv_inj(2) [OF inv i, of v j] v j(1) by auto
    ultimately show ?thesis unfolding at by auto
  qed
  show "\<exists>j. sm_sessions ?st v = Some (Some j) \<and> se_socket (session_at j ?st) = s"
    if "sm_socketToUserId ?st s = Some v" for s v
  proof (cases "s = se_socket (session_at i st)")
    case True
    then show ?thesis using that unfolding at by auto
  next
    case False
    then have s: "sm_socketToUserId st s = Some v" using that by simp
    obtain j where j: "sm_sessions st v = Some (Some j)" "se_socket (session_at j st) = s"
      using sm_invD(3) [OF inv s] by blast
    then have "v \<noteq> uid" "v \<noteq> u" using False i u by auto
    then show ?thesis using j unfolding at by auto
  qed
qed

text \<open>The state in which \<open>updateNewId\<close> enters the session under its permanent id.\<close>

lemma drop_older_login_keeps:
  assumes inv: "sm_inv st" and i: "sm_sessions st uid = Some (Some i)" "se_iocp (session_at i st)"
    and u: "u = se_userId (session_at i st)" and st1: "drop_older_login i st = Inr st1"
  shows "sm_inv st1" "sm_sessions st1 uid = Some (Some i)" "sm_sessions st1 u = None \<or> u = uid"
    "session_at i st1 = session_at i st" "v \<noteq> u \<Longrightarrow> findSession v st1 = findSession v st"
    "findSession u st = Some k \<Longrightarrow> k \<noteq> i \<Longrightarrow>
       st1 = forget u k (HandleDisconnectWithoutLock (se_socket (session_at k st)) st)"
proof -
  note spec = drop_older_login_spec [OF inv i u]
  consider "st1 = st" "sm_sessions st u = None \<or> sm_sessions st u = Some (Some i)"
    | j where "j \<noteq> i" "sm_sessions st u = Some (Some j)"
        "st1 = forget u j (HandleDisconnectWithoutLock (se_socket (session_at j st)) st)"
  proof (cases "sm_sessions st u")
    case None
    then show thesis using spec st1 that(1) by (simp add: findSession_def)
  next
    case (Some x)
    then obtain j where "sm_sessions st u = Some (Some j)" using sm_invD(2) [OF inv] by blast
    then show thesis using spec st1 that by (cases "j = i") (simp_all add: findSession_def)
  qed
  then have all: "sm_inv st1 \<and> sm_sessions st1 uid = Some (Some i) \<and> (sm_sessions st1 u = None \<or> u = uid) \<and>
    session_at i st1 = session_at i st \<and> (v \<noteq> u \<longrightarrow> findSession v st1 = findSession v st)"
  proof cases
    case 1
    then show ?thesis using inv i(1) sm_inv_inj(1) [OF inv i(1), of u i] by auto
  next
    case 2
    let ?h = "HandleDisconnectWithoutLock (se_socket (session_at j st)) st"
    have "u \<noteq> uid" using 2(1,2) i(1) by auto
    moreover have "sm_inv st1" using forget_inv [of ?h u j] 2 inv
      by (simp add: HandleDisconnectWithoutLock_inv HandleDisconnectWithoutLock_sm)
    ultimately show ?thesis using 2 i(1) session_at_forget [of i j u ?h]
      by (simp add: HandleDisconnectWithoutLock_sm findSession_def) (simp add: forget_def HandleDisconnectWithoutLock_sm)
  qed
  from all show "sm_inv st1" "sm_sessions st1 uid = Some (Some i)" "sm_sessions st1 u = None \<or> u = uid"
    "session_at i st1 = session_at i st" "v \<noteq> u \<Longrightarrow> findSession v st1 = findSession v st" by blast+
  show "findSession u st = Some k \<Longrightarrow> k \<noteq> i \<Longrightarrow>
       st1 = forget u k (HandleDisconnectWithoutLock (se_socket (session_at k st)) st)"
    using spec st1 by simp
qed

text \<open>
  C17. When a session that is registered under a temporary id logs in, \<open>updateNewId\<close> returns without a
  fault and keeps the directory consistent: the user's id leads to this session and the temporary id to
  none, every other user keeps its session, and a session the user had on another socket is taken
  down, its object is back in the pool, its socket is no longer in the directory and is closed, once.
\<close>

theorem login_takes_over:
  assumes inv: "sm_inv st" and i: "sm_sessions st tempId = Some (Some i)" "se_iocp (session_at i st)"
    and u: "u = se_userId (session_at i st)"
  shows "\<exists>st'. updateNewId tempId i st = Inr st' \<and> sm_inv st' \<and> findSession u st' = Some i \<and>
    se_updated (session_at i st') \<and> (tempId \<noteq> u \<longrightarrow> findSession tempId st' = None) \<and>
    (\<forall>v. v \<noteq> u \<and> v \<noteq> tempId \<longrightarrow> findSession v st' = findSession v st) \<and>
    (\<forall>k s. findSession u st = Some k \<and> k \<noteq> i \<and> s = se_socket (session_at k st) \<longrightarrow>
       \<not> on_loan k st' \<and> sm_socketToUserId st' s = None \<and> s \<in> n_disconnectedSockets st' \<and>
       n_closed st' = n_closed st @ (if s \<in> n_disconnectedSockets st then [] else [s]))"
proof -
  obtain st1 where st1: "drop_older_login i st = Inr st1" using drop_older_login_spec [OF inv i u] by blast
  note K = drop_older_login_keeps [OF inv i u st1]
  let ?r = "st1\<lparr>sm_socketToUserId := (sm_socketToUserId st1)(se_socket (session_at i st1) \<mapsto> u),
    sm_sessions := (sm_sessions st1)(tempId := None, u \<mapsto> Some i)\<rparr>"
  let ?st = "set_session i ((session_at i st1)\<lparr>se_updated := True\<rparr>) ?r"
  have upd: "updateNewId tempId i st = Inr ?st"
    using st1 K(4) u by (simp add: updateNewId_def Let_def)
  have "sm_inv ?st"
    using sm_inv_set_session [OF rename_inv [OF K(1-3)]] by (simp add: session_at_def)
  moreover have "findSession u ?st = Some i" "tempId \<noteq> u \<longrightarrow> findSession tempId ?st = None"
    by (simp_all add: findSession_def set_session_def)
  moreover have "se_updated (session_at i ?st)"
    using sm_inv_session(3) [OF K(1,2)] by (simp add: session_at_def set_session_def)
  moreover have "\<forall>v. v \<noteq> u \<and> v \<noteq> tempId \<longrightarrow> findSession v ?st = findSession v st"
    using K(5) by (simp add: findSession_def set_session_def)
  moreover have "\<forall>k s. findSession u st = Some k \<and> k \<noteq> i \<and> s = se_socket (session_at k st) \<longrightarrow>
       \<not> on_loan k ?st \<and> sm_socketToUserId ?st s = None \<and> s \<in> n_disconnectedSockets ?st \<and>
       n_closed ?st = n_closed st @ (if s \<in> n_disconnectedSockets st then [] else [s])"
  proof (intro allI impI, elim conjE)
    fix k s assume k: "findSession u st = Some k" "k \<noteq> i" "s = se_socket (session_at k st)"
    have e: "st1 = forget u k (HandleDisconnectWithoutLock s st)" using K(6) k by simp
    have "sm_sessions st u = Some (Some k)" using k(1) by (simp add: findSession_def split: option.splits)
    then have "se_socket (session_at i st1) \<noteq> s"
      using K(4) sm_inv_inj [OF inv i(1), of u k] k(2,3) by auto
    then show "\<not> on_loan k ?st \<and> sm_socketToUserId ?st s = None \<and> s \<in> n_disconnectedSockets ?st \<and>
       n_closed ?st = n_closed st @ (if s \<in> n_disconnectedSockets st then [] else [s])"
      using k(3) unfolding e
      by (simp add: on_loan_def set_session_def forget_def HandleDisconnectWithoutLock_def session_at_def)
  qed
  ultimately show ?thesis using upd by (intro exI [of _ ?st]) simp
qed

theorem login_takes_over_witness:
  "\<exists>(st :: sm_state) st'. findSession ''u'' st = Some 0 \<and> updateNewId ''7id'' 1 st = Inr st' \<and>
     findSession ''u'' st' = Some 1 \<and> n_closed st' = [5]"
proof -
  let ?a = "new_Session\<lparr>se_userId := ''u'', se_socket := 5, se_iocp := True\<rparr>"
  let ?b = "new_Session\<lparr>se_userId := ''u'', se_socket := 7, se_iocp := True, se_id := 1\<rparr>"
  let ?pool = "\<lparr>sp_pool = (replicate SESSION_POOL_SIZE new_Session)[0 := ?a, 1 := ?b],
    sp_freeIndices = [2..<SESSION_POOL_SIZE]\<rparr>"
  define st :: sm_state where "st = \<lparr>n_packets = new_PacketPool, n_io = undefined, n_spool = ?pool,
    n_calls = 0, n_posted = [], n_recvs = [], n_disconnectedSockets = {}, n_socketBuffers = Map.empty,
    n_closed = [], sm_sessions = [''u'' \<mapsto> Some 0, ''7id'' \<mapsto> Some 1],
    sm_socketToUserId = [5 \<mapsto> ''u'', 7 \<mapsto> ''7id'']\<rparr>"
  have two: "2 < SESSION_POOL_SIZE" by (simp add: SESSION_POOL_SIZE_def)
  have at: "session_at 0 st = ?a" "session_at 1 st = ?b" "session_at (Suc 0) st = ?b"
    "on_loan 0 st" "on_loan 1 st"
    using two by (simp_all add: session_at_def on_loan_def st_def)
  have maps: "sm_sessions st = [''u'' \<mapsto> Some 0, ''7id'' \<mapsto> Some 1]"
    "sm_socketToUserId st = [5 \<mapsto> ''u'', 7 \<mapsto> ''7id'']" "n_closed st = []" "n_disconnectedSockets st = {}"
    by (simp_all add: st_def)
  have inv: "sm_inv st"
  proof (rule sm_invI)
    show "sp_inv (n_spool st)"
      using two by (auto simp: st_def sp_inv_def new_Session_def nth_list_update)
    show "\<exists>i. x = Some i \<and> on_loan i st \<and> sm_socketToUserId st (se_socket (session_at i st)) = Some v"
      if "sm_sessions st v = Some x" for v x
    proof (cases "v = ''u''")
      case True
      then show ?thesis using that at by (intro exI [of _ 0]) (simp add: maps)
    next
      case False
      then show ?thesis using that at by (intro exI [of _ 1]) (simp add: maps split: if_splits)
    qed
    show "\<exists>i. sm_sessions st v = Some (Some i) \<and> se_socket (session_at i st) = s"
      if "sm_socketToUserId st s = Some v" for s v
    proof (cases "s = 5")
      case True
      then show ?thesis using that at by (intro exI [of _ 0]) (auto simp: maps)
    next
      case False
      then have "s = 7 \<and> v = ''7id''" using that by (simp add: maps split: if_splits)
      then show ?thesis using at by (intro exI [of _ 1]) (simp add: maps)
    qed
  qed
  have reg: "sm_sessions st ''7id'' = Some (Some 1)" "se_iocp (session_at 1 st)" "''u'' = se_userId (session_at 1 st)"
    and f: "findSession ''u'' st = Some 0"
    using at by (simp_all add: maps findSession_def)
  note login_takes_over [OF inv reg]
  then obtain st' where st': "updateNewId ''7id'' 1 st = Inr st'" "findSession ''u'' st' = Some 1"
    and cl: "\<forall>k s. findSession ''u'' st = Some k \<and> k \<noteq> 1 \<and> s = se_socket (session_at k st) \<longrightarrow>
       \<not> on_loan k st' \<and> sm_socketToUserId st' s = None \<and> s \<in> n_disconnectedSockets st' \<and>
       n_closed st' = n_closed st @ (if s \<in> n_disconnectedSockets st then [] else [s])"
    by (elim exE conjE) (rule that)
  have "n_closed st' = [5]" using cl [rule_format, of 0 5] f at(1) maps(3,4) by simp
  then show ?thesis using f st' by blast
qed

end
