(* ===== verification/Manage_Offline.thy ===== *)
theory Manage_Offline
  imports Session_Manager Mpsc
begin

text \<open>
  \<open>offlineManager/ManageOffline.cpp\<close> keeps, for every receiver, a queue of the packets to deliver and
  a flag that says whether one of them is being sent. \<open>MessageRouter::routePacket\<close>, which it calls, is
  here as well. Every operation runs to its end before the next one starts.
\<close>

record WorkItem =
  wi_recId :: string
  wi_packet :: nat

record clientQueue =
  cq_queue :: "WorkItem MpscQueue"
  cq_flag :: bool

record off_state = sm_state +
  queue_per_client :: "string \<rightharpoonup> clientQueue"

definition new_clientQueue :: clientQueue where
  "new_clientQueue = \<lparr>cq_queue = new_mpsc, cq_flag = False\<rparr>"

text \<open>\<open>WorkItem{}\<close>, what \<open>front\<close> returns for an empty queue; its packet pointer is null.\<close>

definition no_item :: WorkItem where
  "no_item = \<lparr>wi_recId = [], wi_packet = 0\<rparr>"

definition set_queue :: "string \<Rightarrow> clientQueue \<Rightarrow> 'z off_state_scheme \<Rightarrow> 'z off_state_scheme" where
  "set_queue u cq st = st\<lparr>queue_per_client := (queue_per_client st)(u \<mapsto> cq)\<rparr>"

definition set_flag :: "string \<Rightarrow> bool \<Rightarrow> 'z off_state_scheme \<Rightarrow> 'z off_state_scheme" where
  "set_flag u b st =
     (case queue_per_client st u of None \<Rightarrow> st | Some cq \<Rightarrow> set_queue u (cq\<lparr>cq_flag := b\<rparr>) st)"

section \<open>Operations\<close>

definition routePacket ::
  "(nat \<Rightarrow> bool) \<Rightarrow> nat \<Rightarrow> string \<Rightarrow> 'z sm_state_scheme \<Rightarrow> (bool \<times> 'z sm_state_scheme) res" where
  "routePacket wsa a recvId st =
     (if recvId = [] then Inr (False, st)
      else case findSession recvId st of
             Some i \<Rightarrow> sendPacket wsa i a (se_socket (session_at i st)) st
           | None \<Rightarrow> Inr (False, st))"

definition front_item :: "clientQueue \<Rightarrow> WorkItem res" where
  "front_item cq = bind_res (front_mpsc no_item (cq_queue cq)) returns"

definition route_front ::
  "(nat \<Rightarrow> bool) \<Rightarrow> string \<Rightarrow> clientQueue \<Rightarrow> 'z off_state_scheme \<Rightarrow> 'z off_state_scheme res" where
  "route_front wsa u cq st =
     bind_res (front_item cq) (\<lambda>front.
       bind_res (routePacket wsa (wi_packet front) u st) (\<lambda>(routed, st2).
         Inr (if routed then st2 else set_flag u False st2)))"

definition ManageCompletePacket ::
  "(nat \<Rightarrow> bool) \<Rightarrow> nat \<Rightarrow> string \<Rightarrow> 'z off_state_scheme \<Rightarrow> 'z off_state_scheme res" where
  "ManageCompletePacket wsa a recvId st =
     (let cq = (case queue_per_client st recvId of Some cq \<Rightarrow> cq | None \<Rightarrow> new_clientQueue) in
      bind_res (push_mpsc \<lparr>wi_recId = recvId, wi_packet = a\<rparr> (cq_queue cq)) (\<lambda>q.
        if cq_flag cq then Inr (set_queue recvId (cq\<lparr>cq_queue := q\<rparr>) st)
        else
          let cq1 = cq\<lparr>cq_queue := q, cq_flag := True\<rparr>
          in route_front wsa recvId cq1 (set_queue recvId cq1 st)))"

definition drainNext ::
  "(nat \<Rightarrow> bool) \<Rightarrow> string \<Rightarrow> SOCKET \<Rightarrow> 'z off_state_scheme \<Rightarrow> 'z off_state_scheme res" where
  "drainNext wsa recvId s st =
     (case queue_per_client st recvId of
        None \<Rightarrow> Inr st
      | Some cq \<Rightarrow>
          bind_res (empty_mpsc (cq_queue cq)) (\<lambda>e.
          bind_res (if e then Inr (cq_queue cq)
                    else bind_res (pop_mpsc (cq_queue cq)) (\<lambda>r. bind_res (returns r) (\<lambda>(_, q). Inr q))) (\<lambda>q.
          bind_res (empty_mpsc q) (\<lambda>e2.
            let cq1 = cq\<lparr>cq_queue := q\<rparr>; st1 = set_queue recvId cq1 st in
            if \<not> e2 then
              bind_res (front_item cq1) (\<lambda>item.
                bind_res (initiateSend wsa s (wi_packet item) st1) (\<lambda>(sent, st2).
                  Inr (if sent then st2 else set_flag recvId False st2)))
            else Inr (set_flag recvId False st1)))))"

definition clearFlag :: "string \<Rightarrow> 'z off_state_scheme \<Rightarrow> 'z off_state_scheme" where
  "clearFlag recvId st = set_flag recvId False st"

definition notifySend ::
  "(nat \<Rightarrow> bool) \<Rightarrow> string \<Rightarrow> 'z off_state_scheme \<Rightarrow> 'z off_state_scheme res" where
  "notifySend wsa recId st =
     (case queue_per_client st recId of
        None \<Rightarrow> Inr st
      | Some cq \<Rightarrow>
          bind_res (empty_mpsc (cq_queue cq)) (\<lambda>e.
            if e \<or> cq_flag cq then Inr st
            else let cq1 = cq\<lparr>cq_flag := True\<rparr> in route_front wsa recId cq1 (set_queue recId cq1 st)))"

section \<open>The outbox of a receiver\<close>

text \<open>
  What the queue and the flag mean: the packets still to be delivered, in order, and whether the first
  of them is being sent.
\<close>

type_synonym outbox = "nat list \<times> bool"

definition outbox :: "'z off_state_scheme \<Rightarrow> string \<Rightarrow> outbox" where
  "outbox st u = (case queue_per_client st u of None \<Rightarrow> ([], False)
     | Some cq \<Rightarrow> (map wi_packet (mq_elems (cq_queue cq)), cq_flag cq))"

text \<open>The four operations on an outbox; \<open>ok\<close> says whether a send that is attempted is accepted.\<close>

fun ob_put :: "bool \<Rightarrow> nat \<Rightarrow> outbox \<Rightarrow> outbox" where
  "ob_put ok a (ps, f) = (ps @ [a], f \<or> ok)"

fun ob_done :: "bool \<Rightarrow> outbox \<Rightarrow> outbox" where
  "ob_done ok (ps, f) = (tl ps, tl ps \<noteq> [] \<and> f \<and> ok)"

fun ob_notify :: "bool \<Rightarrow> outbox \<Rightarrow> outbox" where
  "ob_notify ok (ps, f) = (ps, f \<or> ps \<noteq> [] \<and> ok)"

text \<open>The packet that is sent next when nothing is under way.\<close>

fun ob_next :: "outbox \<Rightarrow> nat option" where
  "ob_next (ps, f) = (if f \<or> ps = [] then None else Some (hd ps))"

definition sendable :: "'z net_state_scheme \<Rightarrow> nat \<Rightarrow> bool" where
  "sendable st a \<longleftrightarrow> a < PACKET_POOL_SIZE \<and> unat (toCopy (packet_at a st)) \<le> DATA_SIZE"

definition off_inv :: "'z off_state_scheme \<Rightarrow> bool" where
  "off_inv st \<longleftrightarrow> net_inv st \<and> (\<forall>u cq. queue_per_client st u = Some cq \<longrightarrow> mq_inv (cq_queue cq)) \<and>
     (\<forall>u. \<forall>a \<in> set (fst (outbox st u)). sendable st a)"

definition online :: "'z sm_state_scheme \<Rightarrow> string \<Rightarrow> bool" where
  "online st u \<longleftrightarrow> u \<noteq> [] \<and> (\<exists>i. findSession u st = Some i \<and> se_iocp (session_at i st))"

definition offline :: "'z sm_state_scheme \<Rightarrow> string \<Rightarrow> bool" where
  "offline st u \<longleftrightarrow> u = [] \<or> findSession u st = None"

definition socket_of :: "'z sm_state_scheme \<Rightarrow> string \<Rightarrow> SOCKET" where
  "socket_of st u = (case findSession u st of Some i \<Rightarrow> se_socket (session_at i st) | None \<Rightarrow> INVALID_SOCKET)"

text \<open>The attempt to hand the packet \<open>a\<close> to socket \<open>s\<close>: what it may change.\<close>

definition attempted ::
  "(nat \<Rightarrow> bool) \<Rightarrow> SOCKET \<Rightarrow> nat \<Rightarrow> 'z net_state_scheme \<Rightarrow> 'y net_state_scheme \<Rightarrow> bool" where
  "attempted wsa s a st st' \<longleftrightarrow>
     n_calls st' = Suc (n_calls st) \<and>
     (if wsa (n_calls st)
      then n_posted st' = n_posted st @ [\<lparr>ps_socket = s, ps_context = hd (ic_free (n_io st)),
             ps_bytes = take (unat (toCopy (packet_at a st))) (data (packet_at a st))\<rparr>] \<and>
           ic_free (n_io st') = tl (ic_free (n_io st))
      else n_posted st' = n_posted st \<and>
           ic_free (n_io st') = tl (ic_free (n_io st)) @ [hd (ic_free (n_io st))])"

definition untouched :: "'z net_state_scheme \<Rightarrow> 'y net_state_scheme \<Rightarrow> bool" where
  "untouched st st' \<longleftrightarrow> n_calls st' = n_calls st \<and> n_posted st' = n_posted st \<and>
     ic_free (n_io st') = ic_free (n_io st)"

definition same_directory :: "'z sm_state_scheme \<Rightarrow> 'y sm_state_scheme \<Rightarrow> bool" where
  "same_directory st st' \<longleftrightarrow> n_spool st' = n_spool st \<and> sm_sessions st' = sm_sessions st \<and>
     sm_socketToUserId st' = sm_socketToUserId st \<and> n_disconnectedSockets st' = n_disconnectedSockets st \<and>
     n_socketBuffers st' = n_socketBuffers st \<and> n_closed st' = n_closed st \<and>
     pp_availableIdx (n_packets st') = pp_availableIdx (n_packets st) \<and>
     (\<forall>b. data (packet_at b st') = data (packet_at b st))"

section \<open>Sending through the directory\<close>

lemma initiateSend_off:
  fixes st :: "'z off_state_scheme"
  assumes "net_inv st" "sendable st a" "ic_free (n_io st) \<noteq> []"
  shows "\<exists>st'. initiateSend wsa s a st = Inr (wsa (n_calls st), st') \<and> net_inv st' \<and>
    same_directory st st' \<and> attempted wsa s a st st' \<and> queue_per_client st' = queue_per_client st"
proof -
  obtain k ks where k: "ic_free (n_io st) = k # ks" using assms(3) by (auto simp: neq_Nil_conv)
  obtain st' where st': "initiateSend wsa s a st = Inr (wsa (n_calls st), st')" "net_inv st'"
    "same_connections st st'" "n_calls st' = Suc (n_calls st)"
    "pp_availableIdx (n_packets st') = pp_availableIdx (n_packets st)"
    "\<forall>b. data (packet_at b st') = data (packet_at b st)"
    "if wsa (n_calls st)
     then n_posted st' = n_posted st @ [\<lparr>ps_socket = s, ps_context = k,
            ps_bytes = take (unat (toCopy (packet_at a st))) (data (packet_at a st))\<rparr>] \<and> ic_free (n_io st') = ks
     else n_posted st' = n_posted st \<and> ic_free (n_io st') = ks @ [k]"
    using initiateSend_spec [OF assms(1) _ _ k, of a wsa s] assms(2) unfolding sendable_def by blast
  have "net_state.more st' = net_state.more st" using st'(3) by (simp add: same_connections_def)
  then have "sm_sessions st' = sm_sessions st" "sm_socketToUserId st' = sm_socketToUserId st"
    "queue_per_client st' = queue_per_client st"
    by (cases st; cases st'; simp)+
  then show ?thesis
    using st' k by (simp add: same_connections_def same_directory_def attempted_def)
qed

lemma routePacket_offline: "offline st u \<Longrightarrow> routePacket wsa a u st = Inr (False, st)"
  by (auto simp: offline_def routePacket_def)

lemma routePacket_online:
  fixes st :: "'z off_state_scheme"
  assumes "online st u" "net_inv st" "sendable st a" "ic_free (n_io st) \<noteq> []"
  shows "\<exists>st'. routePacket wsa a u st = Inr (wsa (n_calls st), st') \<and> net_inv st' \<and>
    same_directory st st' \<and> attempted wsa (socket_of st u) a st st' \<and> queue_per_client st' = queue_per_client st"
  using initiateSend_off [OF assms(2-4)] assms(1)
  by (auto simp: online_def routePacket_def sendPacket_def socket_of_def)

lemma online_not_offline: "online st u \<Longrightarrow> \<not> offline st u"
  by (auto simp: online_def offline_def)

definition delivers ::
  "(nat \<Rightarrow> bool) \<Rightarrow> string \<Rightarrow> nat option \<Rightarrow> 'z sm_state_scheme \<Rightarrow> 'y sm_state_scheme \<Rightarrow> bool" where
  "delivers wsa u x st st' \<longleftrightarrow> same_directory st st' \<and>
     (case x of None \<Rightarrow> untouched st st'
      | Some a \<Rightarrow> if online st u then attempted wsa (socket_of st u) a st st' else untouched st st')"

lemma front_item_ok: "mq_inv (cq_queue cq) \<Longrightarrow> mq_elems (cq_queue cq) \<noteq> [] \<Longrightarrow> front_item cq = Inr (hd (mq_elems (cq_queue cq)))"
  using mpsc.front_ok [of "cq_queue cq" no_item] by (simp add: front_item_def returns_def)

lemma route_front_spec:
  fixes st :: "'z off_state_scheme"
  assumes cq: "queue_per_client st u = Some cq" "mq_inv (cq_queue cq)" "mq_elems (cq_queue cq) \<noteq> []" "cq_flag cq"
    and st: "net_inv st" "sendable st (wi_packet (hd (mq_elems (cq_queue cq))))" "ic_free (n_io st) \<noteq> []"
    and u: "online st u \<or> offline st u"
  shows "\<exists>st'. route_front wsa u cq st = Inr st' \<and> net_inv st' \<and>
    queue_per_client st' = (queue_per_client st)(u \<mapsto> cq\<lparr>cq_flag := online st u \<and> wsa (n_calls st)\<rparr>) \<and>
    delivers wsa u (Some (wi_packet (hd (mq_elems (cq_queue cq))))) st st'"
proof (cases "online st u")
  case True
  obtain st' where st': "routePacket wsa (wi_packet (hd (mq_elems (cq_queue cq)))) u st = Inr (wsa (n_calls st), st')"
    "net_inv st'" "same_directory st st'"
    "attempted wsa (socket_of st u) (wi_packet (hd (mq_elems (cq_queue cq)))) st st'"
    "queue_per_client st' = queue_per_client st"
    using routePacket_online [OF True st] by blast
  have "queue_per_client st = (queue_per_client st)(u \<mapsto> cq\<lparr>cq_flag := True\<rparr>)" using cq(1,4) by (auto simp: fun_eq_iff)
  then show ?thesis
    using st' True cq front_item_ok [OF cq(2,3)]
    by (cases "wsa (n_calls st)")
      (auto simp: route_front_def set_flag_def set_queue_def delivers_def same_directory_def attempted_def
        net_inv_def packet_at_def)
next
  case False
  then have "offline st u" using u by simp
  then show ?thesis
    using False st(1) cq front_item_ok [OF cq(2,3)]
    by (simp add: route_front_def routePacket_offline set_flag_def set_queue_def delivers_def same_directory_def
        untouched_def net_inv_def packet_at_def)
qed

section \<open>The operations implement the outbox\<close>

lemma off_invD:
  assumes "off_inv st"
  shows "net_inv st" "queue_per_client st u = Some cq \<Longrightarrow> mq_inv (cq_queue cq)"
    "a \<in> set (fst (outbox st u)) \<Longrightarrow> sendable st a"
  using assms by (auto simp: off_inv_def)

lemma same_directory_sendable: "same_directory st st' \<Longrightarrow> sendable st' a = sendable st a"
  by (simp add: same_directory_def sendable_def toCopy_def)

lemma queue_update:
  fixes st :: "'z off_state_scheme" and st' :: "'y off_state_scheme"
  assumes inv: "off_inv st" "net_inv st'" "same_directory st st'"
    and q: "queue_per_client st' = (queue_per_client st)(u \<mapsto> cq)" "mq_inv (cq_queue cq)"
      "\<forall>x \<in> set (mq_elems (cq_queue cq)). sendable st (wi_packet x)"
  shows "off_inv st'" "outbox st' u = (map wi_packet (mq_elems (cq_queue cq)), cq_flag cq)"
    "v \<noteq> u \<Longrightarrow> outbox st' v = outbox st v"
proof -
  show 1: "outbox st' u = (map wi_packet (mq_elems (cq_queue cq)), cq_flag cq)"
    using q(1) by (simp add: outbox_def)
  have 2: "outbox st' v = outbox st v" if "v \<noteq> u" for v using q(1) that by (simp add: outbox_def)
  then show "v \<noteq> u \<Longrightarrow> outbox st' v = outbox st v" .
  have "sendable st' a" if "a \<in> set (fst (outbox st' v))" for v a
    using that 1 2 [of v] q(3) off_invD(3) [OF inv(1), of a v] same_directory_sendable [OF inv(3), of a]
    by (cases "v = u") auto
  moreover have "mq_inv (cq_queue c)" if "queue_per_client st' v = Some c" for v c
    using that q(1,2) off_invD(2) [OF inv(1)] by (auto split: if_splits)
  ultimately show "off_inv st'" using inv(2) by (simp add: off_inv_def)
qed

lemma set_queue_fields:
  fixes st :: "'z off_state_scheme"
  shows "net_inv (set_queue u cq st) = net_inv st" "same_directory st (set_queue u cq st)"
    "untouched st (set_queue u cq st)" "queue_per_client (set_queue u cq st) = (queue_per_client st)(u \<mapsto> cq)"
    "online (set_queue u cq st) v = online st v" "offline (set_queue u cq st) v = offline st v"
    "socket_of (set_queue u cq st) v = socket_of st v" "n_io (set_queue u cq st) = n_io st"
    "n_calls (set_queue u cq st) = n_calls st" "sendable (set_queue u cq st) a = sendable st a"
    "same_directory (set_queue u cq st) st' = same_directory st st'"
    "attempted wsa s a (set_queue u cq st) st' = attempted wsa s a st st'"
    "untouched (set_queue u cq st) st' = untouched st st'"
  by (simp_all add: set_queue_def net_inv_def same_directory_def untouched_def packet_at_def online_def offline_def
      session_at_def findSession_def socket_of_def sendable_def attempted_def cong: option.case_cong)

lemma delivers_set_queue:
  fixes st :: "'z off_state_scheme"
  shows "delivers wsa v x (set_queue u cq st) st' = delivers wsa v x st st'"
  by (simp add: delivers_def set_queue_fields split: option.split)

lemma ManageCompletePacket_spec:
  fixes st :: "'z off_state_scheme"
  assumes inv: "off_inv st" and a: "sendable st a" and io: "ic_free (n_io st) \<noteq> []"
    and u: "online st u \<or> offline st u"
  shows "\<exists>st'. ManageCompletePacket wsa a u st = Inr st' \<and> off_inv st' \<and>
    outbox st' u = ob_put (online st u \<and> wsa (n_calls st)) a (outbox st u) \<and>
    (\<forall>v. v \<noteq> u \<longrightarrow> outbox st' v = outbox st v) \<and>
    delivers wsa u (ob_next (ob_put False a (outbox st u))) st st'"
proof -
  define cq where "cq = (case queue_per_client st u of Some cq \<Rightarrow> cq | None \<Rightarrow> new_clientQueue)"
  have cq: "mq_inv (cq_queue cq)" and ob: "outbox st u = (map wi_packet (mq_elems (cq_queue cq)), cq_flag cq)"
    using off_invD(2) [OF inv] new_mpsc_inv
    by (auto simp: cq_def outbox_def new_clientQueue_def split: option.splits)
  obtain q where q: "push_mpsc \<lparr>wi_recId = u, wi_packet = a\<rparr> (cq_queue cq) = Inr q" "mq_inv q"
    "mq_elems q = mq_elems (cq_queue cq) @ [\<lparr>wi_recId = u, wi_packet = a\<rparr>]"
    using mpsc.push_ok [OF cq] by blast
  have send: "\<forall>x \<in> set (mq_elems q). sendable st (wi_packet x)"
    using q(3) a ob off_invD(3) [OF inv, of _ u] by auto
  show ?thesis
  proof (cases "cq_flag cq")
    case True
    let ?cq = "cq\<lparr>cq_queue := q\<rparr>"
    have e: "ManageCompletePacket wsa a u st = Inr (set_queue u ?cq st)"
      using True q(1) by (simp add: ManageCompletePacket_def cq_def)
    show ?thesis
      unfolding e using queue_update [OF inv, of "set_queue u ?cq st" u ?cq] True q send ob off_invD(1) [OF inv]
      by (simp add: set_queue_fields delivers_def)
  next
    case False
    let ?cq = "cq\<lparr>cq_queue := q, cq_flag := True\<rparr>"
    let ?st = "set_queue u ?cq st"
    have ne: "mq_elems q \<noteq> []" using q(3) by simp
    obtain st' where st': "route_front wsa u ?cq ?st = Inr st'" "net_inv st'"
      "queue_per_client st' = (queue_per_client st)(u \<mapsto> ?cq\<lparr>cq_flag := online st u \<and> wsa (n_calls st)\<rparr>)"
      "delivers wsa u (Some (wi_packet (hd (mq_elems q)))) st st'"
      using route_front_spec [of ?st u ?cq wsa] q(2) ne send io u off_invD(1) [OF inv]
      by (auto simp: set_queue_fields delivers_set_queue)
    have "same_directory st st'" using st'(4) by (simp add: delivers_def)
    moreover have "ManageCompletePacket wsa a u st = Inr st'"
      using False q(1) st'(1) by (simp add: ManageCompletePacket_def cq_def [symmetric])
    moreover have "ob_next (ob_put False a (outbox st u)) = Some (wi_packet (hd (mq_elems q)))"
      using ob False q(3) by (simp add: hd_map hd_append)
    ultimately show ?thesis
      using queue_update [OF inv st'(2) _ st'(3)] st' q send ob False by simp
  qed
qed

lemma notifySend_spec:
  fixes st :: "'z off_state_scheme"
  assumes inv: "off_inv st" and io: "ic_free (n_io st) \<noteq> []" and u: "online st u \<or> offline st u"
  shows "\<exists>st'. notifySend wsa u st = Inr st' \<and> off_inv st' \<and>
    outbox st' u = ob_notify (online st u \<and> wsa (n_calls st)) (outbox st u) \<and>
    (\<forall>v. v \<noteq> u \<longrightarrow> outbox st' v = outbox st v) \<and> delivers wsa u (ob_next (outbox st u)) st st'"
proof (cases "ob_next (outbox st u)")
  case None
  then have "notifySend wsa u st = Inr st" "ob_notify (online st u \<and> wsa (n_calls st)) (outbox st u) = outbox st u"
    using off_invD(2) [OF inv, of u]
    by (auto simp: notifySend_def outbox_def mpsc.empty_ok split: option.splits if_splits)
  then show ?thesis using None inv by (simp add: delivers_def same_directory_def untouched_def)
next
  case (Some a)
  then obtain cq where cq: "queue_per_client st u = Some cq" "mq_elems (cq_queue cq) \<noteq> []" "\<not> cq_flag cq"
    and a: "a = wi_packet (hd (mq_elems (cq_queue cq)))"
    by (auto simp: outbox_def hd_map split: option.splits if_splits)
  have q: "mq_inv (cq_queue cq)" and ob: "outbox st u = (map wi_packet (mq_elems (cq_queue cq)), False)"
    using off_invD(2) [OF inv cq(1)] cq by (simp_all add: outbox_def)
  have send: "\<forall>x \<in> set (mq_elems (cq_queue cq)). sendable st (wi_packet x)"
    using ob off_invD(3) [OF inv, of _ u] by auto
  let ?cq = "cq\<lparr>cq_flag := True\<rparr>"
  let ?st = "set_queue u ?cq st"
  obtain st' where st': "route_front wsa u ?cq ?st = Inr st'" "net_inv st'"
    "queue_per_client st' = (queue_per_client st)(u \<mapsto> ?cq\<lparr>cq_flag := online st u \<and> wsa (n_calls st)\<rparr>)"
    "delivers wsa u (Some a) st st'"
    using route_front_spec [of ?st u ?cq wsa] q cq(2) send io u off_invD(1) [OF inv] a
    by (auto simp: set_queue_fields delivers_set_queue)
  have "same_directory st st'" using st'(4) by (simp add: delivers_def)
  moreover have "notifySend wsa u st = Inr st'"
    using cq st'(1) mpsc.empty_ok [OF q] by (simp add: notifySend_def)
  ultimately show ?thesis
    using queue_update [OF inv st'(2) _ st'(3)] st' q send ob cq(2) Some by simp
qed

text \<open>After the front item has been sent, the next one goes to the same socket.\<close>

fun ob_following :: "outbox \<Rightarrow> nat option" where
  "ob_following (ps, f) = (if tl ps = [] then None else Some (hd (tl ps)))"

definition drains ::
  "(nat \<Rightarrow> bool) \<Rightarrow> SOCKET \<Rightarrow> nat option \<Rightarrow> 'z sm_state_scheme \<Rightarrow> 'y sm_state_scheme \<Rightarrow> bool" where
  "drains wsa s x st st' \<longleftrightarrow> same_directory st st' \<and>
     (case x of None \<Rightarrow> untouched st st' | Some a \<Rightarrow> attempted wsa s a st st')"

lemma drainNext_unfold:
  assumes "queue_per_client st u = Some cq" "mq_inv (cq_queue cq)"
  shows "\<exists>q. mq_inv q \<and> mq_elems q = tl (mq_elems (cq_queue cq)) \<and>
    drainNext wsa u s st =
      (let cq1 = cq\<lparr>cq_queue := q\<rparr>; st1 = set_queue u cq1 st in
       if mq_elems q = [] then Inr (set_flag u False st1)
       else bind_res (initiateSend wsa s (wi_packet (hd (mq_elems q))) st1) (\<lambda>(sent, st2).
              Inr (if sent then st2 else set_flag u False st2)))"
proof -
  obtain q where q: "pop_mpsc (cq_queue cq) = Inr (Some (mq_elems (cq_queue cq) \<noteq> [], q))" "mq_inv q"
    "mq_elems q = tl (mq_elems (cq_queue cq))"
    using mpsc.pop_ok [OF assms(2)] by blast
  let ?q = "if mq_elems (cq_queue cq) = [] then cq_queue cq else q"
  have "mq_inv ?q" "mq_elems ?q = tl (mq_elems (cq_queue cq))" using assms(2) q by simp_all
  moreover have "front_item (cq\<lparr>cq_queue := ?q\<rparr>) = Inr (hd (mq_elems ?q))" if "mq_elems ?q \<noteq> []"
    using front_item_ok [of "cq\<lparr>cq_queue := ?q\<rparr>"] calculation(1) that by simp
  ultimately show ?thesis
    using assms mpsc.empty_ok [OF assms(2)] mpsc.empty_ok [of ?q] q(1)
    by (intro exI [of _ ?q]) (auto simp: drainNext_def returns_def Let_def)
qed

lemma drainNext_spec:
  fixes st :: "'z off_state_scheme"
  assumes inv: "off_inv st" and io: "ic_free (n_io st) \<noteq> []"
  shows "\<exists>st'. drainNext wsa u s st = Inr st' \<and> off_inv st' \<and>
    outbox st' u = ob_done (wsa (n_calls st)) (outbox st u) \<and>
    (\<forall>v. v \<noteq> u \<longrightarrow> outbox st' v = outbox st v) \<and> drains wsa s (ob_following (outbox st u)) st st'"
proof (cases "queue_per_client st u")
  case None
  then show ?thesis
    using inv by (simp add: drainNext_def outbox_def drains_def same_directory_def untouched_def)
next
  case (Some cq)
  note cq = off_invD(2) [OF inv Some]
  have ob: "outbox st u = (map wi_packet (mq_elems (cq_queue cq)), cq_flag cq)" using Some by (simp add: outbox_def)
  obtain q where q: "mq_inv q" "mq_elems q = tl (mq_elems (cq_queue cq))"
    and e: "drainNext wsa u s st =
      (let cq1 = cq\<lparr>cq_queue := q\<rparr>; st1 = set_queue u cq1 st in
       if mq_elems q = [] then Inr (set_flag u False st1)
       else bind_res (initiateSend wsa s (wi_packet (hd (mq_elems q))) st1) (\<lambda>(sent, st2).
              Inr (if sent then st2 else set_flag u False st2)))"
    using drainNext_unfold [OF Some cq] by blast
  have send: "\<forall>x \<in> set (mq_elems q). sendable st (wi_packet x)"
    using ob off_invD(3) [OF inv, of _ u] q(2) by (cases "mq_elems (cq_queue cq)") auto
  have tl: "tl (map wi_packet (mq_elems (cq_queue cq))) = map wi_packet (mq_elems q)" by (simp add: q(2) map_tl)
  let ?cq = "cq\<lparr>cq_queue := q\<rparr>"
  let ?off = "set_queue u (?cq\<lparr>cq_flag := False\<rparr>)"
  have off: "set_flag u False (set_queue u ?cq st2) = ?off st2" for st2 :: "'z off_state_scheme"
    by (simp add: set_flag_def set_queue_def)
  show ?thesis
  proof (cases "mq_elems q = []")
    case True
    then show ?thesis
      using e off [of st] queue_update [OF inv, of "?off st" u "?cq\<lparr>cq_flag := False\<rparr>"] q(1) off_invD(1) [OF inv] ob tl
      by (simp add: set_queue_fields drains_def)
  next
    case False
    obtain st' where st': "initiateSend wsa s (wi_packet (hd (mq_elems q))) (set_queue u ?cq st) = Inr (wsa (n_calls st), st')"
      "net_inv st'" "same_directory st st'" "attempted wsa s (wi_packet (hd (mq_elems q))) st st'"
      "queue_per_client st' = (queue_per_client st)(u \<mapsto> ?cq)"
      using initiateSend_off [of "set_queue u ?cq st" "wi_packet (hd (mq_elems q))" wsa s] off_invD(1) [OF inv] send False io
      by (auto simp: set_queue_fields)
    let ?st = "if wsa (n_calls st) then st' else ?off st'"
    have "set_flag u False st' = ?off st'" using st'(5) by (simp add: set_flag_def)
    then have r: "drainNext wsa u s st = Inr ?st" using e False st'(1) by simp
    have d: "net_inv ?st" "same_directory st ?st" "attempted wsa s (wi_packet (hd (mq_elems q))) st ?st"
      "queue_per_client ?st = (queue_per_client st)(u \<mapsto> ?cq\<lparr>cq_flag := cq_flag cq \<and> wsa (n_calls st)\<rparr>)"
      using st' by (auto simp: set_queue_fields set_queue_def same_directory_def attempted_def net_inv_def packet_at_def)
    show ?thesis
      using r d(3) queue_update [OF inv d(1,2,4)] q(1) send ob tl False
      by (simp add: drains_def d(2) hd_map del: if_split)
  qed
qed

lemma clearFlag_spec:
  "outbox (clearFlag u st) u = (fst (outbox st u), False)" "v \<noteq> u \<Longrightarrow> outbox (clearFlag u st) v = outbox st v"
  by (auto simp: clearFlag_def set_flag_def set_queue_def outbox_def split: option.split)

text \<open>The state of a server that has just started.\<close>

definition fresh_off :: "IOContextPool \<Rightarrow> off_state" where
  "fresh_off io = \<lparr>n_packets = new_PacketPool, n_io = io, n_spool = new_SessionPool, n_calls = 0,
     n_posted = [], n_recvs = [], n_disconnectedSockets = {}, n_socketBuffers = Map.empty, n_closed = [],
     sm_sessions = Map.empty, sm_socketToUserId = Map.empty, queue_per_client = Map.empty\<rparr>"

lemma fresh_off_inv: "ic_inv io \<Longrightarrow> off_inv (fresh_off io)" "outbox (fresh_off io) u = ([], False)"
  "offline (fresh_off io) u" "n_io (fresh_off io) = io"
  by (simp_all add: off_inv_def net_inv_def fresh_off_def new_PacketPool_inv new_SessionPool_inv outbox_def
      offline_def findSession_def)

lemma rd32_zero: "set bs \<subseteq> {0} \<Longrightarrow> rd32 bs = 0"
  by (cases bs rule: rd32.cases) auto

lemma fresh_sendable: "a < PACKET_POOL_SIZE \<Longrightarrow> sendable (fresh_off io) a"
  by (simp add: sendable_def toCopy_def packet_at_def fresh_off_def new_PacketPool_def new_packet_def rd32_zero set_replicate_conv_if)

text \<open>
  C6. The queue and the flag of a receiver implement an outbox. For a state in which an I/O context is
  free, a packet that arrives is put last; where nothing is under way, the first packet is handed to the
  socket of the receiver, provided the receiver is connected, and the outbox is under way exactly when
  the system accepts it. When a send is complete the first packet leaves the outbox and the next one is
  handed to the socket. \<open>notifySend\<close> starts an outbox that is idle and not empty. No operation faults
  or touches the outbox of another receiver, the directory or the contents of a packet, and packets
  leave in the order in which they came.
\<close>

theorem offline_manager_refines_outbox:
  fixes st :: "'z off_state_scheme"
  assumes "off_inv st" "sendable st a" "ic_free (n_io st) \<noteq> []" "online st u \<or> offline st u"
  shows "(\<exists>st'. ManageCompletePacket wsa a u st = Inr st' \<and> off_inv st' \<and>
      outbox st' u = ob_put (online st u \<and> wsa (n_calls st)) a (outbox st u) \<and>
      (\<forall>v. v \<noteq> u \<longrightarrow> outbox st' v = outbox st v) \<and>
      delivers wsa u (ob_next (ob_put False a (outbox st u))) st st') \<and>
    (\<exists>st'. drainNext wsa u s st = Inr st' \<and> off_inv st' \<and>
      outbox st' u = ob_done (wsa (n_calls st)) (outbox st u) \<and>
      (\<forall>v. v \<noteq> u \<longrightarrow> outbox st' v = outbox st v) \<and> drains wsa s (ob_following (outbox st u)) st st') \<and>
    (\<exists>st'. notifySend wsa u st = Inr st' \<and> off_inv st' \<and>
      outbox st' u = ob_notify (online st u \<and> wsa (n_calls st)) (outbox st u) \<and>
      (\<forall>v. v \<noteq> u \<longrightarrow> outbox st' v = outbox st v) \<and> delivers wsa u (ob_next (outbox st u)) st st') \<and>
    outbox (clearFlag u st) u = (fst (outbox st u), False)"
  using ManageCompletePacket_spec [OF assms] drainNext_spec [OF assms(1,3)] notifySend_spec [OF assms(1,3,4)]
  by (simp only: clearFlag_spec simp_thms)

theorem offline_manager_refines_outbox_witness:
  "\<exists>(st :: off_state) st'. ManageCompletePacket (\<lambda>_. True) 0 ''bob'' st = Inr st' \<and> outbox st' ''bob'' = ([0], False)"
proof -
  obtain io where io: "ic_inv io" "ic_free io = [0..<IO_POOL_SIZE]" using new_IOContextPool_inv by blast
  have "ic_free (n_io (fresh_off io)) \<noteq> []" using io(2) by (simp add: fresh_off_inv IO_POOL_SIZE_def)
  moreover have "sendable (fresh_off io) 0" by (rule fresh_sendable) (simp add: PACKET_POOL_SIZE_def)
  moreover have "\<not> online (fresh_off io) ''bob''" using fresh_off_inv(3) online_not_offline by blast
  ultimately show ?thesis
    using offline_manager_refines_outbox [of "fresh_off io" 0 "''bob''" "\<lambda>_. True" 5] fresh_off_inv io(1) by auto
qed

end
