(* ===== verification/Auth_Manager.thy ===== *)
theory Auth_Manager
  imports Auth_Store Manage_Offline
begin

text \<open>
  \<open>authentication/AuthManager.cpp\<close>: registration, login, the two kinds of signed tokens and the check
  of every packet against the authentication cached on the session. A call of \<open>std::time\<close> is an
  argument \<open>now\<close>; a handler that calls it twice has two.
\<close>

record AuthManager =
  am_signing_key :: bytes
  am_dummy_hash :: bytes
  am_user_store :: UserStore
  am_family_store :: RefreshFamilyStore
  am_next_family_id :: u64
  am_entropy :: nat

record auth_state = off_state +
  st_auth :: AuthManager

definition ACCESS_TOKEN_LIFETIME :: u64 where "ACCESS_TOKEN_LIFETIME = 900"
definition REFRESH_TOKEN_LIFETIME :: u64 where "REFRESH_TOKEN_LIFETIME = 2592000"

definition new_AuthManager :: "sodium \<Rightarrow> nat \<Rightarrow> AuthManager" where
  "new_AuthManager S e =
     \<lparr>am_signing_key = sd_randombytes_buf S e 32,
      am_dummy_hash = (case sd_pwhash_str S (Suc e) ''timing_attack_mitigation_dummy_v1'' of
         Some h \<Rightarrow> h | None \<Rightarrow> replicate crypto_pwhash_STRBYTES 0),
      am_user_store = empty_UserStore, am_family_store = Map.empty, am_next_family_id = 1,
      am_entropy = Suc (Suc e)\<rparr>"

definition UserIdToHexString :: "sodium \<Rightarrow> bytes \<Rightarrow> string" where
  "UserIdToHexString S user_id = ToHex S (take 16 user_id)"

section \<open>Tokens\<close>

definition IssueTokenPair :: "sodium \<Rightarrow> u64 \<Rightarrow> bytes \<Rightarrow> AuthManager \<Rightarrow> LoginResult \<times> AuthManager" where
  "IssueTokenPair S now user_id am =
     (let ap = \<lparr>ap_user_id = take 16 user_id, ap_issued_at = now, ap_expiry = now + ACCESS_TOKEN_LIFETIME, ap_key_id = 0\<rparr>;
          r0 = new_LoginResult\<lparr>lr_access_token := (lr_access_token new_LoginResult)\<lparr>at_payload := ap\<rparr>\<rparr>
      in case sd_auth S (enc_AccessTokenPayload ap) (am_signing_key am) of
           None \<Rightarrow> (r0, am)
         | Some sig \<Rightarrow>
             let family_id = am_next_family_id am;
                 am1 = am\<lparr>am_next_family_id := family_id + 1\<rparr>;
                 rp = \<lparr>rp_user_id = take 16 user_id, rp_family_id = family_id, rp_token_id = 1,
                       rp_expiry = now + REFRESH_TOKEN_LIFETIME, rp_key_id = 0\<rparr>;
                 r1 = r0\<lparr>lr_access_token := \<lparr>at_payload = ap, at_signature = sig\<rparr>,
                         lr_refresh_token := (lr_refresh_token r0)\<lparr>rt_payload := rp\<rparr>\<rparr>
             in case sd_auth S (enc_RefreshTokenPayload rp) (am_signing_key am) of
                  None \<Rightarrow> (r1, am1)
                | Some sig2 \<Rightarrow> (r1\<lparr>lr_refresh_token := \<lparr>rt_payload = rp, rt_signature = sig2\<rparr>, lr_valid := True\<rparr>, am1))"

definition ValidateAccessToken ::
  "sodium \<Rightarrow> u64 \<Rightarrow> bytes \<Rightarrow> nat \<Rightarrow> AuthManager \<Rightarrow> AccessTokenPayload option" where
  "ValidateAccessToken S now token_data len am =
     (if len \<noteq> sizeof_AccessToken then None
      else
        let bytes = take sizeof_AccessTokenPayload token_data;
            signature = segment sizeof_AccessTokenPayload crypto_auth_BYTES token_data;
            payload = dec_AccessTokenPayload bytes
        in if \<not> sd_auth_verify S signature bytes (am_signing_key am) then None
           else if ap_expiry payload \<le> now then None
           else if ap_key_id payload \<noteq> 0 then None
           else Some payload)"

definition ValidateRefreshToken ::
  "sodium \<Rightarrow> u64 \<Rightarrow> bytes \<Rightarrow> nat \<Rightarrow> AuthManager \<Rightarrow> RefreshTokenPayload option" where
  "ValidateRefreshToken S now token_data len am =
     (if len \<noteq> sizeof_RefreshToken then None
      else
        let bytes = take sizeof_RefreshTokenPayload token_data;
            signature = segment sizeof_RefreshTokenPayload crypto_auth_BYTES token_data;
            payload = dec_RefreshTokenPayload bytes
        in if \<not> sd_auth_verify S signature bytes (am_signing_key am) then None
           else if rp_expiry payload \<le> now then None
           else if rp_key_id payload \<noteq> 0 then None
           else Some payload)"

section \<open>Sessions and answers\<close>

definition ValidateSessionHotPath :: "u64 \<Rightarrow> Session \<Rightarrow> bool" where
  "ValidateSessionHotPath now se \<longleftrightarrow> se_auth_state se = AUTHENTICATED \<and> now < se_cached_expiry se"

definition CacheAuthOnSession :: "sodium \<Rightarrow> bytes \<Rightarrow> u64 \<Rightarrow> Session \<Rightarrow> Session" where
  "CacheAuthOnSession S user_id expiry se =
     se\<lparr>se_cached_user_id := take 16 user_id, se_cached_expiry := expiry, se_auth_state := AUTHENTICATED,
        se_userId := UserIdToHexString S user_id\<rparr>"

definition cache_auth :: "sodium \<Rightarrow> nat \<Rightarrow> bytes \<Rightarrow> u64 \<Rightarrow> 'z net_state_scheme \<Rightarrow> 'z net_state_scheme" where
  "cache_auth S i user_id expiry st = set_session i (CacheAuthOnSession S user_id expiry (session_at i st)) st"

text \<open>
  The shape of every answer to the sender of a packet: a packet is taken from the pool, filled, marked
  as one that bypasses the queues, and sent; when the send is refused it goes back to the pool.
\<close>

definition send_answer ::
  "(nat \<Rightarrow> bool) \<Rightarrow> nat \<Rightarrow> (Packet \<Rightarrow> Packet) \<Rightarrow> 'z net_state_scheme \<Rightarrow> 'z net_state_scheme res" where
  "send_answer wsa i fill st =
     (if \<not> se_iocp (session_at i st) then Inr st
      else bind_res (borrow_packet st) (\<lambda>(r, st1).
        case r of None \<Rightarrow> Inr st1
        | Some a \<Rightarrow>
            let st2 = set_packet a ((fill (packet_at a st1))\<lparr>bypassQueue := True\<rparr>) st1 in
            bind_res (sendPacket wsa i a (se_socket (session_at i st2)) st2) (\<lambda>(ok, st3).
              Inr (if ok then st3 else return_packet a st3))))"

definition SendAuthFailure ::
  "(nat \<Rightarrow> bool) \<Rightarrow> nat \<Rightarrow> string \<Rightarrow> 'z net_state_scheme \<Rightarrow> 'z net_state_scheme res" where
  "SendAuthFailure wsa i reason = send_answer wsa i (\<lambda>p. snd (serializeString PKT_AUTH_FAIL reason p))"

definition SendTokenGranted ::
  "(nat \<Rightarrow> bool) \<Rightarrow> nat \<Rightarrow> LoginResult \<Rightarrow> 'z net_state_scheme \<Rightarrow> 'z net_state_scheme res" where
  "SendTokenGranted wsa i tokens = send_answer wsa i (\<lambda>p. snd (serializeToken PKT_TOKEN_GRANTED
     (enc_AccessToken (lr_access_token tokens)) (enc_RefreshToken (lr_refresh_token tokens)) p))"

section \<open>Login\<close>

definition ProcessLogin ::
  "(nat \<Rightarrow> bool) \<Rightarrow> sodium \<Rightarrow> u64 \<Rightarrow> string \<Rightarrow> string \<Rightarrow> nat \<Rightarrow> 'z auth_state_scheme \<Rightarrow>
     (AuthResult \<times> 'z auth_state_scheme) res" where
  "ProcessLogin wsa S now identifier password i st =
     (let us = am_user_store (st_auth st);
          record_opt = (case FindByEmail identifier us of Some r \<Rightarrow> Some r | None \<Rightarrow> FindByUsername identifier us);
          fails = (\<lambda>reason result st'. bind_res (SendAuthFailure wsa i reason st') (\<lambda>st''. Inr (result, st'')))
      in case record_opt of
           None \<Rightarrow> fails ''Invalid credentials'' INVALID_CREDENTIALS st
         | Some r \<Rightarrow>
             if \<not> ur_email_verified r then fails ''Email not verified'' EMAIL_NOT_VERIFIED st
             else if \<not> sd_pwhash_str_verify S (ur_password_hash r) password
               then fails ''Invalid credentials'' INVALID_CREDENTIALS st
             else
               let (tokens, am1) = IssueTokenPair S now (ur_user_id r) (st_auth st) in
               if \<not> lr_valid tokens then fails ''Internal error'' INTERNAL_ERROR (st\<lparr>st_auth := am1\<rparr>)
               else
                 let family = \<lparr>fr_family_id = rp_family_id (rt_payload (lr_refresh_token tokens)),
                               fr_user_id = ur_user_id r, fr_current_token_id = 1, fr_revoked = False\<rparr>;
                     am2 = am1\<lparr>am_family_store := Insert_family family (am_family_store am1)\<rparr>;
                     st1 = cache_auth S i (ur_user_id r) (ap_expiry (at_payload (lr_access_token tokens))) (st\<lparr>st_auth := am2\<rparr>)
                 in bind_res (SendTokenGranted wsa i tokens st1) (\<lambda>st2. Inr (SUCCESS, st2)))"

definition HandleLoginPacket ::
  "(nat \<Rightarrow> bool) \<Rightarrow> sodium \<Rightarrow> u64 \<Rightarrow> nat \<Rightarrow> nat \<Rightarrow> 'z auth_state_scheme \<Rightarrow> (bool \<times> 'z auth_state_scheme) res" where
  "HandleLoginPacket wsa S now a i st =
     (let p = packet_at a st;
          loginData = dec_LoginPayload (getPayloadRaw p);
          idLen = unat (lg_identifier_len loginData); passLen = unat (lg_password_len loginData);
          strData = HEADER_SIZE + sizeof_LoginPayload
      in bind_res (read_bytes strData idLen (data p)) (\<lambda>id_bytes.
         bind_res (read_bytes (strData + idLen) passLen (data p)) (\<lambda>pw_bytes.
         let identifier = bytes_str id_bytes; password = bytes_str pw_bytes; st1 = return_packet a st in
         if identifier = [] \<or> password = []
         then bind_res (SendAuthFailure wsa i ''Missing credentials'' st1) (\<lambda>st2. Inr (False, st2))
         else bind_res (ProcessLogin wsa S now identifier password i st1) (\<lambda>(result, st2). Inr (result = SUCCESS, st2)))))"

definition HandleTokenPacket ::
  "(nat \<Rightarrow> bool) \<Rightarrow> sodium \<Rightarrow> u64 \<Rightarrow> u64 \<Rightarrow> nat \<Rightarrow> nat \<Rightarrow> 'z auth_state_scheme \<Rightarrow> (bool \<times> 'z auth_state_scheme) res" where
  "HandleTokenPacket wsa S now now' a i st =
     (let p = packet_at a st;
          valid = ValidateAccessToken S now (getPayloadRaw p) (unat (payload_length (header p))) (st_auth st);
          st1 = return_packet a st;
          fails = (\<lambda>reason st'. bind_res (SendAuthFailure wsa i reason st') (\<lambda>st''. Inr (False, st'')))
      in case valid of
           None \<Rightarrow> fails ''Invalid or expired access token'' st1
         | Some payload \<Rightarrow>
             let st2 = cache_auth S i (ap_user_id payload) (ap_expiry payload) st1;
                 (tokens, am1) = IssueTokenPair S now' (ap_user_id payload) (st_auth st2);
                 st3 = st2\<lparr>st_auth := am1\<rparr>
             in if lr_valid tokens then bind_res (SendTokenGranted wsa i tokens st3) (\<lambda>st4. Inr (True, st4))
                else fails ''Token generation failed'' st3)"

definition HandleRefreshPacket ::
  "(nat \<Rightarrow> bool) \<Rightarrow> sodium \<Rightarrow> u64 \<Rightarrow> u64 \<Rightarrow> nat \<Rightarrow> nat \<Rightarrow> 'z auth_state_scheme \<Rightarrow> (bool \<times> 'z auth_state_scheme) res" where
  "HandleRefreshPacket wsa S now now' a i st =
     (let p = packet_at a st;
          valid = ValidateRefreshToken S now (getPayloadRaw p) (unat (payload_length (header p))) (st_auth st);
          st1 = return_packet a st;
          fails = (\<lambda>reason st'. bind_res (SendAuthFailure wsa i reason st') (\<lambda>st''. Inr (False, st'')))
      in case valid of
           None \<Rightarrow> fails ''Invalid or expired refresh token'' st1
         | Some payload \<Rightarrow>
             let (family_valid, fs) = AdvanceTokenId (rp_family_id payload) (rp_token_id payload) (am_family_store (st_auth st1));
                 st2 = st1\<lparr>st_auth := (st_auth st1)\<lparr>am_family_store := fs\<rparr>\<rparr>
             in if \<not> family_valid
                then fails (''Refresh token revoked '' @ [CHR 0xE2, CHR 0x80, CHR 0x94] @ '' re-login required'')
                       (set_session i ((session_at i st2)\<lparr>se_auth_state := UNAUTHENTICATED, se_cached_expiry := 0\<rparr>) st2)
                else
                  let (tokens, am1) = IssueTokenPair S now' (rp_user_id payload) (st_auth st2);
                      st3 = st2\<lparr>st_auth := am1\<rparr>
                  in if \<not> lr_valid tokens then fails ''Token generation failed'' st3
                     else bind_res (SendTokenGranted wsa i tokens
                            (cache_auth S i (rp_user_id payload) (ap_expiry (at_payload (lr_access_token tokens))) st3))
                            (\<lambda>st4. Inr (True, st4)))"

section \<open>Registration\<close>

text \<open>\<open>memcpy\<close> of at most one byte less than the array, which starts out zero.\<close>

definition copy_truncated :: "nat \<Rightarrow> string \<Rightarrow> bytes" where
  "copy_truncated n s = take (n - 1) (str_bytes s) @ replicate (n - length (take (n - 1) (str_bytes s))) 0"

definition RegisterUser :: "sodium \<Rightarrow> string \<Rightarrow> string \<Rightarrow> string \<Rightarrow> AuthManager \<Rightarrow> AuthResult \<times> AuthManager" where
  "RegisterUser S username password email am =
     (let e = am_entropy am;
          r = new_UserRecord\<lparr>ur_user_id := sd_randombytes_buf S e 16, ur_username := copy_truncated 32 username,
                ur_email := copy_truncated 64 email\<rparr>;
          am1 = am\<lparr>am_entropy := Suc (Suc e)\<rparr>
      in case sd_pwhash_str S (Suc e) password of
           None \<Rightarrow> (INTERNAL_ERROR, am1)
         | Some h \<Rightarrow>
             let (ok, us) = Insert_user S (r\<lparr>ur_password_hash := h, ur_email_verified := False,
                   ur_phone_discoverable := False, ur_phone_hash := replicate 32 0\<rparr>) (am_user_store am1)
             in (if ok then SUCCESS else INVALID_CREDENTIALS, am1\<lparr>am_user_store := us\<rparr>))"

definition VerifyUserEmail :: "sodium \<Rightarrow> bytes \<Rightarrow> AuthManager \<Rightarrow> bool \<times> AuthManager" where
  "VerifyUserEmail S user_id am =
     (let (ok, us) = SetEmailVerified S user_id (am_user_store am) in (ok, am\<lparr>am_user_store := us\<rparr>))"

definition AddUserRecord :: "sodium \<Rightarrow> UserRecord \<Rightarrow> AuthManager \<Rightarrow> bool \<times> AuthManager" where
  "AddUserRecord S r am = (let (ok, us) = Insert_user S r (am_user_store am) in (ok, am\<lparr>am_user_store := us\<rparr>))"

text \<open>The records of the table on disk.\<close>

record userInfo =
  uf_user_id :: bytes
  uf_username :: bytes
  uf_password_hash :: bytes
  uf_email :: bytes
  uf_email_verified :: bool
  uf_phone_hash :: bytes
  uf_phone_discoverable :: bool
  uf_is_deleted :: bool
  uf_checksum :: u32

definition user_of_info :: "userInfo \<Rightarrow> UserRecord" where
  "user_of_info u = \<lparr>ur_user_id = uf_user_id u, ur_username = uf_username u,
     ur_password_hash = (uf_password_hash u)[crypto_pwhash_STRBYTES - 1 := 0], ur_email = uf_email u,
     ur_email_verified = uf_email_verified u, ur_phone_hash = uf_phone_hash u,
     ur_phone_discoverable = uf_phone_discoverable u\<rparr>"

definition LoadUsersFromDatabase :: "sodium \<Rightarrow> userInfo list \<Rightarrow> AuthManager \<Rightarrow> nat \<times> AuthManager" where
  "LoadUsersFromDatabase S dbRecords am =
     foldl (\<lambda>(n, m) u. let (ok, m') = AddUserRecord S (user_of_info u) m in (if ok then Suc n else n, m')) (0, am) dbRecords"

section \<open>Tokens round-trip\<close>

lemma IssueTokenPair_valid:
  assumes "IssueTokenPair S now user_id am = (tokens, am1)" "lr_valid tokens"
  obtains sig sig2 where
    "lr_access_token tokens = \<lparr>at_payload = \<lparr>ap_user_id = take 16 user_id, ap_issued_at = now,
        ap_expiry = now + ACCESS_TOKEN_LIFETIME, ap_key_id = 0\<rparr>, at_signature = sig\<rparr>"
    "lr_refresh_token tokens = \<lparr>rt_payload = \<lparr>rp_user_id = take 16 user_id, rp_family_id = am_next_family_id am,
        rp_token_id = 1, rp_expiry = now + REFRESH_TOKEN_LIFETIME, rp_key_id = 0\<rparr>, rt_signature = sig2\<rparr>"
    "sd_auth S (enc_AccessTokenPayload (at_payload (lr_access_token tokens))) (am_signing_key am) = Some sig"
    "sd_auth S (enc_RefreshTokenPayload (rt_payload (lr_refresh_token tokens))) (am_signing_key am) = Some sig2"
    "am1 = am\<lparr>am_next_family_id := am_next_family_id am + 1\<rparr>"
  using assms by (auto simp: IssueTokenPair_def Let_def new_LoginResult_def split: option.splits)

text \<open>The payloads a pair carries, and what validation makes of them.\<close>

lemma validate_access:
  assumes "length (ap_user_id p) = 16" "length sig = crypto_auth_BYTES"
    "sd_auth_verify S sig (enc_AccessTokenPayload p) (am_signing_key am)" "ap_key_id p = 0"
  shows "ValidateAccessToken S t (enc_AccessTokenPayload p @ sig @ rest) sizeof_AccessToken am =
    (if t < ap_expiry p then Some p else None)"
proof -
  have l: "length (enc_AccessTokenPayload p) = sizeof_AccessTokenPayload" using ap_struct.enc_length assms(1) by blast
  have "dec_AccessTokenPayload (enc_AccessTokenPayload p) = p" using ap_struct.dec_enc [of p "[]"] assms(1) by simp
  then show ?thesis
    using assms l by (auto simp: ValidateAccessToken_def segment_def Let_def not_less)
qed

lemma validate_refresh:
  assumes "length (rp_user_id p) = 16" "length sig = crypto_auth_BYTES"
    "sd_auth_verify S sig (enc_RefreshTokenPayload p) (am_signing_key am)" "rp_key_id p = 0"
  shows "ValidateRefreshToken S t (enc_RefreshTokenPayload p @ sig @ rest) sizeof_RefreshToken am =
    (if t < rp_expiry p then Some p else None)"
proof -
  have l: "length (enc_RefreshTokenPayload p) = sizeof_RefreshTokenPayload" using rp_struct.enc_length assms(1) by blast
  have "dec_RefreshTokenPayload (enc_RefreshTokenPayload p) = p" using rp_struct.dec_enc [of p "[]"] assms(1) by simp
  then show ?thesis
    using assms l by (auto simp: ValidateRefreshToken_def segment_def Let_def not_less)
qed

lemma issued_tokens:
  assumes S: "sodium_auth_ok S" and u: "length user_id = 16"
    and tok: "IssueTokenPair S now user_id am = (tokens, am1)" "lr_valid tokens"
    and key: "am_signing_key am2 = am_signing_key am"
  shows "ValidateAccessToken S t (enc_AccessToken (lr_access_token tokens) @ rest) sizeof_AccessToken am2 =
      (if t < now + ACCESS_TOKEN_LIFETIME then Some (at_payload (lr_access_token tokens)) else None)"
    "ValidateRefreshToken S t (enc_RefreshToken (lr_refresh_token tokens) @ rest) sizeof_RefreshToken am2 =
      (if t < now + REFRESH_TOKEN_LIFETIME then Some (rt_payload (lr_refresh_token tokens)) else None)"
    "ap_user_id (at_payload (lr_access_token tokens)) = user_id"
    "rp_user_id (rt_payload (lr_refresh_token tokens)) = user_id"
    "rp_family_id (rt_payload (lr_refresh_token tokens)) = am_next_family_id am"
    "rp_token_id (rt_payload (lr_refresh_token tokens)) = 1"
    "length (enc_AccessToken (lr_access_token tokens)) = sizeof_AccessToken"
    "length (enc_RefreshToken (lr_refresh_token tokens)) = sizeof_RefreshToken"
proof -
  obtain sig sig2 where P: "lr_access_token tokens = \<lparr>at_payload = \<lparr>ap_user_id = take 16 user_id, ap_issued_at = now,
        ap_expiry = now + ACCESS_TOKEN_LIFETIME, ap_key_id = 0\<rparr>, at_signature = sig\<rparr>"
    "lr_refresh_token tokens = \<lparr>rt_payload = \<lparr>rp_user_id = take 16 user_id, rp_family_id = am_next_family_id am,
        rp_token_id = 1, rp_expiry = now + REFRESH_TOKEN_LIFETIME, rp_key_id = 0\<rparr>, rt_signature = sig2\<rparr>"
    and s: "sd_auth S (enc_AccessTokenPayload (at_payload (lr_access_token tokens))) (am_signing_key am) = Some sig"
    "sd_auth S (enc_RefreshTokenPayload (rt_payload (lr_refresh_token tokens))) (am_signing_key am) = Some sig2"
    by (rule IssueTokenPair_valid [OF tok]) (rule that)
  have v: "length sig = crypto_auth_BYTES" "length sig2 = crypto_auth_BYTES"
    "sd_auth_verify S sig (enc_AccessTokenPayload (at_payload (lr_access_token tokens))) (am_signing_key am2)"
    "sd_auth_verify S sig2 (enc_RefreshTokenPayload (rt_payload (lr_refresh_token tokens))) (am_signing_key am2)"
    using S s key by (auto simp: sodium_auth_ok_def)
  show "ValidateAccessToken S t (enc_AccessToken (lr_access_token tokens) @ rest) sizeof_AccessToken am2 =
      (if t < now + ACCESS_TOKEN_LIFETIME then Some (at_payload (lr_access_token tokens)) else None)"
    using validate_access [OF _ v(1) v(3)] u P(1) by (simp add: enc_AccessToken_def)
  show "ValidateRefreshToken S t (enc_RefreshToken (lr_refresh_token tokens) @ rest) sizeof_RefreshToken am2 =
      (if t < now + REFRESH_TOKEN_LIFETIME then Some (rt_payload (lr_refresh_token tokens)) else None)"
    using validate_refresh [OF _ v(2) v(4)] u P(2) by (simp add: enc_RefreshToken_def)
  show "length (enc_AccessToken (lr_access_token tokens)) = sizeof_AccessToken"
    "length (enc_RefreshToken (lr_refresh_token tokens)) = sizeof_RefreshToken"
    using P v(1,2) u ap_struct.enc_length rp_struct.enc_length
    by (simp_all add: enc_AccessToken_def enc_RefreshToken_def sizeof_AccessToken_def sizeof_RefreshToken_def)
  show "ap_user_id (at_payload (lr_access_token tokens)) = user_id"
    "rp_user_id (rt_payload (lr_refresh_token tokens)) = user_id"
    "rp_family_id (rt_payload (lr_refresh_token tokens)) = am_next_family_id am"
    "rp_token_id (rt_payload (lr_refresh_token tokens)) = 1"
    using P u by simp_all
qed

text \<open>
  C8. The tokens of a pair are accepted exactly until they expire, whatever follows them in the buffer,
  by every manager with the same signing key: the access token for 15 minutes and the refresh token for
  30 days from the time of issue. Validation returns the user id they were issued for.
\<close>

theorem issued_tokens_validate:
  assumes "sodium_auth_ok S" "length user_id = 16"
    and "IssueTokenPair S now user_id am = (tokens, am1)" "lr_valid tokens"
    and "am_signing_key am2 = am_signing_key am"
  shows "ValidateAccessToken S t (enc_AccessToken (lr_access_token tokens) @ rest) sizeof_AccessToken am2 =
      (if t < now + 900 then Some (at_payload (lr_access_token tokens)) else None) \<and>
    ap_user_id (at_payload (lr_access_token tokens)) = user_id \<and>
    ValidateRefreshToken S t (enc_RefreshToken (lr_refresh_token tokens) @ rest) sizeof_RefreshToken am2 =
      (if t < now + 2592000 then Some (rt_payload (lr_refresh_token tokens)) else None) \<and>
    rp_user_id (rt_payload (lr_refresh_token tokens)) = user_id"
  using issued_tokens [OF assms] unfolding ACCESS_TOKEN_LIFETIME_def REFRESH_TOKEN_LIFETIME_def by blast

theorem issued_tokens_validate_witness:
  "\<exists>p. ValidateAccessToken example_sodium 5
     (enc_AccessToken (lr_access_token (fst (IssueTokenPair example_sodium 0 (replicate 16 9) (new_AuthManager example_sodium 0)))))
     65 (new_AuthManager example_sodium 0) = Some p \<and> ap_user_id p = replicate 16 9"
proof -
  let ?r = "IssueTokenPair example_sodium 0 (replicate 16 9) (new_AuthManager example_sodium 0)"
  have v: "lr_valid (fst ?r)" by (simp add: IssueTokenPair_def example_sodium_def Let_def)
  have "IssueTokenPair example_sodium 0 (replicate 16 9) (new_AuthManager example_sodium 0) = (fst ?r, snd ?r)" by simp
  from issued_tokens_validate [OF example_sodium_ok(2) _ this v refl, of 5 "[]"] show ?thesis
    by (simp add: sizeof_AccessToken_def sizeof_AccessTokenPayload_def crypto_auth_BYTES_def)
qed

section \<open>Answers\<close>

definition held :: "nat \<Rightarrow> 'z net_state_scheme \<Rightarrow> bool" where
  "held a st \<longleftrightarrow> a < PACKET_POOL_SIZE \<and> a \<notin> set (pp_availableIdx (n_packets st))"

text \<open>A way to fill a packet that leaves a well-formed frame in it.\<close>

definition fills :: "(Packet \<Rightarrow> Packet) \<Rightarrow> bool" where
  "fills fill \<longleftrightarrow> (\<forall>p. wf_packet p \<longrightarrow> wf_packet (fill p) \<and> pkt_id (fill p) = pkt_id p \<and> unat (toCopy (fill p)) \<le> DATA_SIZE)"

lemma emits_fills:
  assumes "\<And>p. wf_packet p \<Longrightarrow> emits type payload p (f p)"
  shows "fills (\<lambda>p. snd (f p))"
proof -
  have "wf_packet (snd (f p)) \<and> pkt_id (snd (f p)) = pkt_id p \<and> unat (toCopy (snd (f p))) \<le> DATA_SIZE" if "wf_packet p" for p
  proof -
    have h: "holds_frame type payload (snd (f p))" "pkt_id (snd (f p)) = pkt_id p"
      using assms [OF that] by (simp_all add: emits_def)
    then show ?thesis using holds_frame_toCopy [OF h(1)] by (simp add: holds_frame_def wf_packet_def)
  qed
  then show ?thesis by (simp add: fills_def)
qed

lemma SendAuthFailure_fills: "length reason \<le> 4078 \<Longrightarrow> fills (\<lambda>p. snd (serializeString PKT_AUTH_FAIL reason p))"
  by (rule emits_fills, rule serializeString_emits)

lemma SendTokenGranted_fills:
  "length a + length b \<le> 4076 \<Longrightarrow> fills (\<lambda>p. snd (serializeToken PKT_TOKEN_GRANTED a b p))"
  by (rule emits_fills, rule serializeToken_emits)

lemma send_answer_ok:
  assumes inv: "net_inv st" and io: "ic_free (n_io st) \<noteq> []" and fill: "fills fill"
  shows "\<exists>st'. send_answer wsa i fill st = Inr st' \<and> net_inv st' \<and> same_connections st st'"
proof (cases "se_iocp (session_at i st)")
  case True
  show ?thesis
    using inv
  proof (cases rule: borrow_packet_cases)
    case none
    then show ?thesis using True inv by (simp add: send_answer_def)
  next
    case (some a as st1)
    let ?p = "(fill (packet_at a st1))\<lparr>bypassQueue := True\<rparr>"
    let ?st = "set_packet a ?p st1"
    have s1: "session_at i st1 = session_at i st" using some(7) by (simp add: session_at_def same_connections_def)
    have wf: "wf_packet (packet_at a st1)"
      using some(3,5) pp_invD(5) by (auto simp: wf_packet_def packet_at_def net_inv_def)
    have F: "wf_packet (fill (packet_at a st1))" "pkt_id (fill (packet_at a st1)) = pkt_id (packet_at a st1)"
      "unat (toCopy (fill (packet_at a st1))) \<le> DATA_SIZE"
      using fill wf by (auto simp: fills_def)
    have inv2: "net_inv ?st" using set_packet_ok [OF some(3)] F by (simp add: wf_packet_def)
    have tc: "unat (toCopy (packet_at a ?st)) \<le> DATA_SIZE"
      using F(3) packet_at_set_packet(1) [OF some(3,5)] by (simp add: toCopy_def)
    obtain k ks where k: "ic_free (n_io ?st) = k # ks" using io some(8) by (auto simp: neq_Nil_conv)
    obtain st3 where st3: "initiateSend wsa (se_socket (session_at i ?st)) a ?st = Inr (wsa (n_calls ?st), st3)"
      "net_inv st3" "same_connections ?st st3" "pp_availableIdx (n_packets st3) = pp_availableIdx (n_packets ?st)"
      using initiateSend_spec [OF inv2 some(5) tc k] by blast
    have c: "same_connections st st3"
      using some(7) st3(3) same_connections_trans set_packet_fields(1) by blast
    have r: "send_answer wsa i fill st = Inr (if wsa (n_calls ?st) then st3 else return_packet a st3)"
      using True some(2) st3(1) s1 by (simp add: send_answer_def sendPacket_def Let_def)
    have "net_inv (return_packet a st3)"
      using return_packet_ok(1) [OF st3(2) some(5)] st3(4) some(4,6) by simp
    then show ?thesis
      using r st3(2) c same_connections_trans [OF c return_packet_fields(1)] by simp
  qed
next
  case False
  then show ?thesis using inv by (simp add: send_answer_def)
qed

lemma SendAuthFailure_ok:
  assumes "net_inv st" "ic_free (n_io st) \<noteq> []" "length reason \<le> 4078"
  shows "\<exists>st'. SendAuthFailure wsa i reason st = Inr st' \<and> net_inv st' \<and> same_connections st st'"
  using send_answer_ok [OF assms(1,2) SendAuthFailure_fills [OF assms(3)]] by (simp add: SendAuthFailure_def)

lemma SendTokenGranted_ok:
  assumes "net_inv st" "ic_free (n_io st) \<noteq> []"
    "length (enc_AccessToken (lr_access_token tokens)) + length (enc_RefreshToken (lr_refresh_token tokens)) \<le> 4076"
  shows "\<exists>st'. SendTokenGranted wsa i tokens st = Inr st' \<and> net_inv st' \<and> same_connections st st'"
  using send_answer_ok [OF assms(1,2) SendTokenGranted_fills [OF assms(3)]] by (simp add: SendTokenGranted_def)

text \<open>What an answer leaves alone, on the larger states.\<close>

lemma same_connections_auth:
  fixes st :: "'z auth_state_scheme"
  assumes "same_connections st st'"
  shows "st_auth st' = st_auth st" "session_at i st' = session_at i st" "queue_per_client st' = queue_per_client st"
    "sm_sessions st' = sm_sessions st" "sm_socketToUserId st' = sm_socketToUserId st"
proof -
  have "net_state.more st' = net_state.more st" "n_spool st' = n_spool st"
    using assms by (simp_all add: same_connections_def)
  then show "st_auth st' = st_auth st" "session_at i st' = session_at i st" "queue_per_client st' = queue_per_client st"
    "sm_sessions st' = sm_sessions st" "sm_socketToUserId st' = sm_socketToUserId st"
    by (cases st; cases st'; simp add: session_at_def)+
qed

lemma set_session_ok:
  assumes "net_inv st" "se_id se = se_id (session_at i st)"
  shows "net_inv (set_session i se st)"
proof -
  have "se_id ((sp_pool (n_spool st))[i := se] ! j) = se_id (sp_pool (n_spool st) ! j)" for j
    using assms(2) by (cases "j = i"; cases "i < length (sp_pool (n_spool st))")
      (simp_all add: session_at_def list_update_beyond)
  then show ?thesis using assms(1) by (simp add: net_inv_def set_session_def sp_inv_def)
qed

lemma cache_auth_ok: "net_inv st \<Longrightarrow> net_inv (cache_auth S i uid e st)"
  unfolding cache_auth_def by (rule set_session_ok) (simp_all add: CacheAuthOnSession_def)

section \<open>The outcome of a login\<close>

definition find_user :: "string \<Rightarrow> UserStore \<Rightarrow> UserRecord option" where
  "find_user identifier us = (case FindByEmail identifier us of Some r \<Rightarrow> Some r | None \<Rightarrow> FindByUsername identifier us)"

lemma login_fails:
  fixes st :: "'z auth_state_scheme"
  assumes "net_inv st" "ic_free (n_io st) \<noteq> []" "length reason \<le> 4078"
  shows "\<exists>st'. bind_res (SendAuthFailure wsa i reason st) (\<lambda>st''. Inr (result, st'')) = Inr (result, st') \<and> net_inv st' \<and>
    session_at i st' = session_at i st \<and> st_auth st' = st_auth st"
  using SendAuthFailure_ok [OF assms, of wsa i] by (auto simp: same_connections_auth)

lemma IssueTokenPair_stores:
  assumes "IssueTokenPair S now u am = (tokens, am1)"
  shows "am_user_store am1 = am_user_store am" "am_family_store am1 = am_family_store am"
  using assms by (auto simp: IssueTokenPair_def Let_def split: option.splits)

lemma login_succeeds:
  fixes st :: "'z auth_state_scheme"
  assumes S: "sodium_auth_ok S" and inv: "net_inv st" "ic_free (n_io st) \<noteq> []" "i < SESSION_POOL_SIZE"
    and r: "length (ur_user_id r) = 16" "find_user identifier (am_user_store (st_auth st)) = Some r" "ur_email_verified r"
      "sd_pwhash_str_verify S (ur_password_hash r) password"
    and tok: "IssueTokenPair S now (ur_user_id r) (st_auth st) = (tokens, am1)" "lr_valid tokens"
  shows "\<exists>st'. ProcessLogin wsa S now identifier password i st = Inr (SUCCESS, st') \<and> net_inv st' \<and>
    session_at i st' = CacheAuthOnSession S (ur_user_id r) (now + ACCESS_TOKEN_LIFETIME) (session_at i st) \<and>
    live_id (am_family_store (st_auth st')) (am_next_family_id (st_auth st)) = Some 1"
proof -
  let ?family = "\<lparr>fr_family_id = rp_family_id (rt_payload (lr_refresh_token tokens)),
    fr_user_id = ur_user_id r, fr_current_token_id = 1, fr_revoked = False\<rparr>"
  let ?am = "am1\<lparr>am_family_store := Insert_family ?family (am_family_store am1)\<rparr>"
  let ?st = "cache_auth S i (ur_user_id r) (ap_expiry (at_payload (lr_access_token tokens))) (st\<lparr>st_auth := ?am\<rparr>)"
  note T = issued_tokens [OF S r(1) tok refl]
  have e: "ap_expiry (at_payload (lr_access_token tokens)) = now + ACCESS_TOKEN_LIFETIME"
    by (rule IssueTokenPair_valid [OF tok]) simp
  have "net_inv (st\<lparr>st_auth := ?am\<rparr>)" using inv(1) by (simp add: net_inv_def)
  then have i1: "net_inv ?st" by (rule cache_auth_ok)
  have io: "ic_free (n_io ?st) \<noteq> []" using inv(2) by (simp add: cache_auth_def set_session_def)
  have "length (enc_AccessToken (lr_access_token tokens)) + length (enc_RefreshToken (lr_refresh_token tokens)) \<le> 4076"
    using T(7,8) by (simp add: sizeof_AccessToken_def sizeof_RefreshToken_def sizeof_AccessTokenPayload_def
        sizeof_RefreshTokenPayload_def crypto_auth_BYTES_def)
  then obtain st' where st': "SendTokenGranted wsa i tokens ?st = Inr st'" "net_inv st'" "same_connections ?st st'"
    using SendTokenGranted_ok [OF i1 io] by blast
  have "i < length (sp_pool (n_spool st))" using inv(1,3) by (simp add: net_inv_def sp_inv_def)
  then have "session_at i st' = CacheAuthOnSession S (ur_user_id r) (now + ACCESS_TOKEN_LIFETIME) (session_at i st)"
    using same_connections_auth(2) [OF st'(3)] e by (simp add: cache_auth_def session_at_def set_session_def)
  moreover have "st_auth st' = ?am"
    using same_connections_auth(1) [OF st'(3)] by (simp add: cache_auth_def set_session_def)
  then have "live_id (am_family_store (st_auth st')) (am_next_family_id (st_auth st)) = Some 1"
    using T(5) by (simp add: live_id_def Insert_family_def)
  moreover have "ProcessLogin wsa S now identifier password i st = Inr (SUCCESS, st')"
    using r(2-4) tok st'(1) by (simp add: ProcessLogin_def find_user_def [symmetric] Let_def)
  ultimately show ?thesis using st'(2) by blast
qed

text \<open>
  C20. A login succeeds only with the verified address and the password of an existing user, found by
  address first and by user name otherwise. It then authenticates the session as that user for exactly
  15 minutes and opens a refresh family in which the first token is current. Every other outcome is one
  of the error results and changes neither the session nor the stores. Where the credentials are right
  and the tokens can be signed, the login succeeds.
\<close>

theorem login_outcome:
  fixes st :: "'z auth_state_scheme"
  assumes S: "sodium_auth_ok S" and inv: "net_inv st" "ic_free (n_io st) \<noteq> []" "i < SESSION_POOL_SIZE"
    and ids: "\<forall>r. find_user identifier (am_user_store (st_auth st)) = Some r \<longrightarrow> length (ur_user_id r) = 16"
  shows "\<exists>result st'. ProcessLogin wsa S now identifier password i st = Inr (result, st') \<and> net_inv st' \<and>
    (if \<exists>r. find_user identifier (am_user_store (st_auth st)) = Some r \<and> ur_email_verified r \<and>
          sd_pwhash_str_verify S (ur_password_hash r) password \<and> lr_valid (fst (IssueTokenPair S now (ur_user_id r) (st_auth st)))
     then result = SUCCESS \<and>
       (\<exists>r. find_user identifier (am_user_store (st_auth st)) = Some r \<and>
          se_userId (session_at i st') = UserIdToHexString S (ur_user_id r) \<and> se_cached_user_id (session_at i st') = ur_user_id r) \<and>
       (\<forall>t. ValidateSessionHotPath t (session_at i st') \<longleftrightarrow> t < now + 900) \<and>
       live_id (am_family_store (st_auth st')) (am_next_family_id (st_auth st)) = Some 1
     else result \<in> {INVALID_CREDENTIALS, EMAIL_NOT_VERIFIED, INTERNAL_ERROR} \<and> session_at i st' = session_at i st \<and>
       am_family_store (st_auth st') = am_family_store (st_auth st) \<and> am_user_store (st_auth st') = am_user_store (st_auth st))"
proof (cases "find_user identifier (am_user_store (st_auth st))")
  case None
  then show ?thesis
    using login_fails [OF inv(1,2), of "''Invalid credentials''" wsa i INVALID_CREDENTIALS]
    by (auto simp: ProcessLogin_def find_user_def [symmetric] Let_def)
next
  case (Some r)
  obtain tokens am1 where tok: "IssueTokenPair S now (ur_user_id r) (st_auth st) = (tokens, am1)" by fastforce
  have len: "length (ur_user_id r) = 16" using ids Some by simp
  consider "\<not> ur_email_verified r" | "ur_email_verified r" "\<not> sd_pwhash_str_verify S (ur_password_hash r) password"
    | "ur_email_verified r" "sd_pwhash_str_verify S (ur_password_hash r) password" "\<not> lr_valid tokens"
    | "ur_email_verified r" "sd_pwhash_str_verify S (ur_password_hash r) password" "lr_valid tokens" by blast
  then show ?thesis
  proof cases
    case 1
    then show ?thesis
      using Some login_fails [OF inv(1,2), of "''Email not verified''" wsa i EMAIL_NOT_VERIFIED]
      by (auto simp: ProcessLogin_def find_user_def [symmetric] Let_def)
  next
    case 2
    then show ?thesis
      using Some login_fails [OF inv(1,2), of "''Invalid credentials''" wsa i INVALID_CREDENTIALS]
      by (auto simp: ProcessLogin_def find_user_def [symmetric] Let_def)
  next
    case 3
    have "net_inv (st\<lparr>st_auth := am1\<rparr>)" "ic_free (n_io (st\<lparr>st_auth := am1\<rparr>)) \<noteq> []" using inv by (simp_all add: net_inv_def)
    then show ?thesis
      using 3 Some tok login_fails [of "st\<lparr>st_auth := am1\<rparr>" "''Internal error''" wsa i INTERNAL_ERROR]
        IssueTokenPair_stores [OF tok]
      by (auto simp: ProcessLogin_def find_user_def [symmetric] Let_def session_at_def)
  next
    case 4
    obtain st' where st': "ProcessLogin wsa S now identifier password i st = Inr (SUCCESS, st')" "net_inv st'"
      "session_at i st' = CacheAuthOnSession S (ur_user_id r) (now + ACCESS_TOKEN_LIFETIME) (session_at i st)"
      "live_id (am_family_store (st_auth st')) (am_next_family_id (st_auth st)) = Some 1"
      using login_succeeds [OF S inv len Some 4(1,2) tok 4(3)] by blast
    show ?thesis
      using st'(1,2,4) Some 4 tok len
      by (intro exI [of _ SUCCESS] exI [of _ st'])
        (simp add: st'(3) CacheAuthOnSession_def ValidateSessionHotPath_def ACCESS_TOKEN_LIFETIME_def)
  qed
qed

section \<open>Refreshing\<close>

text \<open>The packet in which a client presents a refresh token.\<close>

definition presents :: "bytes \<Rightarrow> Packet \<Rightarrow> bool" where
  "presents tok p \<longleftrightarrow> (\<exists>rest. getPayloadRaw p = tok @ rest) \<and> unat (payload_length (header p)) = length tok"

lemma refused_refresh:
  fixes st :: "'z auth_state_scheme"
  assumes inv: "net_inv st" "ic_free (n_io st) \<noteq> []" "held b st" and i: "i < SESSION_POOL_SIZE"
    and v: "ValidateRefreshToken S t (getPayloadRaw (packet_at b st)) (unat (payload_length (header (packet_at b st)))) (st_auth st) = Some payload"
    and f: "\<not> fst (AdvanceTokenId (rp_family_id payload) (rp_token_id payload) (am_family_store (st_auth st)))"
  shows "\<exists>st'. HandleRefreshPacket wsa S t t' b i st = Inr (False, st') \<and> net_inv st' \<and>
    se_auth_state (session_at i st') = UNAUTHENTICATED"
proof -
  obtain fs where fs: "AdvanceTokenId (rp_family_id payload) (rp_token_id payload) (am_family_store (st_auth st)) = (False, fs)"
    using f by (cases "AdvanceTokenId (rp_family_id payload) (rp_token_id payload) (am_family_store (st_auth st))") simp
  let ?st2 = "(return_packet b st)\<lparr>st_auth := (st_auth st)\<lparr>am_family_store := fs\<rparr>\<rparr>"
  let ?se = "(session_at i ?st2)\<lparr>se_auth_state := UNAUTHENTICATED, se_cached_expiry := 0\<rparr>"
  let ?st3 = "set_session i ?se ?st2"
  have a: "st_auth (return_packet b st) = st_auth st" by (simp add: return_packet_def)
  have "net_inv ?st2" using return_packet_ok(1) [OF inv(1), of b] inv(1,3) by (simp add: held_def net_inv_def)
  then have i3: "net_inv ?st3" by (rule set_session_ok) simp
  have "ic_free (n_io ?st3) \<noteq> []" using inv(2) by (simp add: set_session_def)
  then obtain st' where st': "SendAuthFailure wsa i (''Refresh token revoked '' @ [CHR 0xE2, CHR 0x80, CHR 0x94] @ '' re-login required'') ?st3 = Inr st'"
    "net_inv st'" "same_connections ?st3 st'"
    using SendAuthFailure_ok [OF i3, of "''Refresh token revoked '' @ [CHR 0xE2, CHR 0x80, CHR 0x94] @ '' re-login required''" wsa i] by auto
  have "i < length (sp_pool (n_spool st))" using inv(1) i by (simp add: net_inv_def sp_inv_def)
  then have "se_auth_state (session_at i ?st3) = UNAUTHENTICATED"
    by (simp add: session_at_def set_session_def return_packet_def)
  then have "se_auth_state (session_at i st') = UNAUTHENTICATED" using same_connections_auth(2) [OF st'(3)] by simp
  then show ?thesis using v fs st' by (simp add: HandleRefreshPacket_def a Let_def)
qed

lemma accepted_refresh:
  fixes st :: "'z auth_state_scheme"
  assumes S: "sodium_auth_ok S" and inv: "net_inv st" "ic_free (n_io st) \<noteq> []" "held a st"
    and v: "ValidateRefreshToken S now (getPayloadRaw (packet_at a st)) (unat (payload_length (header (packet_at a st)))) (st_auth st) = Some payload"
    and u: "length (rp_user_id payload) = 16"
    and f: "AdvanceTokenId (rp_family_id payload) (rp_token_id payload) (am_family_store (st_auth st)) = (True, fs)"
    and tok: "IssueTokenPair S now' (rp_user_id payload) ((st_auth st)\<lparr>am_family_store := fs\<rparr>) = (tokens, am1)" "lr_valid tokens"
  shows "\<exists>st'. HandleRefreshPacket wsa S now now' a i st = Inr (True, st') \<and> net_inv st' \<and> st_auth st' = am1"
proof -
  let ?st2 = "(return_packet a st)\<lparr>st_auth := (st_auth st)\<lparr>am_family_store := fs\<rparr>\<rparr>"
  let ?st4 = "cache_auth S i (rp_user_id payload) (ap_expiry (at_payload (lr_access_token tokens))) (?st2\<lparr>st_auth := am1\<rparr>)"
  have a: "st_auth (return_packet a st) = st_auth st" by (simp add: return_packet_def)
  have "net_inv (?st2\<lparr>st_auth := am1\<rparr>)" using return_packet_ok(1) [OF inv(1), of a] inv(1,3) by (simp add: held_def net_inv_def)
  then have i4: "net_inv ?st4" by (rule cache_auth_ok)
  have io: "ic_free (n_io ?st4) \<noteq> []" using inv(2) by (simp add: cache_auth_def set_session_def)
  have "length (enc_AccessToken (lr_access_token tokens)) + length (enc_RefreshToken (lr_refresh_token tokens)) \<le> 4076"
    using issued_tokens(7,8) [OF S u tok refl]
    by (simp add: sizeof_AccessToken_def sizeof_RefreshToken_def sizeof_AccessTokenPayload_def
        sizeof_RefreshTokenPayload_def crypto_auth_BYTES_def)
  then obtain st' where st': "SendTokenGranted wsa i tokens ?st4 = Inr st'" "net_inv st'" "same_connections ?st4 st'"
    using SendTokenGranted_ok [OF i4 io] by blast
  have "st_auth st' = am1" using same_connections_auth(1) [OF st'(3)] by (simp add: cache_auth_def set_session_def)
  then show ?thesis using v f tok st' by (simp add: HandleRefreshPacket_def a Let_def)
qed

text \<open>
  C35. A refresh leaves the client with a refresh token that the server refuses. When a refresh token is
  valid and current, the handler grants a new pair, but the family of the new refresh token is never
  entered in the store: whenever the client later presents that token, however long before its expiry,
  the handler treats it as a reuse, answers that a new login is required and takes the authentication
  off the session.
\<close>

theorem refreshed_token_is_refused:
  fixes st :: "'z auth_state_scheme"
  assumes S: "sodium_auth_ok S" and inv: "net_inv st" "ic_free (n_io st) \<noteq> []" "held a st"
    and v: "ValidateRefreshToken S now (getPayloadRaw (packet_at a st)) (unat (payload_length (header (packet_at a st)))) (st_auth st) = Some payload"
    and u: "length (rp_user_id payload) = 16"
    and f: "AdvanceTokenId (rp_family_id payload) (rp_token_id payload) (am_family_store (st_auth st)) = (True, fs)"
    and tok: "IssueTokenPair S now' (rp_user_id payload) ((st_auth st)\<lparr>am_family_store := fs\<rparr>) = (tokens, am')" "lr_valid tokens"
    and fresh: "am_family_store (st_auth st) (am_next_family_id (st_auth st)) = None"
  shows "\<exists>st'. HandleRefreshPacket wsa S now now' a i st = Inr (True, st') \<and>
    (\<forall>st2 :: 'z auth_state_scheme. \<forall>b j t t'. st_auth st2 = st_auth st' \<and> net_inv st2 \<and> ic_free (n_io st2) \<noteq> [] \<and> held b st2 \<and>
       j < SESSION_POOL_SIZE \<and> t < now' + 2592000 \<and>
       presents (enc_RefreshToken (lr_refresh_token tokens)) (packet_at b st2) \<longrightarrow>
       (\<exists>st3. HandleRefreshPacket wsa S t t' b j st2 = Inr (False, st3) \<and>
          se_auth_state (session_at j st3) = UNAUTHENTICATED))"
proof -
  let ?fid = "am_next_family_id (st_auth st)"
  obtain st' where st': "HandleRefreshPacket wsa S now now' a i st = Inr (True, st')" "st_auth st' = am'"
    using accepted_refresh [OF S inv v u f tok] by blast
  have "rp_family_id payload \<noteq> ?fid" using f fresh by (auto simp: AdvanceTokenId_def split: option.splits)
  then have fs: "fs ?fid = None"
    using f fresh by (auto simp: AdvanceTokenId_def split: option.splits if_splits)
  have am': "am' = (st_auth st)\<lparr>am_family_store := fs, am_next_family_id := ?fid + 1\<rparr>"
    by (rule IssueTokenPair_valid [OF tok]) simp
  have key: "am_signing_key am' = am_signing_key ((st_auth st)\<lparr>am_family_store := fs\<rparr>)" by (simp add: am')
  note T = issued_tokens [OF S u tok key]
  have "\<exists>st3. HandleRefreshPacket wsa S t t' b j st2 = Inr (False, st3) \<and> se_auth_state (session_at j st3) = UNAUTHENTICATED"
    if h: "st_auth st2 = st_auth st'" "net_inv st2" "ic_free (n_io st2) \<noteq> []" "held b st2" "j < SESSION_POOL_SIZE"
      "t < now' + 2592000" "presents (enc_RefreshToken (lr_refresh_token tokens)) (packet_at b st2)"
    for st2 :: "'z auth_state_scheme" and b j t t'
  proof -
    have "ValidateRefreshToken S t (getPayloadRaw (packet_at b st2)) (unat (payload_length (header (packet_at b st2)))) (st_auth st2)
        = Some (rt_payload (lr_refresh_token tokens))"
      using h(1,6,7) st'(2) T(2) T(8) by (auto simp: presents_def REFRESH_TOKEN_LIFETIME_def)
    moreover have "\<not> fst (AdvanceTokenId (rp_family_id (rt_payload (lr_refresh_token tokens)))
        (rp_token_id (rt_payload (lr_refresh_token tokens))) (am_family_store (st_auth st2)))"
      using T(5) fs h(1) st'(2) by (simp add: am' AdvanceTokenId_def)
    ultimately show ?thesis using refused_refresh [OF h(2-5)] by blast
  qed
  then show ?thesis using st'(1) by blast
qed

text \<open>A server that has just started, with a given authentication manager.\<close>

definition fresh_auth :: "IOContextPool \<Rightarrow> AuthManager \<Rightarrow> auth_state" where
  "fresh_auth io am = \<lparr>n_packets = new_PacketPool, n_io = io, n_spool = new_SessionPool, n_calls = 0,
     n_posted = [], n_recvs = [], n_disconnectedSockets = {}, n_socketBuffers = Map.empty, n_closed = [],
     sm_sessions = Map.empty, sm_socketToUserId = Map.empty, queue_per_client = Map.empty, st_auth = am\<rparr>"

lemma fresh_auth_inv: "ic_inv io \<Longrightarrow> net_inv (fresh_auth io am)" "st_auth (fresh_auth io am) = am" "n_io (fresh_auth io am) = io"
  by (simp_all add: net_inv_def fresh_auth_def new_PacketPool_inv new_SessionPool_inv)

text \<open>A packet with a given payload in a server that has just started.\<close>

lemma fresh_auth_with_packet:
  assumes io: "ic_inv io" and len: "length payload \<le> 4080"
  obtains st :: auth_state and a where "net_inv st" "n_io st = io" "held a st" "st_auth st = am"
    "holds_frame type payload (packet_at a st)" "header (packet_at a st) = frame_header type payload"
    "n_spool st = new_SessionPool"
proof -
  note inv = fresh_auth_inv(1) [OF io, of am]
  have ne: "pp_availableIdx (n_packets (fresh_auth io am)) \<noteq> []"
    by (simp add: fresh_auth_def new_PacketPool_inv PACKET_POOL_SIZE_def)
  show thesis using inv
  proof (cases rule: borrow_packet_cases)
    case none
    with ne show thesis by simp
  next
    case (some a as st1)
    let ?r = "serializeRaw type (bytes_str payload) (packet_at a st1)"
    have wf: "wf_packet (packet_at a st1)"
      using some(3,5) pp_invD(5) by (auto simp: wf_packet_def packet_at_def net_inv_def)
    have e: "emits type payload (packet_at a st1) ?r"
      using serializeRaw_emits [OF wf, of "bytes_str payload" type] len by simp
    let ?st = "set_packet a (snd ?r) st1"
    have "net_inv ?st" using set_packet_ok [OF some(3)] e by (simp add: emits_def holds_frame_def)
    moreover have "held a ?st" using some(4-6) by (simp add: held_def)
    moreover have "st_auth ?st = am" "n_spool ?st = new_SessionPool"
      using same_connections_auth(1) [OF some(7)] some(7)
      by (simp_all add: fresh_auth_inv set_packet_def same_connections_def fresh_auth_def)
    moreover have "n_io ?st = io" using some(8) by (simp add: fresh_auth_inv)
    ultimately show thesis using that e packet_at_set_packet(1) [OF some(3,5)] by (simp add: emits_def)
  qed
qed

theorem refreshed_token_is_refused_witness:
  "\<exists>(st :: auth_state) st' a. HandleRefreshPacket (\<lambda>_. True) example_sodium 5 6 a 0 st = Inr (True, st')"
proof -
  let ?u = "replicate 16 (9 :: byte)"
  let ?am = "new_AuthManager example_sodium 0"
  let ?r = "IssueTokenPair example_sodium 0 ?u ?am"
  let ?fs = "[1 \<mapsto> \<lparr>fr_family_id = 1, fr_user_id = ?u, fr_current_token_id = 1, fr_revoked = False\<rparr>]"
  define am where "am = (snd ?r)\<lparr>am_family_store := ?fs\<rparr>"
  define tok where "tok = lr_refresh_token (fst ?r)"
  have v: "lr_valid (fst ?r)" by (simp add: IssueTokenPair_def example_sodium_def Let_def)
  have am: "am_next_family_id am = 2" "am_signing_key am = am_signing_key ?am" "am_family_store am = ?fs"
    by (simp_all add: am_def IssueTokenPair_def example_sodium_def Let_def new_AuthManager_def)
  have T: "length (enc_RefreshToken tok) = sizeof_RefreshToken" "rp_user_id (rt_payload tok) = ?u"
    "rp_family_id (rt_payload tok) = 1" "rp_token_id (rt_payload tok) = 1"
    "ValidateRefreshToken example_sodium 5 (enc_RefreshToken tok @ rest) sizeof_RefreshToken am = Some (rt_payload tok)" for rest
    using issued_tokens(2) [OF example_sodium_ok(2) _ prod.collapse [symmetric] v am(2), of 5 rest]
      issued_tokens(4-6,8) [OF example_sodium_ok(2) _ prod.collapse [symmetric] v am(2)]
    by (simp_all add: tok_def new_AuthManager_def REFRESH_TOKEN_LIFETIME_def)
  obtain io where io: "ic_inv io" "ic_free io = [0..<IO_POOL_SIZE]" using new_IOContextPool_inv by blast
  have len: "length (enc_RefreshToken tok) = 73"
    using T(1) by (simp add: sizeof_RefreshToken_def sizeof_RefreshTokenPayload_def crypto_auth_BYTES_def)
  obtain st :: auth_state and a where st: "net_inv st" "n_io st = io" "held a st" "st_auth st = am"
    "holds_frame PKT_REFRESH (enc_RefreshToken tok) (packet_at a st)"
    "header (packet_at a st) = frame_header PKT_REFRESH (enc_RefreshToken tok)"
    by (rule fresh_auth_with_packet [OF io(1), of "enc_RefreshToken tok" am PKT_REFRESH]) (simp add: len, rule that)
  have "unat (payload_length (header (packet_at a st))) = sizeof_RefreshToken"
    unfolding T(1) [symmetric] st(6) frame_header_def by (simp add: len)
  then have val: "ValidateRefreshToken example_sodium 5 (getPayloadRaw (packet_at a st))
      (unat (payload_length (header (packet_at a st)))) (st_auth st) = Some (rt_payload tok)"
    using T(5) st(4) holds_frame_payload [OF st(5)] by simp
  let ?fs2 = "snd (AdvanceTokenId 1 1 ?fs)"
  let ?r2 = "IssueTokenPair example_sodium 6 ?u ((st_auth st)\<lparr>am_family_store := ?fs2\<rparr>)"
  have adv: "AdvanceTokenId (rp_family_id (rt_payload tok)) (rp_token_id (rt_payload tok)) (am_family_store (st_auth st)) = (True, ?fs2)"
    using T(3,4) st(4) am(3) by (simp add: AdvanceTokenId_def)
  have v2: "lr_valid (fst ?r2)" by (simp add: IssueTokenPair_def example_sodium_def Let_def)
  have "ic_free (n_io st) \<noteq> []" using io(2) st(2) by (simp add: IO_POOL_SIZE_def)
  then show ?thesis
    using refreshed_token_is_refused [OF example_sodium_ok(2) st(1) _ st(3) val _ adv,
        where now' = 6 and tokens = "fst ?r2" and am' = "snd ?r2" and wsa = "\<lambda>_. True" and i = 0]
      v2 T(2) st(4) am(1,3) by auto
qed

theorem login_outcome_witness:
  "\<exists>(st :: auth_state) st'. ProcessLogin (\<lambda>_. True) example_sodium 7 ''a'' ''pw'' 0 st = Inr (SUCCESS, st')"
proof -
  let ?h = "take crypto_pwhash_STRBYTES (str_bytes ''pw'' @ replicate crypto_pwhash_STRBYTES 0)"
  let ?r = "new_UserRecord\<lparr>ur_email := str_bytes ''a'', ur_email_verified := True, ur_password_hash := ?h\<rparr>"
  let ?us = "\<lparr>us_records = [''k'' \<mapsto> ?r], us_email_to_uid = [''a'' \<mapsto> ''k''], us_username_to_uid = Map.empty\<rparr>"
  let ?am = "(new_AuthManager example_sodium 0)\<lparr>am_user_store := ?us\<rparr>"
  obtain io where io: "ic_inv io" "ic_free io = [0..<IO_POOL_SIZE]" using new_IOContextPool_inv by blast
  let ?st = "fresh_auth io ?am"
  have f: "find_user ''a'' (am_user_store (st_auth ?st)) = Some ?r"
    by (simp add: fresh_auth_inv find_user_def FindByEmail_def)
  have v: "sd_pwhash_str_verify example_sodium ?h ''pw''" "lr_valid (fst (IssueTokenPair example_sodium 7 u am))" for u am
    by (simp_all add: example_sodium_def IssueTokenPair_def Let_def)
  have "ic_free (n_io ?st) \<noteq> []" using io(2) by (simp add: fresh_auth_inv IO_POOL_SIZE_def)
  moreover have "0 < SESSION_POOL_SIZE" by (simp add: SESSION_POOL_SIZE_def)
  ultimately show ?thesis
    using login_outcome [OF example_sodium_ok(2) fresh_auth_inv(1) [OF io(1)], of ?am 0 "''a''" "\<lambda>_. True" 7 "''pw''"] f v
    by (auto simp: new_UserRecord_def)
qed

end
