(* ===== verification/Group_Messages.thy ===== *)
theory Group_Messages
  imports Auth_Manager Group_Manager
begin

text \<open>
  \<open>MessageRouter::routeGroupMessage\<close> of \<open>chat/MessageRouter.cpp\<close>: a message to a group is copied into
  one packet per member other than the sender, each of which goes to the outbox of that member.
\<close>

record grp_state = auth_state +
  st_groups :: GroupManager

text \<open>
  The loop over the members. \<open>size\<close> is \<open>packet->header.payload_length + HEADER_SIZE\<close>, a sum of 32-bit
  integers. The result says whether the loop ran to its end; it stops where the packet pool is empty.
\<close>

fun group_copies ::
  "(nat \<Rightarrow> bool) \<Rightarrow> Packet \<Rightarrow> string \<Rightarrow> string list \<Rightarrow> 'z off_state_scheme \<Rightarrow> (bool \<times> 'z off_state_scheme) res" where
  "group_copies wsa p sendId [] st = Inr (True, st)"
| "group_copies wsa p sendId (memberId # ms) st =
     (if memberId = sendId then group_copies wsa p sendId ms st
      else bind_res (borrow_packet st) (\<lambda>(r, st1).
        case r of
          None \<Rightarrow> Inr (False, st1)
        | Some b \<Rightarrow>
            let size = unat (payload_length (header p) + 16) in
            bind_res (read_bytes 0 size (data p)) (\<lambda>bs.
              if DATA_SIZE < size then Inl OutOfBounds
              else
                let out = packet_at b st1;
                    st2 = set_packet b (out\<lparr>data := blit (data out) 0 bs, header := header p, in_pos := size\<rparr>) st1
                in bind_res (ManageCompletePacket wsa b memberId st2) (group_copies wsa p sendId ms))))"

definition routeGroupMessage ::
  "(nat \<Rightarrow> bool) \<Rightarrow> sodium \<Rightarrow> nat \<Rightarrow> 'z grp_state_scheme \<Rightarrow> 'z grp_state_scheme res" where
  "routeGroupMessage wsa S a st =
     (let p = packet_at a st;
          payload = dec_ChatMessagePayload (getPayloadRaw p);
          recvId = UserIdToHexString S (cm_receiver_id payload);
          sendId = UserIdToHexString S (cm_sender_id payload)
      in case getGroup recvId (st_groups st) of
           None \<Rightarrow> Inr st
         | Some g \<Rightarrow>
             bind_res (group_copies wsa p sendId (members g) st) (\<lambda>(done, st1).
               Inr (if done then return_packet a st1 else st1)))"

end
