(* ===== verification/File_Transfer.thy ===== *)
theory File_Transfer
  imports Group_Messages
begin

text \<open>
  Uploads and downloads through the server: \<open>filetransfer/FileTransferManager.cpp\<close> and
  \<open>filetransfer/FIleDownload.cpp\<close>. A transfer state is an object on the heap, its pointer an address;
  the files are a map from paths to contents. Whether the system opens a file is the parameter
  \<open>can_open\<close>.
\<close>

section \<open>Names and ids\<close>

definition MAX_CHUNKS_PER_ROUND :: nat where "MAX_CHUNKS_PER_ROUND = 1024"
definition MAX_CHUNK_SIZE :: nat where "MAX_CHUNK_SIZE = 3840"

text \<open>
  \<open>std::filesystem::path(name).filename()\<close> on Windows: what follows the last separator, a drive letter
  with its colon at the start and a network name \<open>//server\<close> not being part of a file name.
\<close>

definition is_sep :: "char \<Rightarrow> bool" where
  "is_sep c \<longleftrightarrow> c = CHR ''/'' \<or> c = CHR 0x5C"

definition is_drive_letter :: "char \<Rightarrow> bool" where
  "is_drive_letter c \<longleftrightarrow> c \<in> set ''abcdefghijklmnopqrstuvwxyzABCDEFGHIJKLMNOPQRSTUVWXYZ''"

fun strip_root_name :: "string \<Rightarrow> string" where
  "strip_root_name (c # d # cs) =
     (if is_drive_letter c \<and> d = CHR '':'' then cs
      else if is_sep c \<and> is_sep d \<and> cs \<noteq> [] \<and> \<not> is_sep (hd cs) then dropWhile (\<lambda>x. \<not> is_sep x) cs
      else c # d # cs)"
| "strip_root_name cs = cs"

definition path_filename :: "string \<Rightarrow> string" where
  "path_filename name = rev (takeWhile (\<lambda>c. \<not> is_sep c) (rev (strip_root_name name)))"

definition sanitize :: "nat \<Rightarrow> string \<Rightarrow> string" where
  "sanitize now name =
     (let result = path_filename name in
      if result = [] \<or> result = ''.'' \<or> result = ''..'' then ''unnamed_'' @ to_string now else result)"

definition bytesToHex :: "bytes \<Rightarrow> string" where
  "bytesToHex bs = concat (map (\<lambda>b. [hex_digits ! unat (drop_bit 4 b), hex_digits ! unat (b AND 15)]) bs)"

text \<open>\<open>strtol\<close> of one character in base 16, for the characters \<open>isxdigit\<close> accepts.\<close>

definition hex_value :: "char \<Rightarrow> nat" where
  "hex_value c =
     (let n = of_char c :: nat in
      if n \<le> 57 then n - 48 else if n \<le> 70 then n - 55 else n - 87)"

definition isxdigit :: "char \<Rightarrow> bool" where
  "isxdigit c \<longleftrightarrow> c \<in> set ''0123456789abcdefABCDEF''"

fun hex_pairs :: "string \<Rightarrow> bytes" where
  "hex_pairs (c # d # cs) = of_nat (16 * hex_value c + hex_value d) # hex_pairs cs"
| "hex_pairs _ = []"

definition hexToBytes :: "string \<Rightarrow> bytes" where
  "hexToBytes str =
     (if length str = 32 \<and> (\<forall>c \<in> set str. isxdigit c) then hex_pairs str
      else take 16 (str_bytes str) @ replicate (16 - length str) 0)"

definition checkGrp :: "string \<Rightarrow> bool" where
  "checkGrp gid \<longleftrightarrow> 3 \<le> length gid \<and> take 3 gid = ''GRP''"

section \<open>State\<close>

record TransferState =
  ts_senderId :: string
  ts_receiverId :: string
  ts_uploadId :: string
  ts_fileName :: string
  ts_tempPath :: string
  ts_timestamp :: string
  ts_totalSize :: u64
  ts_receivedOffset :: u64
  ts_currentRound :: u32
  ts_roundReceivedCount :: u32
  ts_finalCrc :: u32
  ts_ackReceived :: bool
  ts_roundBuffer :: "bytes list"
  ts_roundOffsets :: "u64 list"
  ts_missingChunks :: "u32 list"
  ts_open :: bool

definition new_TransferState :: TransferState where
  "new_TransferState = \<lparr>ts_senderId = [], ts_receiverId = [], ts_uploadId = [], ts_fileName = [], ts_tempPath = [],
     ts_timestamp = [], ts_totalSize = 0, ts_receivedOffset = 0, ts_currentRound = 0, ts_roundReceivedCount = 0,
     ts_finalCrc = 0, ts_ackReceived = False, ts_roundBuffer = replicate MAX_CHUNKS_PER_ROUND [],
     ts_roundOffsets = replicate MAX_CHUNKS_PER_ROUND 0, ts_missingChunks = [], ts_open = False\<rparr>"

definition clearState :: "TransferState \<Rightarrow> TransferState" where
  "clearState ts = ts\<lparr>ts_roundReceivedCount := 0, ts_currentRound := 0, ts_receivedOffset := 0,
     ts_roundBuffer := [], ts_roundOffsets := [], ts_missingChunks := []\<rparr>"

record FileTransferManager =
  ft_heap :: "nat \<rightharpoonup> TransferState"
  ft_fresh :: nat
  ft_activeTransfers :: "string \<rightharpoonup> nat"
  ft_uploadIdToTransferState :: "string \<rightharpoonup> nat"
  ft_downloadableFiles :: "string \<rightharpoonup> nat"
  ft_completedUpload :: "nat MpscQueue"
  ft_files :: "string \<rightharpoonup> bytes"
  ft_threads :: "(string \<times> string \<times> string \<times> nat) list"
  ft_stopLoop :: bool

text \<open>The constructor, and what \<open>stopAllTransfers\<close> does once the thread of the links has ended.\<close>

definition new_FileTransferManager :: FileTransferManager where
  "new_FileTransferManager = \<lparr>ft_heap = Map.empty, ft_fresh = 0, ft_activeTransfers = Map.empty,
     ft_uploadIdToTransferState = Map.empty, ft_downloadableFiles = Map.empty, ft_completedUpload = new_mpsc,
     ft_files = Map.empty, ft_threads = [], ft_stopLoop = False\<rparr>"

definition close_transfers :: "FileTransferManager \<Rightarrow> FileTransferManager" where
  "close_transfers m =
     m\<lparr>ft_heap := ft_heap m |` (- ran (ft_activeTransfers m)), ft_activeTransfers := Map.empty,
       ft_uploadIdToTransferState := Map.empty\<rparr>"

record ft_state = grp_state +
  st_files :: FileTransferManager

definition upd_ft :: "(FileTransferManager \<Rightarrow> FileTransferManager) \<Rightarrow> 'z ft_state_scheme \<Rightarrow> 'z ft_state_scheme" where
  "upd_ft f st = st\<lparr>st_files := f (st_files st)\<rparr>"

definition set_ts :: "nat \<Rightarrow> TransferState \<Rightarrow> 'z ft_state_scheme \<Rightarrow> 'z ft_state_scheme" where
  "set_ts r ts = upd_ft (\<lambda>m. m\<lparr>ft_heap := (ft_heap m)(r \<mapsto> ts)\<rparr>)"

text \<open>\<open>saveDirectory + fileName + "_" + uploadId.substr(0, 10) + ".partial"\<close>\<close>

definition temp_path :: "string \<Rightarrow> string \<Rightarrow> string" where
  "temp_path fileName uploadId = ''./uploads/'' @ fileName @ ''_'' @ take 10 uploadId @ ''.partial''"

section \<open>Answers\<close>

text \<open>A packet is taken from the pool, without a test for the null pointer, filled and put into an outbox.\<close>

definition post ::
  "(nat \<Rightarrow> bool) \<Rightarrow> (Packet \<Rightarrow> Packet) \<Rightarrow> string \<Rightarrow> 'z off_state_scheme \<Rightarrow> 'z off_state_scheme res" where
  "post wsa fill recId st =
     bind_res (borrow_packet st) (\<lambda>(r, st1).
       case r of None \<Rightarrow> Inl NullDeref
       | Some a \<Rightarrow> ManageCompletePacket wsa a recId (set_packet a (fill (packet_at a st1)) st1))"

definition sendAck ::
  "(nat \<Rightarrow> bool) \<Rightarrow> string \<Rightarrow> u32 \<Rightarrow> u32 list \<Rightarrow> string \<Rightarrow> 'z off_state_scheme \<Rightarrow> 'z off_state_scheme res" where
  "sendAck wsa uploadId roundId missing recId =
     post wsa (\<lambda>p. snd (serializeFileAck (hexToBytes uploadId) roundId missing p)) recId"

definition sendFileStatus ::
  "(nat \<Rightarrow> bool) \<Rightarrow> string \<Rightarrow> bool \<Rightarrow> string \<Rightarrow> 'z off_state_scheme \<Rightarrow> 'z off_state_scheme res" where
  "sendFileStatus wsa uploadId success recId =
     post wsa (\<lambda>p. snd (serializeString PKT_FILE_STATUS (uploadId @ (if success then '' SUCCESS'' else '' FAILED'')) p)) recId"

definition SendErrorPacket ::
  "(nat \<Rightarrow> bool) \<Rightarrow> string \<Rightarrow> string \<Rightarrow> string \<Rightarrow> 'z off_state_scheme \<Rightarrow> 'z off_state_scheme res" where
  "SendErrorPacket wsa recId upId reason =
     post wsa (\<lambda>p. snd (serializeString PKT_FILE_ERROR (upId @ '' '' @ reason) p)) recId"

section \<open>Uploads\<close>

text \<open>Opening the partial file for appending creates it; the upload resumes at its current end.\<close>

definition start_transfer ::
  "string \<Rightarrow> string \<Rightarrow> string \<Rightarrow> string \<Rightarrow> u64 \<Rightarrow> u32 \<Rightarrow> FileTransferManager \<Rightarrow> u64 \<times> FileTransferManager" where
  "start_transfer senderId recId uploadId fileName totalSize finalCrc m =
     (let path = temp_path fileName uploadId;
          content = (case ft_files m path of Some c \<Rightarrow> c | None \<Rightarrow> []);
          resumeOffset = of_nat (length content) :: u64;
          ts = new_TransferState\<lparr>ts_senderId := senderId, ts_receiverId := recId, ts_uploadId := uploadId,
                 ts_fileName := fileName, ts_totalSize := totalSize, ts_finalCrc := finalCrc, ts_tempPath := path,
                 ts_open := True, ts_receivedOffset := resumeOffset,
                 ts_currentRound := of_nat (unat resumeOffset div (MAX_CHUNK_SIZE * MAX_CHUNKS_PER_ROUND))\<rparr>;
          r = ft_fresh m
      in (resumeOffset, m\<lparr>ft_heap := (ft_heap m)(r \<mapsto> ts), ft_fresh := Suc r, ft_files := (ft_files m)(path \<mapsto> content),
            ft_activeTransfers := (ft_activeTransfers m)(uploadId \<mapsto> r),
            ft_uploadIdToTransferState := (ft_uploadIdToTransferState m)(uploadId \<mapsto> r)\<rparr>))"

definition handleFileStart ::
  "(nat \<Rightarrow> bool) \<Rightarrow> (string \<Rightarrow> bool) \<Rightarrow> nat \<Rightarrow> nat \<Rightarrow> string \<Rightarrow> 'z ft_state_scheme \<Rightarrow> 'z ft_state_scheme res" where
  "handleFileStart wsa can_open now a senderId st =
     (let p = packet_at a st;
          payload = dec_FileStartPayload (getPayloadRaw p);
          recId = bytesToHex (fs_receiver_id payload);
          uploadId = bytesToHex (fs_upload_id payload)
      in bind_res (read_bytes (HEADER_SIZE + sizeof_FileStartPayload) (unat (fs_filename_len payload)) (data p)) (\<lambda>name.
           let fileName = sanitize now (bytes_str name); st1 = return_packet a st in
           if fs_total_size payload > 5242880 then SendErrorPacket wsa recId uploadId '' file is too big '' st1
           else if \<not> can_open (temp_path fileName uploadId) then Inr st1
           else
             let (resumeOffset, m) = start_transfer senderId recId uploadId fileName (fs_total_size payload)
                   (fs_final_crc payload) (st_files st1)
             in post wsa (\<lambda>q. snd (serializeFileStartResponse (hexToBytes uploadId) resumeOffset q)) senderId
                  (st1\<lparr>st_files := m\<rparr>)))"

definition getTransferState :: "string \<Rightarrow> FileTransferManager \<Rightarrow> nat option" where
  "getTransferState uploadId m = ft_uploadIdToTransferState m uploadId"

text \<open>Using a pointer to a state that has been deleted is a fault.\<close>

definition deref_ts :: "nat \<Rightarrow> FileTransferManager \<Rightarrow> TransferState res" where
  "deref_ts r m = (case ft_heap m r of None \<Rightarrow> Inl NullDeref | Some ts \<Rightarrow> Inr ts)"

text \<open>What a chunk that has passed its checksum does to the round's buffer.\<close>

definition store_chunk :: "u64 \<Rightarrow> bytes \<Rightarrow> TransferState \<Rightarrow> TransferState" where
  "store_chunk byteOffset chunk ts =
     (let i = (unat byteOffset div MAX_CHUNK_SIZE) mod MAX_CHUNKS_PER_ROUND in
      if length (ts_roundBuffer ts) \<le> i then ts
      else if ts_roundBuffer ts ! i \<noteq> [] then ts
      else ts\<lparr>ts_roundBuffer := (ts_roundBuffer ts)[i := chunk], ts_roundReceivedCount := ts_roundReceivedCount ts + 1\<rparr>)"

definition handleFileChunk :: "nat \<Rightarrow> 'z ft_state_scheme \<Rightarrow> 'z ft_state_scheme res" where
  "handleFileChunk a st =
     (let p = packet_at a st;
          payload = dec_FileChunkPayload (getPayloadRaw p);
          uploadId = bytesToHex (fc_upload_id payload)
      in bind_res (read_bytes (HEADER_SIZE + sizeof_FileChunkPayload) (unat (fc_chunk_size payload)) (data p)) (\<lambda>chunkData.
           let st1 = return_packet a st in
           case getTransferState uploadId (st_files st1) of
             None \<Rightarrow> Inr st1
           | Some r \<Rightarrow>
               if CRC32C_compute chunkData 0 \<noteq> fc_chunk_crc payload then Inr st1
               else bind_res (deref_ts r (st_files st1)) (\<lambda>ts.
                      Inr (set_ts r (store_chunk (fc_byte_offset payload) chunkData ts) st1))))"

text \<open>The scan for missing chunks indexes the buffer without a test of its bounds.\<close>

definition missing_chunks :: "nat \<Rightarrow> bytes list \<Rightarrow> u32 list res" where
  "missing_chunks count buf =
     (if length buf < count then Inl OutOfBounds else Inr (map of_nat (filter (\<lambda>i. buf ! i = []) [0..<count])))"

definition writeRoundToDisk :: "TransferState \<Rightarrow> FileTransferManager \<Rightarrow> TransferState \<times> FileTransferManager" where
  "writeRoundToDisk ts m =
     (let written = concat (filter (\<lambda>c. c \<noteq> []) (ts_roundBuffer ts));
          old = (case ft_files m (ts_tempPath ts) of Some c \<Rightarrow> c | None \<Rightarrow> [])
      in (ts\<lparr>ts_receivedOffset := ts_receivedOffset ts + of_nat (length written)\<rparr>,
          if ts_open ts then m\<lparr>ft_files := (ft_files m)(ts_tempPath ts \<mapsto> old @ written)\<rparr> else m))"

definition finish_round :: "nat \<Rightarrow> TransferState \<Rightarrow> FileTransferManager \<Rightarrow> FileTransferManager" where
  "finish_round r ts m =
     (let (ts1, m1) = writeRoundToDisk ts m;
          ts2 = ts1\<lparr>ts_roundReceivedCount := 0, ts_roundBuffer := replicate (length (ts_roundBuffer ts1)) [],
                    ts_currentRound := ts_currentRound ts1 + 1\<rparr>
      in m1\<lparr>ft_heap := (ft_heap m1)(r \<mapsto> ts2)\<rparr>)"

definition handleRoundEnd :: "(nat \<Rightarrow> bool) \<Rightarrow> nat \<Rightarrow> 'z ft_state_scheme \<Rightarrow> 'z ft_state_scheme res" where
  "handleRoundEnd wsa a st =
     (let payload = dec_RoundEndPayload (getPayloadRaw (packet_at a st));
          uploadId = bytesToHex (re_upload_id payload);
          st1 = return_packet a st
      in case getTransferState uploadId (st_files st1) of
           None \<Rightarrow> Inr st1
         | Some r \<Rightarrow>
             bind_res (deref_ts r (st_files st1)) (\<lambda>ts.
               if re_round_id payload \<noteq> ts_currentRound ts
               then sendAck wsa uploadId (ts_currentRound ts) [] (ts_senderId ts) st1
               else bind_res (missing_chunks (unat (re_chunk_count payload)) (ts_roundBuffer ts)) (\<lambda>missing.
                 sendAck wsa uploadId (re_round_id payload) missing (ts_senderId ts)
                   (if missing = [] then upd_ft (finish_round r ts) st1 else st1))))"

text \<open>
  \<open>cleanupTransfer\<close> erases the map's entry and then follows the erased iterator to delete the state:
  undefined behaviour.
\<close>

definition cleanupTransfer :: "string \<Rightarrow> FileTransferManager \<Rightarrow> FileTransferManager res" where
  "cleanupTransfer uploadId m =
     (case ft_uploadIdToTransferState m uploadId of None \<Rightarrow> Inr m | Some r \<Rightarrow> Inl BadIterator)"

definition complete_upload :: "string \<Rightarrow> nat \<Rightarrow> TransferState \<Rightarrow> FileTransferManager \<Rightarrow> FileTransferManager res" where
  "complete_upload timestamp r ts m =
     bind_res (push_mpsc r (ft_completedUpload m)) (\<lambda>q.
       Inr (m\<lparr>ft_heap := (ft_heap m)(r \<mapsto> clearState (ts\<lparr>ts_open := False, ts_timestamp := timestamp\<rparr>)),
              ft_completedUpload := q\<rparr>))"

definition handleFileEnd :: "(nat \<Rightarrow> bool) \<Rightarrow> nat \<Rightarrow> nat \<Rightarrow> 'z ft_state_scheme \<Rightarrow> 'z ft_state_scheme res" where
  "handleFileEnd wsa now a st =
     (let payload = dec_FileEndPayload (getPayloadRaw (packet_at a st));
          uploadId = bytesToHex (fe_upload_id payload);
          st1 = return_packet a st
      in case getTransferState uploadId (st_files st1) of
           None \<Rightarrow> Inr st1
         | Some r \<Rightarrow>
             bind_res (deref_ts r (st_files st1)) (\<lambda>ts.
               let success = (ts_receivedOffset ts = ts_totalSize ts) in
               bind_res (if success then complete_upload (to_string now) r ts (st_files st1)
                         else cleanupTransfer uploadId (st_files st1)) (\<lambda>m.
               bind_res (sendFileStatus wsa uploadId success (ts_senderId ts) (st1\<lparr>st_files := m\<rparr>)) (\<lambda>st2.
                 Inr (upd_ft (\<lambda>m. m\<lparr>ft_uploadIdToTransferState := (ft_uploadIdToTransferState m)(uploadId := None),
                                     ft_activeTransfers := (ft_activeTransfers m)(uploadId := None)\<rparr>) st2)))))"

text \<open>The loop of \<open>computeFileCRC\<close> reads the file in pieces of one megabyte; \<open>None\<close> is a file that cannot be read.\<close>

function crc_pieces :: "nat \<Rightarrow> bytes \<Rightarrow> u32 \<Rightarrow> u32" where
  "crc_pieces n bs crc =
     (if bs = [] \<or> n = 0 then crc else crc_pieces n (drop n bs) (CRC32C_compute (take n bs) crc))"
  by pat_completeness auto
termination by (relation "measure (\<lambda>(n, bs, crc). length bs)") auto

definition computeFileCRC :: "bytes option \<Rightarrow> u32" where
  "computeFileCRC file = (case file of None \<Rightarrow> 0 | Some bs \<Rightarrow> crc_pieces 1048576 bs 0)"

section \<open>File names\<close>

lemma to_string_digits: "set (to_string n) \<subseteq> digit ` {..<10}"
proof (induction n rule: to_string.induct)
  case (1 n)
  then show ?case by (subst to_string.simps) auto
qed

lemma digit_not_sep: "n < 10 \<Longrightarrow> \<not> is_sep (digit n)"
  by (simp add: is_sep_def digit_def char_of_eq_iff take_bit_eq_mod)

lemma to_string_no_sep: "c \<in> set (to_string n) \<Longrightarrow> \<not> is_sep c"
  using to_string_digits [of n] digit_not_sep by auto

lemma path_filename_no_sep: "c \<in> set (path_filename name) \<Longrightarrow> \<not> is_sep c"
  by (auto simp: path_filename_def dest: set_takeWhileD)

lemma sanitize_no_sep: "c \<in> set (sanitize now name) \<Longrightarrow> \<not> is_sep c"
  using path_filename_no_sep [of c name] to_string_no_sep [of c now]
  by (auto simp: sanitize_def Let_def is_sep_def split: if_splits)

lemma hex_digit_no_sep: "k < 16 \<Longrightarrow> \<not> is_sep (hex_digits ! k)"
proof -
  have "\<forall>c \<in> set hex_digits. \<not> is_sep c" by (simp add: hex_digits_def is_sep_def)
  moreover assume "k < 16"
  then have "hex_digits ! k \<in> set hex_digits" by (intro nth_mem) (simp add: hex_digits_def)
  ultimately show ?thesis by blast
qed

lemma unat_nibbles: "unat (drop_bit 4 (b :: byte)) = unat b div 16" "unat (b AND 15) = unat b mod 16"
proof -
  show "unat (drop_bit 4 b) = unat b div 16" unfolding unat_drop_bit_eq by (simp add: drop_bit_eq_div)
  show "unat (b AND 15) = unat b mod 16" using unat_and_mask [of b 4] by (simp add: mask_eq_exp_minus_1)
qed

lemma nibble_less: "unat (drop_bit 4 (b :: byte)) < 16" "unat (b AND 15) < 16"
  unfolding unat_nibbles using unat_byte_less [of b] by simp_all

lemma bytesToHex_hex2: "bytesToHex bs = concat (map hex2 bs)"
  unfolding bytesToHex_def hex2_def unat_nibbles ..

lemma bytesToHex_no_sep: "c \<in> set (bytesToHex bs) \<Longrightarrow> \<not> is_sep c"
  using nibble_less hex_digit_no_sep by (auto simp: bytesToHex_def)

text \<open>
  C27. An upload never leaves the upload directory: whatever name the client sends, the partial file is
  a file directly in \<open>./uploads/\<close>. Its name contains no path separator and is neither the directory
  itself nor its parent.
\<close>

theorem upload_path_confined:
  "\<exists>f. temp_path (sanitize now name) (bytesToHex upload_id) = ''./uploads/'' @ f \<and>
     filter is_sep f = [] \<and> f \<noteq> ''.'' \<and> f \<noteq> ''..'' \<and> path_filename (''./uploads/'' @ f) = f"
proof -
  let ?f = "sanitize now name @ ''_'' @ take 10 (bytesToHex upload_id) @ ''.partial''"
  have ns: "\<forall>c \<in> set ?f. \<not> is_sep c"
    using sanitize_no_sep [of _ now name] bytesToHex_no_sep [of _ upload_id]
    by (auto simp: is_sep_def dest: in_set_takeD)
  moreover have "?f \<noteq> ''.''" "?f \<noteq> ''..''" by (auto simp: append_eq_Cons_conv Cons_eq_append_conv)
  moreover have "path_filename (''./uploads/'' @ g) = g" if "\<forall>c \<in> set g. \<not> is_sep c" for g
  proof -
    have "takeWhile (\<lambda>c. \<not> is_sep c) (rev g @ rev ''./uploads/'') = rev g"
      using that by (subst takeWhile_append2) (auto simp: is_sep_def)
    then show ?thesis by (simp add: path_filename_def is_drive_letter_def is_sep_def)
  qed
  ultimately show ?thesis by (intro exI [of _ ?f]) (simp add: temp_path_def filter_empty_conv)
qed

section \<open>Ids\<close>

lemma hex_value_digit: "k < 16 \<Longrightarrow> hex_value (hex_digits ! k) = k \<and> isxdigit (hex_digits ! k)"
proof -
  have "\<forall>k \<in> set [0..<16]. hex_value (hex_digits ! k) = k \<and> isxdigit (hex_digits ! k)"
    by (simp add: upt_rec hex_value_def hex_digits_def isxdigit_def)
  moreover assume "k < 16"
  ultimately show ?thesis by simp
qed

lemma hex_pairs_hex2: "hex_pairs (concat (map hex2 bs)) = bs"
proof (induction bs)
  case (Cons b bs)
  have "unat b div 16 < 16" using unat_byte_less [of b] by simp
  then have "hex_pairs (hex2 b @ cs) = b # hex_pairs cs" for cs
    using hex_value_digit [of "unat b div 16"] hex_value_digit [of "unat b mod 16"] by (simp add: hex2_def)
  then show ?case using Cons by simp
qed simp

lemma hexToBytes_bytesToHex: "length bs = 16 \<Longrightarrow> hexToBytes (bytesToHex bs) = bs"
proof -
  have "length (concat (map hex2 cs)) = 2 * length cs" for cs by (induction cs) simp_all
  moreover have "isxdigit c" if "c \<in> set (hex2 b)" for b c
    using that hex_value_digit [of "unat b div 16"] hex_value_digit [of "unat b mod 16"] unat_byte_less [of b]
    by (auto simp: hex2_def)
  moreover assume "length bs = 16"
  ultimately show ?thesis by (auto simp: hexToBytes_def bytesToHex_hex2 hex_pairs_hex2)
qed

section \<open>A round of an upload\<close>

lemma store_chunk_fields [simp]:
  "length (ts_roundBuffer (store_chunk off c ts)) = length (ts_roundBuffer ts)"
  "ts_tempPath (store_chunk off c ts) = ts_tempPath ts" "ts_open (store_chunk off c ts) = ts_open ts"
  "ts_receivedOffset (store_chunk off c ts) = ts_receivedOffset ts" "ts_currentRound (store_chunk off c ts) = ts_currentRound ts"
  by (simp_all add: store_chunk_def Let_def)

text \<open>The offset of chunk \<open>j\<close> of round \<open>r\<close>.\<close>

definition chunk_offset :: "nat \<Rightarrow> nat \<Rightarrow> u64" where
  "chunk_offset r j = of_nat ((r * MAX_CHUNKS_PER_ROUND + j) * MAX_CHUNK_SIZE)"

lemma chunk_offset_index:
  assumes "r < 2 ^ 40" "j < MAX_CHUNKS_PER_ROUND"
  shows "(unat (chunk_offset r j) div MAX_CHUNK_SIZE) mod MAX_CHUNKS_PER_ROUND = j"
proof -
  have "r * 1024 + j \<le> 2 ^ 40 * 1024 + 1024" using assms by (simp add: MAX_CHUNKS_PER_ROUND_def)
  then have "(r * 1024 + j) * 3840 < 2 ^ 64" by simp
  then have "unat (chunk_offset r j) = (r * 1024 + j) * 3840"
    unfolding chunk_offset_def MAX_CHUNKS_PER_ROUND_def MAX_CHUNK_SIZE_def unat_of_nat by simp
  then show ?thesis using assms(2) by (simp add: MAX_CHUNKS_PER_ROUND_def MAX_CHUNK_SIZE_def)
qed

text \<open>The chunks of a round that have arrived, in the order of arrival and possibly several times.\<close>

definition arrivals :: "nat \<Rightarrow> bytes list \<Rightarrow> nat list \<Rightarrow> TransferState \<Rightarrow> TransferState" where
  "arrivals r cs js ts = fold (\<lambda>j. store_chunk (chunk_offset r j) (cs ! j)) js ts"

lemma arrivals_buffer:
  assumes "r < 2 ^ 40" "ts_roundBuffer ts = replicate MAX_CHUNKS_PER_ROUND []" "length cs \<le> MAX_CHUNKS_PER_ROUND"
    and "\<forall>j \<in> set js. j < length cs"
  shows "length (ts_roundBuffer (arrivals r cs js ts)) = MAX_CHUNKS_PER_ROUND \<and>
    (\<forall>i < MAX_CHUNKS_PER_ROUND. ts_roundBuffer (arrivals r cs js ts) ! i = (if i \<in> set js then cs ! i else [])) \<and>
    ts_tempPath (arrivals r cs js ts) = ts_tempPath ts \<and> ts_open (arrivals r cs js ts) = ts_open ts \<and>
    ts_receivedOffset (arrivals r cs js ts) = ts_receivedOffset ts \<and> ts_currentRound (arrivals r cs js ts) = ts_currentRound ts"
  using assms(4)
proof (induction js rule: rev_induct)
  case Nil
  then show ?case using assms(2) by (simp add: arrivals_def)
next
  case (snoc j js)
  let ?ts = "arrivals r cs js ts"
  have e: "arrivals r cs (js @ [j]) ts = store_chunk (chunk_offset r j) (cs ! j) ?ts" by (simp add: arrivals_def)
  have j: "j < MAX_CHUNKS_PER_ROUND" using snoc.prems assms(3) by auto
  have IH: "length (ts_roundBuffer ?ts) = MAX_CHUNKS_PER_ROUND"
    "\<forall>i < MAX_CHUNKS_PER_ROUND. ts_roundBuffer ?ts ! i = (if i \<in> set js then cs ! i else [])"
    using snoc by auto
  have "ts_roundBuffer (store_chunk (chunk_offset r j) (cs ! j) ?ts) ! i = (if i \<in> set (js @ [j]) then cs ! i else [])"
    if "i < MAX_CHUNKS_PER_ROUND" for i
    using IH that j chunk_offset_index [OF assms(1) j] by (cases "i = j") (auto simp: store_chunk_def Let_def)
  then show ?case unfolding e using snoc by simp
qed

lemma concat_filter_ne: "concat (filter (\<lambda>c. c \<noteq> []) xs) = concat xs"
  by (induction xs) auto

text \<open>
  C23. A round of an upload is reassembled whatever happens to its chunks on the way. For up to 1024
  non-empty chunks that arrive in any order, any number of times, the server reports as missing exactly
  the ones that never arrived, in ascending order. When all have arrived, the round's end appends to the
  partial file the chunks in the order of their offsets, each once, advances the received length by
  their total length and starts the next round with an empty buffer.
\<close>

theorem upload_round_reassembles:
  assumes r: "r < 2 ^ 40" and buf: "ts_roundBuffer ts = replicate MAX_CHUNKS_PER_ROUND []"
    and cs: "length cs \<le> MAX_CHUNKS_PER_ROUND" "\<forall>c \<in> set cs. c \<noteq> []" and js: "\<forall>j \<in> set js. j < length cs"
  shows "missing_chunks (length cs) (ts_roundBuffer (arrivals r cs js ts)) =
      Inr (map of_nat (filter (\<lambda>i. i \<notin> set js) [0..<length cs])) \<and>
    (set js = {..<length cs} \<and> ts_open ts \<longrightarrow>
      ft_files (finish_round q (arrivals r cs js ts) m) (ts_tempPath ts) =
        Some ((case ft_files m (ts_tempPath ts) of None \<Rightarrow> [] | Some old \<Rightarrow> old) @ concat cs) \<and>
      (\<exists>ts'. ft_heap (finish_round q (arrivals r cs js ts) m) q = Some ts' \<and>
         ts_receivedOffset ts' = ts_receivedOffset ts + of_nat (length (concat cs)) \<and>
         ts_currentRound ts' = ts_currentRound ts + 1 \<and> ts_roundBuffer ts' = replicate MAX_CHUNKS_PER_ROUND []))"
proof (intro conjI impI)
  let ?ts = "arrivals r cs js ts"
  note A = arrivals_buffer [OF r buf cs(1) js]
  have "ts_roundBuffer ?ts ! i = [] \<longleftrightarrow> i \<notin> set js" if "i < length cs" for i
    using A that cs by (auto simp: nth_mem)
  then have "filter (\<lambda>i. ts_roundBuffer ?ts ! i = []) [0..<length cs] = filter (\<lambda>i. i \<notin> set js) [0..<length cs]"
    by (intro filter_cong) auto
  then show "missing_chunks (length cs) (ts_roundBuffer ?ts) = Inr (map of_nat (filter (\<lambda>i. i \<notin> set js) [0..<length cs]))"
    using A cs(1) by (simp add: missing_chunks_def)
  assume all: "set js = {..<length cs} \<and> ts_open ts"
  have "ts_roundBuffer ?ts = cs @ replicate (MAX_CHUNKS_PER_ROUND - length cs) []"
    using A cs(1) all by (intro nth_equalityI) (auto simp: nth_append)
  then have w: "concat (filter (\<lambda>c. c \<noteq> []) (ts_roundBuffer ?ts)) = concat cs"
    by (simp add: concat_filter_ne)
  show "ft_files (finish_round q ?ts m) (ts_tempPath ts) =
      Some ((case ft_files m (ts_tempPath ts) of None \<Rightarrow> [] | Some old \<Rightarrow> old) @ concat cs)"
    using A all by (simp add: finish_round_def writeRoundToDisk_def Let_def w split: option.split)
  show "\<exists>ts'. ft_heap (finish_round q ?ts m) q = Some ts' \<and>
         ts_receivedOffset ts' = ts_receivedOffset ts + of_nat (length (concat cs)) \<and>
         ts_currentRound ts' = ts_currentRound ts + 1 \<and> ts_roundBuffer ts' = replicate MAX_CHUNKS_PER_ROUND []"
    using A by (simp add: finish_round_def writeRoundToDisk_def Let_def w)
qed

theorem upload_round_reassembles_witness:
  "missing_chunks 3 (ts_roundBuffer (arrivals 2 [[1], [2, 3], [4]] [2, 0, 2] new_TransferState)) = Inr [1]"
  using upload_round_reassembles [of 2 new_TransferState "[[1], [2, 3], [4]]" "[2, 0, 2]"]
  by (simp add: new_TransferState_def MAX_CHUNKS_PER_ROUND_def upt_rec numeral_3_eq_3)

section \<open>Malformed requests\<close>

text \<open>
  C36. Two requests of a client make the server run into undefined behaviour: the end of the current
  round with a chunk count larger than the round's buffer reads outside that buffer, and the end of a
  file of which not all bytes have arrived deletes the transfer through an erased iterator.
\<close>

theorem malformed_upload_faults:
  assumes "getTransferState (bytesToHex (take 16 (getPayloadRaw (packet_at a st)))) (st_files st) = Some r"
    and "ft_heap (st_files st) r = Some ts"
  shows "(re_round_id (dec_RoundEndPayload (getPayloadRaw (packet_at a st))) = ts_currentRound ts \<and>
      length (ts_roundBuffer ts) < unat (re_chunk_count (dec_RoundEndPayload (getPayloadRaw (packet_at a st))))
      \<longrightarrow> handleRoundEnd wsa a st = Inl OutOfBounds) \<and>
    (ts_receivedOffset ts \<noteq> ts_totalSize ts \<longrightarrow> handleFileEnd wsa now a st = Inl BadIterator)"
proof -
  have "st_files (return_packet a st) = st_files st" by (simp add: return_packet_def)
  then show ?thesis
    using assms by (simp add: handleRoundEnd_def handleFileEnd_def Let_def dec_RoundEndPayload_def dec_FileEndPayload_def
        deref_ts_def missing_chunks_def cleanupTransfer_def getTransferState_def)
qed

text \<open>A server that has just started, with one transfer under way.\<close>

definition fresh_ft :: "IOContextPool \<Rightarrow> AuthManager \<Rightarrow> FileTransferManager \<Rightarrow> ft_state" where
  "fresh_ft io am m = \<lparr>n_packets = new_PacketPool, n_io = io, n_spool = new_SessionPool, n_calls = 0,
     n_posted = [], n_recvs = [], n_disconnectedSockets = {}, n_socketBuffers = Map.empty, n_closed = [],
     sm_sessions = Map.empty, sm_socketToUserId = Map.empty, queue_per_client = Map.empty, st_auth = am,
     st_groups = Map.empty, st_files = m\<rparr>"

theorem malformed_upload_faults_witness:
  "\<exists>st :: ft_state. handleRoundEnd (\<lambda>_. True) 0 st = Inl OutOfBounds \<and> handleFileEnd (\<lambda>_. True) 7 0 st = Inl BadIterator"
proof -
  let ?bs = "replicate 16 0 @ enc_RoundEndPayload \<lparr>re_upload_id = replicate 16 0, re_round_id = 0, re_chunk_count = 2000\<rparr>"
  let ?p = "new_packet zero_header ?bs"
  let ?ts = "new_TransferState\<lparr>ts_totalSize := 9\<rparr>"
  let ?m = "new_FileTransferManager\<lparr>ft_heap := [0 \<mapsto> ?ts], ft_uploadIdToTransferState := [bytesToHex (replicate 16 0) \<mapsto> 0]\<rparr>"
  let ?st = "(fresh_ft undefined undefined ?m)\<lparr>n_packets := new_PacketPool\<lparr>pp_pool := [?p]\<rparr>\<rparr>"
  have p: "packet_at 0 ?st = ?p" "st_files ?st = ?m" by (simp_all add: packet_at_def fresh_ft_def)
  have d: "getPayloadRaw ?p = enc_RoundEndPayload \<lparr>re_upload_id = replicate 16 0, re_round_id = 0, re_chunk_count = 2000\<rparr>"
    by (simp add: getPayloadRaw_def new_packet_def HEADER_SIZE_def)
  have "take 16 (getPayloadRaw ?p) = replicate 16 0" unfolding d by (simp add: enc_RoundEndPayload_def)
  moreover have "dec_RoundEndPayload (getPayloadRaw ?p) = \<lparr>re_upload_id = replicate 16 0, re_round_id = 0, re_chunk_count = 2000\<rparr>"
    unfolding d using re_struct.dec_enc [of "\<lparr>re_upload_id = replicate 16 0, re_round_id = 0, re_chunk_count = 2000\<rparr>" "[]"]
    by (simp add: wf_RoundEndPayload_def)
  ultimately show ?thesis
    using malformed_upload_faults [of 0 ?st 0 ?ts "\<lambda>_. True" 7] p
    by (intro exI [of _ ?st]) (simp add: getTransferState_def new_TransferState_def MAX_CHUNKS_PER_ROUND_def)
qed

end
