(* ===== verification/File_Download.thy ===== *)
theory File_Download
  imports File_Transfer
begin

text \<open>
  Downloads: \<open>filetransfer/FIleDownload.cpp\<close>. A finished upload is announced to its receiver by a link,
  a request for it starts a thread, and the thread sends the file in rounds of chunks, each of which it
  repeats until the receiver acknowledges it. The thread is a machine whose steps end where it may wait
  for the receiver or be overtaken by a packet of the receiver; \<open>timeout\<close> says that the 15 seconds of a
  wait have passed.
\<close>

section \<open>Links\<close>

definition send_link :: "(nat \<Rightarrow> bool) \<Rightarrow> sodium \<Rightarrow> nat \<Rightarrow> 'z ft_state_scheme \<Rightarrow> 'z ft_state_scheme res" where
  "send_link wsa S r st =
     bind_res (borrow_packet st) (\<lambda>(b, st1).
       bind_res (deref_ts r (st_files st1)) (\<lambda>ts.
         case b of None \<Rightarrow> Inl NullDeref
         | Some a \<Rightarrow>
             let st2 = set_packet a (snd (serializeLink (hexToBytes (ts_senderId ts)) (hexToBytes (ts_uploadId ts))
                         (ts_fileName ts) (ucast (ts_totalSize ts)) (ts_timestamp ts) (packet_at a st1))) st1;
                 st3 = upd_ft (\<lambda>m. m\<lparr>ft_downloadableFiles := (ft_downloadableFiles m)(ts_uploadId ts \<mapsto> r)\<rparr>) st2
             in if checkGrp (ts_receiverId ts) then routeGroupMessage wsa S a st3
                else ManageCompletePacket wsa a (ts_receiverId ts) st3))"

text \<open>
  One turn of the loop of \<open>sendDownloadLinkLoop\<close>: it empties the queue of completed uploads. Each round
  takes an upload from the queue, so that the length of the queue is enough fuel.
\<close>

fun drain_links :: "nat \<Rightarrow> (nat \<Rightarrow> bool) \<Rightarrow> sodium \<Rightarrow> 'z ft_state_scheme \<Rightarrow> 'z ft_state_scheme res" where
  "drain_links n wsa S st =
     bind_res (empty_mpsc (ft_completedUpload (st_files st))) (\<lambda>e.
       if e then Inr st
       else case n of 0 \<Rightarrow> Inl Diverges
       | Suc k \<Rightarrow>
           bind_res (front_mpsc 0 (ft_completedUpload (st_files st))) (\<lambda>f. bind_res (returns f) (\<lambda>r.
           bind_res (pop_mpsc (ft_completedUpload (st_files st))) (\<lambda>p. bind_res (returns p) (\<lambda>(_, q).
             bind_res (send_link wsa S r (upd_ft (\<lambda>m. m\<lparr>ft_completedUpload := q\<rparr>) st)) (drain_links k wsa S))))))"

definition sendDownloadLinkLoop :: "(nat \<Rightarrow> bool) \<Rightarrow> sodium \<Rightarrow> 'z ft_state_scheme \<Rightarrow> 'z ft_state_scheme res" where
  "sendDownloadLinkLoop wsa S st = drain_links (length (mq_elems (ft_completedUpload (st_files st)))) wsa S st"

definition stopAllTransfers :: "(nat \<Rightarrow> bool) \<Rightarrow> sodium \<Rightarrow> 'z ft_state_scheme \<Rightarrow> 'z ft_state_scheme res" where
  "stopAllTransfers wsa S st =
     bind_res (sendDownloadLinkLoop wsa S (upd_ft (\<lambda>m. m\<lparr>ft_stopLoop := True\<rparr>) st)) (\<lambda>st1.
       Inr (upd_ft close_transfers st1))"

section \<open>Requests\<close>

definition resize :: "nat \<Rightarrow> 'a \<Rightarrow> 'a list \<Rightarrow> 'a list" where
  "resize n d xs = take n xs @ replicate (n - length xs) d"

definition HandleDownloadRequest :: "(nat \<Rightarrow> bool) \<Rightarrow> nat \<Rightarrow> 'z ft_state_scheme \<Rightarrow> 'z ft_state_scheme res" where
  "HandleDownloadRequest wsa a st =
     (let payload = dec_DownloadReqPayload (getPayloadRaw (packet_at a st));
          receiverId = bytesToHex (dr_user_id payload);
          upId = bytesToHex (dr_upload_id payload);
          startBytes = unat (dr_bytes_requested payload);
          st1 = return_packet a st
      in if receiverId = [] \<or> upId = [] then Inr st1
         else case ft_downloadableFiles (st_files st1) upId of
           None \<Rightarrow> SendErrorPacket wsa receiverId upId ''File not found'' st1
         | Some r \<Rightarrow>
             bind_res (setRecievingFileTrue receiverId st1) (\<lambda>st2.
             bind_res (deref_ts r (st_files st2)) (\<lambda>ts.
               let st3 = set_ts r (ts\<lparr>ts_roundBuffer := resize MAX_CHUNKS_PER_ROUND [] (ts_roundBuffer ts),
                                     ts_roundOffsets := resize MAX_CHUNKS_PER_ROUND 0 (ts_roundOffsets ts)\<rparr>) st2
               in bind_res (post wsa (\<lambda>p. snd (serializeFileStart (hexToBytes (ts_senderId ts)) (hexToBytes (ts_uploadId ts))
                              (ts_fileName ts) (ts_totalSize ts) (ts_finalCrc ts) p)) receiverId st3) (\<lambda>st4.
                    Inr (upd_ft (\<lambda>m. m\<lparr>ft_threads := ft_threads m @ [(ts_fileName ts, receiverId, upId, startBytes)]\<rparr>) st4)))))"

definition onAckReceived :: "nat \<Rightarrow> 'z ft_state_scheme \<Rightarrow> 'z ft_state_scheme res" where
  "onAckReceived a st =
     (let p = packet_at a st;
          payload = dec_FileAckPayload (getPayloadRaw p);
          upId = bytesToHex (fa_upload_id payload);
          n = unat (fa_missing_count payload)
      in bind_res (read_bytes (HEADER_SIZE + sizeof_FileAckPayload) (4 * n) (data p)) (\<lambda>bs.
           let missing = map (\<lambda>i. rd32 (drop (4 * i) bs)) [0..<n]; st1 = return_packet a st in
           case ft_downloadableFiles (st_files st1) upId of
             None \<Rightarrow> Inr st1
           | Some r \<Rightarrow>
               bind_res (deref_ts r (st_files st1)) (\<lambda>ts.
                 if fa_round_id payload \<noteq> ts_currentRound ts then Inr st1
                 else Inr (set_ts r (ts\<lparr>ts_missingChunks := missing, ts_ackReceived := True\<rparr>) st1))))"

definition HandleDisconnectRequest :: "nat \<Rightarrow> 'z sm_state_scheme \<Rightarrow> 'z sm_state_scheme res" where
  "HandleDisconnectRequest a st =
     (let p = packet_at a st in
      if payload_length (header p) + 16 < 16 then Inr st
      else bind_res (read_bytes HEADER_SIZE (unat (payload_length (header p))) (data p)) (\<lambda>bs.
             let recId = takeWhile (\<lambda>c. c \<noteq> CHR '' '') (bytes_str bs); st1 = return_packet a st in
             if recId \<noteq> [] then setRecievingFileFalse recId st1 else Inr st1))"

section \<open>The thread of a download\<close>

datatype download_pc = DnOpen | DnRound | DnAsk | DnArm | DnWait | DnDone

record download =
  dn_receiverId :: string
  dn_upId :: string
  dn_startBytes :: nat
  dn_state :: nat
  dn_bytesSent :: u64
  dn_currentRound :: u32
  dn_chunks :: nat
  dn_pc :: download_pc

definition new_download :: "string \<times> string \<times> string \<times> nat \<Rightarrow> download" where
  "new_download t = (case t of (fileName, receiverId, upId, startBytes) \<Rightarrow>
     \<lparr>dn_receiverId = receiverId, dn_upId = upId, dn_startBytes = startBytes, dn_state = 0, dn_bytesSent = 0,
      dn_currentRound = 0, dn_chunks = 0, dn_pc = DnOpen\<rparr>)"

definition dn_fail ::
  "(nat \<Rightarrow> bool) \<Rightarrow> string \<Rightarrow> download \<Rightarrow> 'z off_state_scheme \<Rightarrow> (download \<times> 'z off_state_scheme) res" where
  "dn_fail wsa reason d st =
     bind_res (SendErrorPacket wsa (dn_receiverId d) (dn_upId d) reason st) (\<lambda>st1.
     bind_res (setRecievingFileFalse (dn_receiverId d) st1) (\<lambda>st2. Inr (d\<lparr>dn_pc := DnDone\<rparr>, st2)))"

definition dn_open ::
  "(nat \<Rightarrow> bool) \<Rightarrow> (string \<Rightarrow> bool) \<Rightarrow> download \<Rightarrow> 'z ft_state_scheme \<Rightarrow> (download \<times> 'z ft_state_scheme) res" where
  "dn_open wsa can_open d st =
     (case ft_downloadableFiles (st_files st) (dn_upId d) of
        None \<Rightarrow> dn_fail wsa ''State lost'' d st
      | Some r \<Rightarrow>
          bind_res (deref_ts r (st_files st)) (\<lambda>ts.
            if \<not> can_open (ts_tempPath ts) then dn_fail wsa ''Cannot open file'' d st
            else Inr (d\<lparr>dn_state := r, dn_bytesSent := of_nat (dn_startBytes d),
                   dn_currentRound := of_nat (dn_startBytes d div (MAX_CHUNK_SIZE * MAX_CHUNKS_PER_ROUND)),
                   dn_pc := DnRound\<rparr>, st)))"

text \<open>
  The blocks of a round with their offsets: at most \<open>n\<close> more, from the position \<open>sent\<close>. A read that
  yields nothing, at the end of the file, ends the round.
\<close>

fun fill_round :: "bytes \<Rightarrow> u64 \<Rightarrow> nat \<Rightarrow> u64 \<Rightarrow> (u64 \<times> bytes) list" where
  "fill_round content tot 0 sent = []"
| "fill_round content tot (Suc n) sent =
     (if sent < tot then
        let block = take (min MAX_CHUNK_SIZE (unat (tot - sent))) (drop (unat sent) content)
        in if block = [] then [] else (sent, block) # fill_round content tot n (sent + of_nat (length block))
      else [])"

fun post_all ::
  "(nat \<Rightarrow> bool) \<Rightarrow> (Packet \<Rightarrow> Packet) list \<Rightarrow> string \<Rightarrow> 'z off_state_scheme \<Rightarrow> 'z off_state_scheme res" where
  "post_all wsa [] recId st = Inr st"
| "post_all wsa (f # fs) recId st = bind_res (post wsa f recId st) (post_all wsa fs recId)"

definition chunk_packet :: "string \<Rightarrow> u64 \<times> bytes \<Rightarrow> Packet \<Rightarrow> Packet" where
  "chunk_packet upId c p = snd (serializeFileChunk (hexToBytes upId) (fst c) (snd c) p)"

definition dn_end :: "(nat \<Rightarrow> bool) \<Rightarrow> download \<Rightarrow> 'z ft_state_scheme \<Rightarrow> (download \<times> 'z ft_state_scheme) res" where
  "dn_end wsa d st =
     bind_res (deref_ts (dn_state d) (st_files st)) (\<lambda>ts.
     bind_res (post wsa (\<lambda>p. snd (serializeFileEnd (hexToBytes (dn_upId d)) (ts_finalCrc ts) p)) (dn_receiverId d) st) (\<lambda>st1.
     bind_res (setRecievingFileFalse (dn_receiverId d) st1) (\<lambda>st2. Inr (d\<lparr>dn_pc := DnDone\<rparr>, st2))))"

definition dn_round :: "(nat \<Rightarrow> bool) \<Rightarrow> download \<Rightarrow> 'z ft_state_scheme \<Rightarrow> (download \<times> 'z ft_state_scheme) res" where
  "dn_round wsa d st =
     bind_res (deref_ts (dn_state d) (st_files st)) (\<lambda>ts.
       if dn_bytesSent d < ts_totalSize ts then
         let content = (case ft_files (st_files st) (ts_tempPath ts) of Some c \<Rightarrow> c | None \<Rightarrow> []);
             blocks = fill_round content (ts_totalSize ts) MAX_CHUNKS_PER_ROUND (dn_bytesSent d);
             n = length blocks
         in if length (ts_roundOffsets ts) < n then Inl OutOfBounds
            else
              let st1 = set_ts (dn_state d)
                    (ts\<lparr>ts_roundBuffer := map snd blocks @ replicate (MAX_CHUNKS_PER_ROUND - n) [],
                        ts_roundOffsets := map fst blocks @ drop n (ts_roundOffsets ts)\<rparr>) st
              in if n = 0 then dn_end wsa d st1
                 else bind_res (post_all wsa (map (chunk_packet (dn_upId d)) blocks) (dn_receiverId d) st1) (\<lambda>st2.
                        Inr (d\<lparr>dn_bytesSent := dn_bytesSent d + of_nat (length (concat (map snd blocks))),
                               dn_chunks := n, dn_pc := DnAsk\<rparr>, st2))
       else dn_end wsa d st)"

definition dn_ask :: "(nat \<Rightarrow> bool) \<Rightarrow> download \<Rightarrow> 'z off_state_scheme \<Rightarrow> (download \<times> 'z off_state_scheme) res" where
  "dn_ask wsa d st =
     bind_res (post wsa (\<lambda>p. snd (serializeRoundEnd (hexToBytes (dn_upId d)) (dn_currentRound d) (of_nat (dn_chunks d)) p))
        (dn_receiverId d) st) (\<lambda>st1. Inr (d\<lparr>dn_pc := DnArm\<rparr>, st1))"

definition dn_arm :: "download \<Rightarrow> 'z ft_state_scheme \<Rightarrow> (download \<times> 'z ft_state_scheme) res" where
  "dn_arm d st =
     bind_res (deref_ts (dn_state d) (st_files st)) (\<lambda>ts.
       Inr (d\<lparr>dn_pc := DnWait\<rparr>, set_ts (dn_state d) (ts\<lparr>ts_ackReceived := False\<rparr>) st))"

definition resend_chunks :: "nat \<Rightarrow> TransferState \<Rightarrow> (u64 \<times> bytes) list res" where
  "resend_chunks n ts =
     (let idx = filter (\<lambda>i. i < n) (map unat (ts_missingChunks ts)) in
      if \<exists>i \<in> set idx. length (ts_roundOffsets ts) \<le> i \<or> length (ts_roundBuffer ts) \<le> i then Inl OutOfBounds
      else Inr (map (\<lambda>i. (ts_roundOffsets ts ! i, ts_roundBuffer ts ! i)) idx))"

definition dn_wait ::
  "(nat \<Rightarrow> bool) \<Rightarrow> bool \<Rightarrow> download \<Rightarrow> 'z ft_state_scheme \<Rightarrow> (download \<times> 'z ft_state_scheme) res" where
  "dn_wait wsa timeout d st =
     bind_res (deref_ts (dn_state d) (st_files st)) (\<lambda>ts.
       if \<not> ts_ackReceived ts then Inr (if timeout then d\<lparr>dn_pc := DnDone\<rparr> else d, st)
       else if ts_missingChunks ts = [- 1] then
         bind_res (setRecievingFileFalse (dn_receiverId d) st) (\<lambda>st1. Inr (d\<lparr>dn_pc := DnDone\<rparr>, st1))
       else if ts_missingChunks ts = [] then Inr (d\<lparr>dn_currentRound := dn_currentRound d + 1, dn_pc := DnRound\<rparr>, st)
       else
         bind_res (resend_chunks (dn_chunks d) ts) (\<lambda>cs.
         bind_res (post_all wsa (map (chunk_packet (dn_upId d)) cs) (dn_receiverId d) st) (\<lambda>st1.
           Inr (d\<lparr>dn_pc := DnAsk\<rparr>, st1))))"

definition HandleFileTransfer ::
  "(nat \<Rightarrow> bool) \<Rightarrow> (string \<Rightarrow> bool) \<Rightarrow> bool \<Rightarrow> download \<Rightarrow> 'z ft_state_scheme \<Rightarrow> (download \<times> 'z ft_state_scheme) res" where
  "HandleFileTransfer wsa can_open timeout d st =
     (case dn_pc d of
        DnOpen \<Rightarrow> dn_open wsa can_open d st
      | DnRound \<Rightarrow> dn_round wsa d st
      | DnAsk \<Rightarrow> dn_ask wsa d st
      | DnArm \<Rightarrow> dn_arm d st
      | DnWait \<Rightarrow> dn_wait wsa timeout d st
      | DnDone \<Rightarrow> Inr (d, st))"

section \<open>The blocks of a round\<close>

lemma unat_u64_less: "unat (w :: u64) < 2 ^ 64"
  using unsigned_less [of w] by simp

lemma fill_round_done: "tot \<le> sent \<Longrightarrow> fill_round c tot n sent = []"
  by (cases n) auto

lemma fill_round_step:
  assumes c: "length c = unat tot" and s: "sent < tot"
  defines "b \<equiv> take MAX_CHUNK_SIZE (drop (unat sent) c)"
  shows "fill_round c tot (Suc n) sent = (sent, b) # fill_round c tot n (sent + of_nat (length b)) \<and> b \<noteq> [] \<and>
    length b = min MAX_CHUNK_SIZE (length c - unat sent) \<and> unat (sent + of_nat (length b)) = unat sent + length b"
proof -
  have s': "unat sent < length c" using s c by (simp add: word_less_nat_alt)
  have "unat (tot - sent) = length c - unat sent" using s c by (simp add: unat_sub order_less_imp_le)
  then have b: "take (min MAX_CHUNK_SIZE (unat (tot - sent))) (drop (unat sent) c) = b" by (simp add: b_def min_def)
  have ne: "b \<noteq> []" using s' by (simp add: b_def MAX_CHUNK_SIZE_def)
  have l: "length b = min MAX_CHUNK_SIZE (length c - unat sent)" by (simp add: b_def)
  have "unat sent + length b \<le> unat tot" using l s' c by simp
  then have "unat sent + length b < 2 ^ 64" using unat_u64_less [of tot] by simp
  then have "unat (sent + of_nat (length b)) = unat sent + length b" by (simp add: unat_word_ariths unat_of_nat)
  then show ?thesis using s b ne l by (simp add: Let_def)
qed

lemma fill_round_spec:
  assumes c: "length c = unat tot" and "sent \<le> tot"
  shows "concat (map snd (fill_round c tot n sent)) = take (n * MAX_CHUNK_SIZE) (drop (unat sent) c) \<and>
    length (fill_round c tot n sent) \<le> n \<and> (n \<noteq> 0 \<and> sent < tot \<longrightarrow> fill_round c tot n sent \<noteq> []) \<and>
    (\<forall>i < length (fill_round c tot n sent).
       unat (fst (fill_round c tot n sent ! i)) = unat sent + i * MAX_CHUNK_SIZE \<and>
       length (snd (fill_round c tot n sent ! i)) \<le> MAX_CHUNK_SIZE)"
  using assms(2)
proof (induction n arbitrary: sent)
  case 0
  then show ?case by simp
next
  case (Suc n)
  show ?case
  proof (cases "sent < tot")
    case False
    then have "sent = tot" using Suc.prems by simp
    then show ?thesis using c by (simp add: fill_round_done)
  next
    case True
    define b where "b = take MAX_CHUNK_SIZE (drop (unat sent) c)"
    define r where "r = fill_round c tot n (sent + of_nat (length b))"
    have S: "fill_round c tot (Suc n) sent = (sent, b) # r" "length b = min MAX_CHUNK_SIZE (length c - unat sent)"
      and u: "unat (sent + of_nat (length b)) = unat sent + length b"
      using fill_round_step [OF c True, of n] unfolding r_def b_def by blast+
    have le: "sent + of_nat (length b) \<le> tot"
      unfolding word_le_nat_alt u using S(2) c True by (simp add: word_less_nat_alt)
    have d: "drop (unat sent + length b) c = drop MAX_CHUNK_SIZE (drop (unat sent) c)"
      using S(2) by (simp add: min_def add.commute split: if_splits)
    have IH: "concat (map snd r) = take (n * MAX_CHUNK_SIZE) (drop MAX_CHUNK_SIZE (drop (unat sent) c))" "length r \<le> n"
      "\<And>i. i < length r \<Longrightarrow> unat (fst (r ! i)) = unat sent + length b + i * MAX_CHUNK_SIZE \<and> length (snd (r ! i)) \<le> MAX_CHUNK_SIZE"
      using Suc.IH [OF le] unfolding u d r_def by blast+
    have full: "length b = MAX_CHUNK_SIZE" if "r \<noteq> []"
    proof -
      have "sent + of_nat (length b) < tot" using that fill_round_done unfolding r_def by (meson not_le)
      then show ?thesis unfolding word_less_nat_alt u using S(2) c by (simp add: min_def split: if_splits)
    qed
    have "unat (fst (((sent, b) # r) ! i)) = unat sent + i * MAX_CHUNK_SIZE \<and> length (snd (((sent, b) # r) ! i)) \<le> MAX_CHUNK_SIZE"
      if "i < length ((sent, b) # r)" for i
    proof (cases i)
      case 0
      then show ?thesis using S(2) by simp
    next
      case (Suc j)
      then have "j < length r" "r \<noteq> []" using that by auto
      then show ?thesis using Suc IH(3) full by simp
    qed
    moreover have "concat (map snd ((sent, b) # r)) = take (Suc n * MAX_CHUNK_SIZE) (drop (unat sent) c)"
      using IH(1) by (simp add: b_def take_add)
    ultimately show ?thesis unfolding S(1) using IH(2) by simp
  qed
qed

section \<open>Rounds of a download\<close>

text \<open>
  C24. A round of a download sends the next part of the file and can repeat any of it: with the file on
  disk complete, the blocks sent from the position reached are the next 1024 blocks of 3840 bytes (or the
  rest of the file), each labelled with its offset; the position moves to their end, so that the rounds of
  a file cover it without gaps. Whatever chunks the receiver then reports as missing are sent again as
  they were, and indices outside the round are ignored.
\<close>

theorem download_round_sends_next_part:
  assumes ts: "ft_heap (st_files st) (dn_state d) = Some ts" and disk: "ft_files (st_files st) (ts_tempPath ts) = Some c"
    and c: "length c = unat (ts_totalSize ts)" and more: "dn_bytesSent d < ts_totalSize ts"
    and offs: "length (ts_roundOffsets ts) = MAX_CHUNKS_PER_ROUND"
  shows "\<exists>blocks ts' d'. dn_round wsa d st =
      bind_res (post_all wsa (map (chunk_packet (dn_upId d)) blocks) (dn_receiverId d) (set_ts (dn_state d) ts' st)) (\<lambda>st'. Inr (d', st')) \<and>
    concat (map snd blocks) = take (MAX_CHUNKS_PER_ROUND * MAX_CHUNK_SIZE) (drop (unat (dn_bytesSent d)) c) \<and>
    blocks \<noteq> [] \<and>
    (\<forall>i < length blocks. unat (fst (blocks ! i)) = unat (dn_bytesSent d) + i * MAX_CHUNK_SIZE \<and> length (snd (blocks ! i)) \<le> MAX_CHUNK_SIZE) \<and>
    unat (dn_bytesSent d') = min (length c) (unat (dn_bytesSent d) + MAX_CHUNKS_PER_ROUND * MAX_CHUNK_SIZE) \<and>
    dn_chunks d' = length blocks \<and> dn_pc d' = DnAsk \<and>
    (\<forall>ms. resend_chunks (dn_chunks d') (ts'\<lparr>ts_missingChunks := ms\<rparr>) =
       Inr (map ((!) blocks) (filter (\<lambda>i. i < length blocks) (map unat ms))))"
proof -
  define blocks where "blocks = fill_round c (ts_totalSize ts) MAX_CHUNKS_PER_ROUND (dn_bytesSent d)"
  define ts' where "ts' = ts\<lparr>ts_roundBuffer := map snd blocks @ replicate (MAX_CHUNKS_PER_ROUND - length blocks) [],
    ts_roundOffsets := map fst blocks @ drop (length blocks) (ts_roundOffsets ts)\<rparr>"
  define d' where "d' = d\<lparr>dn_bytesSent := dn_bytesSent d + of_nat (length (concat (map snd blocks))),
    dn_chunks := length blocks, dn_pc := DnAsk\<rparr>"
  have B: "concat (map snd blocks) = take (MAX_CHUNKS_PER_ROUND * MAX_CHUNK_SIZE) (drop (unat (dn_bytesSent d)) c)"
    "length blocks \<le> MAX_CHUNKS_PER_ROUND" "blocks \<noteq> []"
    "\<forall>i < length blocks. unat (fst (blocks ! i)) = unat (dn_bytesSent d) + i * MAX_CHUNK_SIZE \<and> length (snd (blocks ! i)) \<le> MAX_CHUNK_SIZE"
    using fill_round_spec [OF c order_less_imp_le [OF more], of MAX_CHUNKS_PER_ROUND] more
    unfolding blocks_def by (simp_all add: MAX_CHUNKS_PER_ROUND_def)
  have "dn_round wsa d st = bind_res (post_all wsa (map (chunk_packet (dn_upId d)) blocks) (dn_receiverId d)
      (set_ts (dn_state d) ts' st)) (\<lambda>st'. Inr (d', st'))"
    using ts disk more offs B(2,3) unfolding dn_round_def deref_ts_def ts'_def d'_def by (simp add: blocks_def [symmetric] Let_def)
  moreover have "unat (dn_bytesSent d') = min (length c) (unat (dn_bytesSent d) + MAX_CHUNKS_PER_ROUND * MAX_CHUNK_SIZE)"
  proof -
    have l: "length (concat (map snd blocks)) = min (length c - unat (dn_bytesSent d)) (MAX_CHUNKS_PER_ROUND * MAX_CHUNK_SIZE)"
      unfolding B(1) by simp
    have le: "unat (dn_bytesSent d) < length c" using more c by (simp add: word_less_nat_alt)
    then have "unat (dn_bytesSent d) + length (concat (map snd blocks)) < 2 ^ 64"
      using l c unat_u64_less [of "ts_totalSize ts"] by simp
    then have "unat (dn_bytesSent d') = unat (dn_bytesSent d) + length (concat (map snd blocks))"
      by (simp add: d'_def unat_word_ariths unat_of_nat)
    then show ?thesis using l le by simp
  qed
  moreover have "resend_chunks (dn_chunks d') (ts'\<lparr>ts_missingChunks := ms\<rparr>) =
      Inr (map ((!) blocks) (filter (\<lambda>i. i < length blocks) (map unat ms)))" for ms
    using B(2) offs by (auto simp: resend_chunks_def ts'_def d'_def Let_def nth_append)
  ultimately show ?thesis using B by (intro exI [of _ blocks] exI [of _ ts'] exI [of _ d']) (simp add: d'_def)
qed

definition shared_file :: "bytes \<Rightarrow> TransferState" where
  "shared_file c = new_TransferState\<lparr>ts_uploadId := bytesToHex (replicate 16 0), ts_tempPath := ''./uploads/x'', ts_totalSize := of_nat (length c)\<rparr>"

definition sharing :: "bytes \<Rightarrow> FileTransferManager" where
  "sharing c = new_FileTransferManager\<lparr>ft_heap := [0 \<mapsto> shared_file c], ft_files := [''./uploads/x'' \<mapsto> c],
     ft_downloadableFiles := [bytesToHex (replicate 16 0) \<mapsto> 0]\<rparr>"

theorem download_round_sends_next_part_witness:
  "\<exists>blocks. concat (map snd blocks) = take (MAX_CHUNKS_PER_ROUND * MAX_CHUNK_SIZE) [1, 2, 3 :: byte] \<and> blocks \<noteq> [] \<and>
     (\<exists>st' d'. dn_round (\<lambda>_. True) (new_download ([], ''r'', [], 0)) (fresh_ft undefined undefined (sharing [1, 2, 3])) =
        bind_res (post_all (\<lambda>_. True) (map (chunk_packet []) blocks) ''r'' st') (\<lambda>st''. Inr (d', st'')))"
proof -
  let ?st = "fresh_ft undefined undefined (sharing [1, 2, 3])" and ?d = "new_download ([], ''r'', [], 0)"
  show ?thesis
    using download_round_sends_next_part [of ?st ?d "shared_file [1, 2, 3]" "[1, 2, 3]" "\<lambda>_. True"]
    by (auto simp: fresh_ft_def sharing_def shared_file_def new_download_def new_TransferState_def)
qed



end
