(* ===== verification/Table.thy ===== *)
theory Table
  imports Auth_Manager "HOL-Library.AList"
begin

text \<open>
  The users on disk, \<open>datastructure/table.h\<close>: an array of encrypted records in a mapped file, the indexes
  over it and the cache of recently used records. \<open>zcrc\<close> is the checksum of zlib; \<open>can_map\<close> says
  whether the system grants a mapping of a size; \<open>rb\<close> is how compiled code reads a \<open>bool\<close> from its byte,
  of which only the bytes 0 and 1 are determined (\<open>bool_read\<close>).
\<close>

definition bool_read :: "(byte \<Rightarrow> bool) \<Rightarrow> bool" where
  "bool_read rb \<longleftrightarrow> \<not> rb 0 \<and> rb 1"

section \<open>Records in memory\<close>

definition sizeof_userInfo :: nat where "sizeof_userInfo = 280"

text \<open>Field offsets 0, 16, 48, 176, 240, 241, 273, 274, one byte of padding, and 276.\<close>

definition enc_userInfo :: "userInfo \<Rightarrow> bytes" where
  "enc_userInfo u =
     uf_user_id u @ uf_username u @ uf_password_hash u @ uf_email u @ [of_bool (uf_email_verified u)] @
     uf_phone_hash u @ [of_bool (uf_phone_discoverable u)] @ [of_bool (uf_is_deleted u)] @ [0] @ rev (be32 (uf_checksum u))"

definition dec_userInfo :: "(byte \<Rightarrow> bool) \<Rightarrow> bytes \<Rightarrow> userInfo" where
  "dec_userInfo rb bs =
     \<lparr>uf_user_id = take 16 bs, uf_username = segment 16 32 bs, uf_password_hash = segment 48 128 bs,
      uf_email = segment 176 64 bs, uf_email_verified = rb (bs ! 240), uf_phone_hash = segment 241 32 bs,
      uf_phone_discoverable = rb (bs ! 273), uf_is_deleted = rb (bs ! 274), uf_checksum = rd32 (rev (segment 276 4 bs))\<rparr>"

definition wf_userInfo :: "userInfo \<Rightarrow> bool" where
  "wf_userInfo u \<longleftrightarrow> length (uf_user_id u) = 16 \<and> length (uf_username u) = 32 \<and> length (uf_password_hash u) = 128 \<and>
     length (uf_email u) = 64 \<and> length (uf_phone_hash u) = 32"

definition ENC_KEY :: bytes where
  "ENC_KEY = [0x1A, 0x2B, 0x3C, 0x4D, 0x5E, 0x6F, 0x7A, 0x8B, 0x9C, 0xAD, 0xBE, 0xCF, 0xD1, 0xE2, 0xF3, 0x04]"

definition encryptRecord :: "bytes \<Rightarrow> bytes" where
  "encryptRecord bs = map (\<lambda>i. bs ! i XOR ENC_KEY ! (i mod 16)) [0..<length bs]"

definition decryptRecord :: "bytes \<Rightarrow> bytes" where
  "decryptRecord = encryptRecord"

definition calculateChecksum :: "(bytes \<Rightarrow> u32) \<Rightarrow> bytes \<Rightarrow> u32" where
  "calculateChecksum zcrc rec = zcrc (take (sizeof_userInfo - 4) rec)"

text \<open>The record as it is stored: the checksum is written over its last four bytes, then all is encrypted.\<close>

definition seal :: "(bytes \<Rightarrow> u32) \<Rightarrow> bytes \<Rightarrow> bytes" where
  "seal zcrc bs = encryptRecord (take (sizeof_userInfo - 4) bs @ rev (be32 (calculateChecksum zcrc bs)))"

section \<open>Parsing\<close>

definition isspace :: "char \<Rightarrow> bool" where
  "isspace c \<longleftrightarrow> c = CHR '' '' \<or> c = CHR 0x09 \<or> c = CHR 0x0A \<or> c = CHR 0x0B \<or> c = CHR 0x0C \<or> c = CHR 0x0D"

text \<open>The tokens \<open>iss >> token\<close> yields.\<close>

function tokens_of :: "string \<Rightarrow> string list" where
  "tokens_of s =
     (let t = dropWhile isspace s in
      if t = [] then [] else takeWhile (\<lambda>c. \<not> isspace c) t # tokens_of (dropWhile (\<lambda>c. \<not> isspace c) t))"
  by pat_completeness auto
termination
proof (relation "measure length")
  fix s t :: string assume "t = dropWhile isspace s" "t \<noteq> []"
  then have "\<not> isspace (hd t)" using hd_dropWhile by blast
  then have "length (dropWhile (\<lambda>c. \<not> isspace c) t) < length t"
    using \<open>t \<noteq> []\<close> length_dropWhile_le [of "\<lambda>c. \<not> isspace c" "tl t"] by (cases t) auto
  moreover have "length t \<le> length s" using \<open>t = _\<close> by (simp add: length_dropWhile_le)
  ultimately show "(dropWhile (\<lambda>c. \<not> isspace c) t, s) \<in> measure length" by simp
qed simp

declare tokens_of.simps [simp del]

definition safeCopyBytes :: "string \<Rightarrow> nat \<Rightarrow> bytes" where
  "safeCopyBytes src maxLen = take maxLen (str_bytes src) @ replicate (maxLen - length src) 0"

definition safeCopy :: "string \<Rightarrow> nat \<Rightarrow> bytes" where
  "safeCopy src maxLen = safeCopyBytes (take (maxLen - 1) src) maxLen"

definition is_true :: "string \<Rightarrow> bool" where
  "is_true token \<longleftrightarrow> token = ''true'' \<or> token = ''TRUE''"

text \<open>The output record was zeroed before; on failure it is not used.\<close>

definition parseInput :: "string \<Rightarrow> userInfo option" where
  "parseInput s =
     (case tokens_of s of
        t0 # t1 # t2 # t3 # t4 # t5 # t6 # _ \<Rightarrow>
          Some \<lparr>uf_user_id = safeCopyBytes t0 16, uf_username = safeCopy t1 32, uf_password_hash = safeCopyBytes t2 128,
                uf_email = safeCopy t3 64, uf_email_verified = is_true t4, uf_phone_hash = safeCopyBytes t5 32,
                uf_phone_discoverable = is_true t6, uf_is_deleted = False, uf_checksum = 0\<rparr>
      | _ \<Rightarrow> None)"

section \<open>State\<close>

text \<open>
  An iterator into the frequency list is the end or a node. A node is identified by a number, and using
  an iterator to a node that has been erased, or the end, is a fault.
\<close>

datatype freq_iter = FEnd | FNode nat

record FreqNode =
  fn_id :: nat
  fn_freq :: int
  fn_keys :: "string list"

record lfu =
  lf_cacheMap :: "(string \<times> bytes \<times> freq_iter) list"
  lf_freqList :: "FreqNode list"
  lf_keyToFreq :: "string \<rightharpoonup> freq_iter"
  lf_next :: nat

record table =
  tb_lfu :: lfu
  tb_pageNum :: "string \<rightharpoonup> nat"
  tb_phoneToUid :: "string \<rightharpoonup> string"
  tb_emailToUid :: "string \<rightharpoonup> string"
  tb_currentRecords :: nat
  tb_capacity :: nat
  tb_mapped :: bool
  tb_file :: bytes

definition CACHE_LIMIT :: nat where "CACHE_LIMIT = 10000"
definition MIN_HEADROOM_RECORDS :: nat where "MIN_HEADROOM_RECORDS = 1000"
definition MAX_HEADROOM_RECORDS :: nat where "MAX_HEADROOM_RECORDS = 50000"

definition empty_lfu :: lfu where
  "empty_lfu = \<lparr>lf_cacheMap = [], lf_freqList = [], lf_keyToFreq = Map.empty, lf_next = 0\<rparr>"

section \<open>The cache\<close>

definition evictLFU :: "lfu \<Rightarrow> lfu" where
  "evictLFU c =
     (case lf_freqList c of
        [] \<Rightarrow> c
      | lowest # rest \<Rightarrow>
          (case fn_keys lowest of
             [] \<Rightarrow> c
           | key # keys \<Rightarrow>
               c\<lparr>lf_cacheMap := AList.delete key (lf_cacheMap c), lf_keyToFreq := (lf_keyToFreq c)(key := None),
                 lf_freqList := (if keys = [] then rest else lowest\<lparr>fn_keys := keys\<rparr> # rest)\<rparr>))"

text \<open>The branch for a key that is already in the cache.\<close>

definition touch_node :: "string \<Rightarrow> nat \<Rightarrow> lfu \<Rightarrow> lfu res" where
  "touch_node key n c =
     (case List.find (\<lambda>f. fn_id f = n) (lf_freqList c) of
        None \<Rightarrow> Inl BadIterator
      | Some node \<Rightarrow>
          let keys = filter (\<lambda>k. k \<noteq> key) (fn_keys node) in
          if keys = [] then Inr (c\<lparr>lf_freqList := filter (\<lambda>f. fn_id f \<noteq> n) (lf_freqList c)\<rparr>)
          else
            let fl = map (\<lambda>f. if fn_id f = n then f\<lparr>fn_keys := keys, fn_freq := fn_freq f + 1\<rparr> else f) (lf_freqList c)
            in if fn_freq node + 1 > fn_freq (last fl)
               then Inr (c\<lparr>lf_freqList := fl @ [\<lparr>fn_id = lf_next c, fn_freq = fn_freq node + 1, fn_keys = []\<rparr>],
                           lf_next := Suc (lf_next c)\<rparr>)
               else Inr (c\<lparr>lf_freqList := fl\<rparr>))"

definition new_node :: "string \<Rightarrow> lfu \<Rightarrow> lfu" where
  "new_node key c =
     (let c1 = (if lf_freqList c = [] \<or> fn_freq (last (lf_freqList c)) \<noteq> 1
                then c\<lparr>lf_freqList := lf_freqList c @ [\<lparr>fn_id = lf_next c, fn_freq = 1, fn_keys = []\<rparr>],
                       lf_next := Suc (lf_next c)\<rparr>
                else c);
          node = last (lf_freqList c1)
      in c1\<lparr>lf_freqList := butlast (lf_freqList c1) @ [node\<lparr>fn_keys := fn_keys node @ [key]\<rparr>],
            lf_keyToFreq := (lf_keyToFreq c1)(key \<mapsto> FEnd)\<rparr>)"

definition updateLFU :: "string \<Rightarrow> bytes \<Rightarrow> lfu \<Rightarrow> lfu res" where
  "updateLFU key v c =
     bind_res (case lf_keyToFreq c key of
                 Some FEnd \<Rightarrow> Inl BadIterator
               | Some (FNode n) \<Rightarrow> touch_node key n c
               | None \<Rightarrow> Inr (new_node key c)) (\<lambda>c1.
       case lf_keyToFreq c1 key of
         None \<Rightarrow> Inl BadIterator
       | Some it \<Rightarrow> Inr (c1\<lparr>lf_cacheMap := AList.update key (v, it) (lf_cacheMap c1)\<rparr>))"

definition cache_record :: "string \<Rightarrow> bytes \<Rightarrow> table \<Rightarrow> table res" where
  "cache_record key v t =
     (let c = (if CACHE_LIMIT \<le> length (lf_cacheMap (tb_lfu t)) then evictLFU (tb_lfu t) else tb_lfu t)
      in bind_res (updateLFU key v c) (\<lambda>c1. Inr (t\<lparr>tb_lfu := c1\<rparr>)))"

section \<open>Storage\<close>

definition growth :: "nat \<Rightarrow> nat" where
  "growth n = min (max (n * 3 div 2) (n + MIN_HEADROOM_RECORDS)) (n + MAX_HEADROOM_RECORDS)"

text \<open>A mapping larger than the file extends it with zeros.\<close>

definition map_file :: "(nat \<Rightarrow> bool) \<Rightarrow> nat \<Rightarrow> table \<Rightarrow> table" where
  "map_file can_map cap t =
     (let n = cap * sizeof_userInfo in
      t\<lparr>tb_capacity := cap, tb_mapped := can_map n,
        tb_file := (if can_map n then tb_file t @ replicate (n - length (tb_file t)) 0 else tb_file t)\<rparr>)"

definition ensureCapacity :: "(nat \<Rightarrow> bool) \<Rightarrow> nat \<Rightarrow> table \<Rightarrow> bool \<times> table" where
  "ensureCapacity can_map needed t =
     (if needed \<le> tb_capacity t then (True, t)
      else let t1 = map_file can_map (growth needed) t in (tb_mapped t1, t1))"

definition record_at :: "nat \<Rightarrow> bytes \<Rightarrow> bytes" where
  "record_at i file = segment (i * sizeof_userInfo) sizeof_userInfo file"

definition read_record :: "nat \<Rightarrow> table \<Rightarrow> bytes res" where
  "read_record i t =
     (if \<not> tb_mapped t then Inl NullDeref else read_bytes (i * sizeof_userInfo) sizeof_userInfo (tb_file t))"

definition write_record :: "nat \<Rightarrow> bytes \<Rightarrow> table \<Rightarrow> table res" where
  "write_record i bs t =
     (if \<not> tb_mapped t then Inl NullDeref
      else if length (tb_file t) < i * sizeof_userInfo + length bs then Inl OutOfBounds
      else Inr (t\<lparr>tb_file := blit (tb_file t) (i * sizeof_userInfo) bs\<rparr>))"

text \<open>\<open>toKey\<close> of a byte array keeps all its bytes, that of a character array stops at the first zero.\<close>

definition index_record :: "(byte \<Rightarrow> bool) \<Rightarrow> nat \<Rightarrow> bytes \<Rightarrow> table \<Rightarrow> table" where
  "index_record rb i bs t =
     (let rec = dec_userInfo rb (decryptRecord bs);
          uid = bytes_str (uf_user_id rec); email = cstr (uf_email rec); phone = bytes_str (uf_phone_hash rec)
      in t\<lparr>tb_pageNum := (tb_pageNum t)(uid \<mapsto> i),
           tb_emailToUid := (if email \<noteq> [] then (tb_emailToUid t)(email \<mapsto> uid) else tb_emailToUid t),
           tb_phoneToUid := (if phone \<noteq> [] then (tb_phoneToUid t)(phone \<mapsto> uid) else tb_phoneToUid t)\<rparr>)"

text \<open>Headroom is recognised by a user id of zeros, before decryption.\<close>

definition blank :: "bytes \<Rightarrow> bool" where
  "blank bs \<longleftrightarrow> (\<forall>b \<in> set (take 16 bs). b = 0)"

fun load_loop :: "(byte \<Rightarrow> bool) \<Rightarrow> nat \<Rightarrow> nat \<Rightarrow> table \<Rightarrow> table" where
  "load_loop rb i 0 t = t\<lparr>tb_currentRecords := i\<rparr>"
| "load_loop rb i (Suc n) t =
     (let bs = record_at i (tb_file t) in
      if blank bs then t\<lparr>tb_currentRecords := i\<rparr>
      else load_loop rb (Suc i) n (index_record rb i bs t))"

definition loadIndex :: "(byte \<Rightarrow> bool) \<Rightarrow> table \<Rightarrow> table" where
  "loadIndex rb t = load_loop rb 0 (tb_currentRecords t)
     (t\<lparr>tb_pageNum := Map.empty, tb_emailToUid := Map.empty, tb_phoneToUid := Map.empty\<rparr>)"

text \<open>The constructor on a data file; the first mapping, of the whole file, is granted or not like the second.\<close>

definition initStorage :: "(byte \<Rightarrow> bool) \<Rightarrow> (nat \<Rightarrow> bool) \<Rightarrow> bytes \<Rightarrow> table" where
  "initStorage rb can_map file =
     (let t0 = \<lparr>tb_lfu = empty_lfu, tb_pageNum = Map.empty, tb_phoneToUid = Map.empty, tb_emailToUid = Map.empty,
                tb_currentRecords = 0, tb_capacity = 0, tb_mapped = False, tb_file = file\<rparr>;
          fileCapacity = length file div sizeof_userInfo;
          t1 = (if file \<noteq> [] \<and> can_map (length file) then loadIndex rb (t0\<lparr>tb_currentRecords := fileCapacity\<rparr>) else t0);
          headroom = fileCapacity - tb_currentRecords t1
      in map_file can_map (if MIN_HEADROOM_RECORDS \<le> headroom then fileCapacity else growth (tb_currentRecords t1)) t1)"

text \<open>The file that remains when the table is closed.\<close>

definition flushAndClose :: "table \<Rightarrow> bytes" where
  "flushAndClose t =
     (let n = tb_currentRecords t * sizeof_userInfo in take n (tb_file t) @ replicate (n - length (tb_file t)) 0)"

section \<open>Operations\<close>

text \<open>
  The secondary indexes are filled from the record after its encryption, including the flag
  \<open>is_deleted\<close> that is tested.
\<close>

definition add_indexes :: "(byte \<Rightarrow> bool) \<Rightarrow> string \<Rightarrow> nat \<Rightarrow> bytes \<Rightarrow> table \<Rightarrow> table" where
  "add_indexes rb uid idx bs t =
     (let rec = dec_userInfo rb bs; email = cstr (uf_email rec); phone = bytes_str (uf_phone_hash rec)
      in t\<lparr>tb_pageNum := (tb_pageNum t)(uid \<mapsto> idx), tb_currentRecords := idx + 1,
           tb_emailToUid := (if email \<noteq> [] \<and> \<not> uf_is_deleted rec then (tb_emailToUid t)(email \<mapsto> uid) else tb_emailToUid t),
           tb_phoneToUid := (if phone \<noteq> [] \<and> \<not> uf_is_deleted rec then (tb_phoneToUid t)(phone \<mapsto> uid) else tb_phoneToUid t)\<rparr>)"

definition writeTheData ::
  "(bytes \<Rightarrow> u32) \<Rightarrow> (byte \<Rightarrow> bool) \<Rightarrow> (nat \<Rightarrow> bool) \<Rightarrow> string \<Rightarrow> table \<Rightarrow> (bool \<times> table) res" where
  "writeTheData zcrc rb can_map dataStr t =
     (case parseInput dataStr of
        None \<Rightarrow> Inr (False, t)
      | Some record \<Rightarrow>
          let uid = bytes_str (uf_user_id record);
              bs = seal zcrc (enc_userInfo record);
              (ok, t1) = ensureCapacity can_map (tb_currentRecords t + 1) t
          in if \<not> ok then Inr (False, t1)
             else
               let idx = tb_currentRecords t1 in
               bind_res (write_record idx bs t1) (\<lambda>t2.
                 bind_res (cache_record uid bs (add_indexes rb uid idx bs t2)) (\<lambda>t3. Inr (True, t3))))"

definition updateTheData :: "(bytes \<Rightarrow> u32) \<Rightarrow> string \<Rightarrow> table \<Rightarrow> (bool \<times> table) res" where
  "updateTheData zcrc dataStr t =
     (case parseInput dataStr of
        None \<Rightarrow> Inr (False, t)
      | Some newRecord \<Rightarrow>
          let uid = bytes_str (uf_user_id newRecord) in
          case tb_pageNum t uid of
            None \<Rightarrow> Inr (False, t)
          | Some idx \<Rightarrow>
              let bs = seal zcrc (enc_userInfo newRecord) in
              bind_res (write_record idx bs t) (\<lambda>t1.
                if map_of (lf_cacheMap (tb_lfu t1)) uid \<noteq> None
                then bind_res (updateLFU uid bs (tb_lfu t1)) (\<lambda>c. Inr (True, t1\<lparr>tb_lfu := c\<rparr>))
                else Inr (True, t1)))"

definition resolve :: "string \<Rightarrow> table \<Rightarrow> string" where
  "resolve key t =
     (let uid = (case tb_emailToUid t key of Some u \<Rightarrow> u | None \<Rightarrow> key)
      in case tb_phoneToUid t key of Some u \<Rightarrow> u | None \<Rightarrow> uid)"

definition deleteData :: "(bytes \<Rightarrow> u32) \<Rightarrow> (byte \<Rightarrow> bool) \<Rightarrow> string \<Rightarrow> table \<Rightarrow> (bool \<times> table) res" where
  "deleteData zcrc rb identifier t =
     (let uid = resolve identifier t in
      case tb_pageNum t uid of
        None \<Rightarrow> Inr (False, t)
      | Some idx \<Rightarrow>
          bind_res (read_record idx t) (\<lambda>bs.
            let rec = decryptRecord bs in
            if uf_is_deleted (dec_userInfo rb rec) then Inr (False, t)
            else
              bind_res (write_record idx (seal zcrc (rec[274 := 1])) t) (\<lambda>t1.
                Inr (True, t1\<lparr>tb_lfu := (tb_lfu t1)\<lparr>lf_cacheMap := AList.delete uid (lf_cacheMap (tb_lfu t1)),
                                lf_keyToFreq := (lf_keyToFreq (tb_lfu t1))(uid := None)\<rparr>,
                              tb_emailToUid := (tb_emailToUid t1)(uid := None),
                              tb_phoneToUid := (tb_phoneToUid t1)(uid := None)\<rparr>))))"

definition createOutput :: "userInfo \<Rightarrow> string \<Rightarrow> string" where
  "createOutput rec req =
     (if req = ''NULL'' then []
      else if req = ''username'' then cstr (uf_username rec) @ '' ''
      else if req = ''password_hash'' then bytes_str (uf_password_hash rec) @ '' ''
      else if req = ''email'' then cstr (uf_email rec) @ '' ''
      else if req = ''email_verified'' then (if uf_email_verified rec then ''TRUE'' else ''FALSE'') @ '' ''
      else if req = ''phone_hash'' then bytes_str (uf_phone_hash rec) @ '' ''
      else if req = ''phone_discoverable'' then (if uf_phone_discoverable rec then ''TRUE'' else ''FALSE'') @ '' ''
      else [])"

definition buildOutput :: "userInfo \<Rightarrow> string \<Rightarrow> string" where
  "buildOutput rec query =
     (if uf_is_deleted rec then ''NOT_FOUND''
      else bytes_str (uf_user_id rec) @ '' '' @ concat (map (createOutput rec) (tokens_of query)))"

definition getData :: "(byte \<Rightarrow> bool) \<Rightarrow> string \<Rightarrow> table \<Rightarrow> (string \<times> table) res" where
  "getData rb query t =
     (let key = (case tokens_of query of [] \<Rightarrow> [] | k # _ \<Rightarrow> k); uid = resolve key t in
      case map_of (lf_cacheMap (tb_lfu t)) uid of
        Some (bs, _) \<Rightarrow>
          bind_res (updateLFU uid bs (tb_lfu t)) (\<lambda>c. Inr (buildOutput (dec_userInfo rb bs) query, t\<lparr>tb_lfu := c\<rparr>))
      | None \<Rightarrow>
          (case tb_pageNum t uid of
             None \<Rightarrow> Inr (''NOT_FOUND'', t)
           | Some idx \<Rightarrow>
               bind_res (read_record idx t) (\<lambda>bs.
                 let rec = decryptRecord bs in
                 if uf_is_deleted (dec_userInfo rb rec) then Inr (''NOT_FOUND'', t)
                 else bind_res (cache_record uid rec t) (\<lambda>t1. Inr (buildOutput (dec_userInfo rb rec) query, t1)))))"

definition getAllRecords :: "(byte \<Rightarrow> bool) \<Rightarrow> table \<Rightarrow> userInfo list" where
  "getAllRecords rb t =
     (if tb_mapped t
      then filter (\<lambda>u. \<not> uf_is_deleted u)
             (map (\<lambda>i. dec_userInfo rb (decryptRecord (record_at i (tb_file t)))) [0..<tb_currentRecords t])
      else [])"

section \<open>Records round-trip\<close>

lemma length_encryptRecord [simp]: "length (encryptRecord bs) = length bs"
  by (simp add: encryptRecord_def)

lemma nth_encryptRecord: "i < length bs \<Longrightarrow> encryptRecord bs ! i = bs ! i XOR ENC_KEY ! (i mod 16)"
  by (simp add: encryptRecord_def)

lemma decrypt_encrypt [simp]: "decryptRecord (encryptRecord bs) = bs"
  unfolding decryptRecord_def by (rule nth_equalityI) (simp_all add: nth_encryptRecord xor.assoc)

lemma length_enc_userInfo: "wf_userInfo u \<Longrightarrow> length (enc_userInfo u) = sizeof_userInfo"
  by (simp add: wf_userInfo_def enc_userInfo_def sizeof_userInfo_def)

lemma rd_of_bool: "bool_read rb \<Longrightarrow> rb (of_bool b) = b"
  by (cases b) (simp_all add: bool_read_def)

lemma dec_enc_userInfo: "wf_userInfo u \<Longrightarrow> bool_read rb \<Longrightarrow> dec_userInfo rb (enc_userInfo u) = u"
  by (cases u) (simp add: wf_userInfo_def enc_userInfo_def dec_userInfo_def segment_def nth_append rd_of_bool)

text \<open>What a stored record decrypts to: the record with its checksum.\<close>

definition sealed :: "(bytes \<Rightarrow> u32) \<Rightarrow> userInfo \<Rightarrow> userInfo" where
  "sealed zcrc u = u\<lparr>uf_checksum := calculateChecksum zcrc (enc_userInfo u)\<rparr>"

lemma decrypt_seal: "wf_userInfo u \<Longrightarrow> decryptRecord (seal zcrc (enc_userInfo u)) = enc_userInfo (sealed zcrc u)"
  by (simp add: seal_def sealed_def wf_userInfo_def sizeof_userInfo_def) (simp add: enc_userInfo_def)

lemma dec_seal:
  assumes "wf_userInfo u" "bool_read rb"
  shows "dec_userInfo rb (decryptRecord (seal zcrc (enc_userInfo u))) = sealed zcrc u"
proof -
  have "wf_userInfo (sealed zcrc u)" using assms(1) by (simp add: wf_userInfo_def sealed_def)
  then show ?thesis using assms dec_enc_userInfo by (simp add: decrypt_seal)
qed

lemma length_seal: "wf_userInfo u \<Longrightarrow> length (seal zcrc (enc_userInfo u)) = sizeof_userInfo"
  by (simp add: seal_def length_enc_userInfo sizeof_userInfo_def)

lemma length_safeCopy [simp]:
  "length (safeCopyBytes s n) = n" "0 < n \<Longrightarrow> length (safeCopy s n) = n"
  by (simp_all add: safeCopyBytes_def safeCopy_def)

lemma parseInput_wf: "parseInput s = Some u \<Longrightarrow> wf_userInfo u \<and> \<not> uf_is_deleted u"
  by (auto simp: parseInput_def wf_userInfo_def split: list.splits)

section \<open>Storage\<close>

definition tb_inv :: "table \<Rightarrow> bool" where
  "tb_inv t \<longleftrightarrow> tb_mapped t \<and> tb_capacity t * sizeof_userInfo \<le> length (tb_file t) \<and>
     tb_currentRecords t \<le> tb_capacity t \<and> (\<forall>i < tb_currentRecords t. \<not> blank (record_at i (tb_file t)))"

lemma growth_gt: "n \<le> growth n"
  by (simp add: growth_def)

lemma record_at_append: "Suc i * sizeof_userInfo \<le> length f \<Longrightarrow> record_at i (f @ g) = record_at i f"
  by (simp add: record_at_def segment_def)

lemma record_at_blit:
  assumes "length bs = sizeof_userInfo" "Suc n * sizeof_userInfo \<le> length f" "i \<le> n"
  shows "record_at i (blit f (n * sizeof_userInfo) bs) = (if i = n then bs else record_at i f)"
proof (cases "i = n")
  case True
  then show ?thesis using assms by (simp add: record_at_def segment_def drop_blit)
next
  case False
  then have "Suc i \<le> n" using assms(3) by simp
  then have "Suc i * sizeof_userInfo \<le> n * sizeof_userInfo" by (rule mult_le_mono1)
  then have le: "i * sizeof_userInfo + sizeof_userInfo \<le> n * sizeof_userInfo" by simp
  have "record_at i f' = record_at i (take (n * sizeof_userInfo) f')" for f' :: bytes
    using le by (simp add: record_at_def segment_def drop_take min_def)
  then show ?thesis using False assms le by (metis add_leD1 mult_Suc take_blit add.commute)
qed

lemma map_file_ok:
  assumes "\<forall>n. can_map n" "tb_currentRecords t \<le> cap" "tb_currentRecords t * sizeof_userInfo \<le> length (tb_file t)"
    and "\<forall>i < tb_currentRecords t. \<not> blank (record_at i (tb_file t))"
  shows "tb_inv (map_file can_map cap t)"
    and "i < tb_currentRecords t \<Longrightarrow> record_at i (tb_file (map_file can_map cap t)) = record_at i (tb_file t)"
proof -
  have e: "record_at i (tb_file t @ z) = record_at i (tb_file t)" if "i < tb_currentRecords t" for i z
  proof (rule record_at_append)
    show "Suc i * sizeof_userInfo \<le> length (tb_file t)" using that assms(3) by (meson Suc_leI le_trans mult_le_mono1)
  qed
  then show "i < tb_currentRecords t \<Longrightarrow> record_at i (tb_file (map_file can_map cap t)) = record_at i (tb_file t)"
    using assms(1) by (simp add: map_file_def)
  show "tb_inv (map_file can_map cap t)"
    using assms e by (simp add: tb_inv_def map_file_def Let_def)
qed

lemma ensureCapacity_ok:
  assumes "tb_inv t" "\<forall>n. can_map n"
  obtains t1 where "ensureCapacity can_map (tb_currentRecords t + 1) t = (True, t1)" "tb_inv t1"
    "Suc (tb_currentRecords t) * sizeof_userInfo \<le> length (tb_file t1)" "Suc (tb_currentRecords t) \<le> tb_capacity t1"
    "\<And>i. i < tb_currentRecords t \<Longrightarrow> record_at i (tb_file t1) = record_at i (tb_file t)"
    "tb_currentRecords t1 = tb_currentRecords t" "tb_lfu t1 = tb_lfu t" "tb_emailToUid t1 = tb_emailToUid t"
    "tb_pageNum t1 = tb_pageNum t"
proof (cases "tb_currentRecords t + 1 \<le> tb_capacity t")
  case True
  have "Suc (tb_currentRecords t) * sizeof_userInfo \<le> tb_capacity t * sizeof_userInfo"
    using True by (intro mult_le_mono1) simp
  then have "Suc (tb_currentRecords t) * sizeof_userInfo \<le> length (tb_file t)"
    using assms(1) unfolding tb_inv_def by linarith
  then show ?thesis using True assms(1) by (intro that [of t]) (simp_all add: ensureCapacity_def)
next
  case False
  let ?t = "map_file can_map (growth (tb_currentRecords t + 1)) t"
  have g: "Suc (tb_currentRecords t) \<le> growth (tb_currentRecords t + 1)" using growth_gt [of "tb_currentRecords t + 1"] by simp
  have len: "tb_currentRecords t * sizeof_userInfo \<le> length (tb_file t)"
    using assms(1) by (meson le_trans mult_le_mono1 tb_inv_def)
  have M: "tb_inv ?t" "\<And>i. i < tb_currentRecords t \<Longrightarrow> record_at i (tb_file ?t) = record_at i (tb_file t)"
    using map_file_ok [OF assms(2) _ len, of "growth (tb_currentRecords t + 1)"] g assms(1) by (auto simp: tb_inv_def)
  have "growth (tb_currentRecords t + 1) * sizeof_userInfo \<le> length (tb_file ?t)"
    using assms(2) by (simp add: map_file_def Let_def)
  then have "Suc (tb_currentRecords t) * sizeof_userInfo \<le> length (tb_file ?t)"
    using mult_le_mono1 [OF g, of sizeof_userInfo] by linarith
  then show ?thesis using False M g assms(2)
    by (intro that [of ?t]) (simp_all add: ensureCapacity_def map_file_def Let_def)
qed

section \<open>Writing\<close>

lemma evictLFU_absent: "lf_keyToFreq c key = None \<Longrightarrow> lf_keyToFreq (evictLFU c) key = None"
  by (simp add: evictLFU_def split: list.split)

lemma updateLFU_new:
  assumes "lf_keyToFreq c key = None"
  obtains c1 where "updateLFU key v c = Inr c1" "lf_keyToFreq c1 key = Some FEnd" "map_of (lf_cacheMap c1) key = Some (v, FEnd)"
  using assms by (auto simp: updateLFU_def new_node_def Let_def update_conv')

lemma cache_record_new:
  assumes "lf_keyToFreq (tb_lfu t) key = None"
  obtains c where "cache_record key v t = Inr (t\<lparr>tb_lfu := c\<rparr>)" "lf_keyToFreq c key = Some FEnd"
    "map_of (lf_cacheMap c) key = Some (v, FEnd)"
proof -
  let ?c = "if CACHE_LIMIT \<le> length (lf_cacheMap (tb_lfu t)) then evictLFU (tb_lfu t) else tb_lfu t"
  have "lf_keyToFreq ?c key = None" using assms by (simp add: evictLFU_absent)
  then obtain c1 where "updateLFU key v ?c = Inr c1" "lf_keyToFreq c1 key = Some FEnd" "map_of (lf_cacheMap c1) key = Some (v, FEnd)"
    by (rule updateLFU_new)
  then show ?thesis by (intro that [of c1]) (simp_all add: cache_record_def Let_def)
qed

lemma xor_zero_eq: "a = b" if "a XOR b = 0" for a b :: byte
proof -
  have "a = (a XOR b) XOR b" by (simp add: xor.assoc)
  then show ?thesis by (simp add: that)
qed

lemma blank_seal:
  assumes u: "wf_userInfo u" and id: "uf_user_id u \<noteq> ENC_KEY"
  shows "\<not> blank (seal zcrc (enc_userInfo u))"
proof
  assume b: "blank (seal zcrc (enc_userInfo u))"
  have l: "length (uf_user_id u) = 16" using u by (simp add: wf_userInfo_def)
  have len: "length (seal zcrc (enc_userInfo u)) = 280" using length_seal [OF u] by (simp add: sizeof_userInfo_def)
  have "uf_user_id u ! i = ENC_KEY ! i" if i: "i < 16" for i
  proof -
    have "take 16 (seal zcrc (enc_userInfo u)) ! i \<in> set (take 16 (seal zcrc (enc_userInfo u)))"
      using i len by (intro nth_mem) simp
    then have "seal zcrc (enc_userInfo u) ! i = 0" using b i unfolding blank_def by simp
    moreover have "enc_userInfo u ! i = uf_user_id u ! i" using l i by (simp add: enc_userInfo_def nth_append)
    ultimately have "uf_user_id u ! i XOR ENC_KEY ! i = 0"
      using i length_enc_userInfo [OF u] by (simp add: seal_def nth_encryptRecord nth_append sizeof_userInfo_def)
    then show ?thesis by (rule xor_zero_eq)
  qed
  then have "uf_user_id u = ENC_KEY" using l by (intro nth_equalityI) (simp_all add: ENC_KEY_def)
  then show False using id by contradiction
qed

lemma writeTheData_ok:
  assumes inv: "tb_inv t" and maps: "\<forall>n. can_map n" and p: "parseInput s = Some u"
    and new: "lf_keyToFreq (tb_lfu t) (bytes_str (uf_user_id u)) = None" and id: "uf_user_id u \<noteq> ENC_KEY"
  obtains t' where "writeTheData zcrc rb can_map s t = Inr (True, t')" "tb_inv t'"
    "tb_currentRecords t' = Suc (tb_currentRecords t)"
    "record_at (tb_currentRecords t) (tb_file t') = seal zcrc (enc_userInfo u)"
    "\<And>i. i < tb_currentRecords t \<Longrightarrow> record_at i (tb_file t') = record_at i (tb_file t)"
    "tb_pageNum t' (bytes_str (uf_user_id u)) = Some (tb_currentRecords t)"
    "lf_keyToFreq (tb_lfu t') (bytes_str (uf_user_id u)) = Some FEnd"
    "map_of (lf_cacheMap (tb_lfu t')) (bytes_str (uf_user_id u)) = Some (seal zcrc (enc_userInfo u), FEnd)"
    "tb_emailToUid t' = tb_emailToUid t \<or>
     tb_emailToUid t' = (tb_emailToUid t)(cstr (uf_email (dec_userInfo rb (seal zcrc (enc_userInfo u)))) \<mapsto> bytes_str (uf_user_id u)) \<and>
       cstr (uf_email (dec_userInfo rb (seal zcrc (enc_userInfo u)))) \<noteq> []"
proof -
  let ?n = "tb_currentRecords t" and ?bs = "seal zcrc (enc_userInfo u)" and ?uid = "bytes_str (uf_user_id u)"
  have u: "wf_userInfo u" using parseInput_wf [OF p] by blast
  have l: "length ?bs = sizeof_userInfo" using u by (rule length_seal)
  obtain t1 where t1: "ensureCapacity can_map (?n + 1) t = (True, t1)" "tb_inv t1"
    "Suc ?n * sizeof_userInfo \<le> length (tb_file t1)" "Suc ?n \<le> tb_capacity t1"
    "\<And>i. i < ?n \<Longrightarrow> record_at i (tb_file t1) = record_at i (tb_file t)"
    "tb_currentRecords t1 = ?n" "tb_lfu t1 = tb_lfu t" "tb_emailToUid t1 = tb_emailToUid t"
    by (rule ensureCapacity_ok [OF inv maps]) (rule that)
  define f where "f = blit (tb_file t1) (?n * sizeof_userInfo) ?bs"
  have w: "write_record ?n ?bs t1 = Inr (t1\<lparr>tb_file := f\<rparr>)"
    using t1(2,3) l by (simp add: write_record_def tb_inv_def f_def)
  have at: "record_at i f = (if i = ?n then ?bs else record_at i (tb_file t))" if "i < Suc ?n" for i
    unfolding f_def using that t1(5) record_at_blit [OF l t1(3), of i] by auto
  have lf: "length f = length (tb_file t1)" unfolding f_def using t1(3) l by (intro length_blit) simp
  define t3 where "t3 = add_indexes rb ?uid ?n ?bs (t1\<lparr>tb_file := f\<rparr>)"
  have t3: "tb_lfu t3 = tb_lfu t" "tb_file t3 = f" "tb_mapped t3 = tb_mapped t1" "tb_capacity t3 = tb_capacity t1"
    "tb_currentRecords t3 = Suc ?n" "tb_pageNum t3 ?uid = Some ?n"
    "tb_emailToUid t3 = tb_emailToUid t \<or> tb_emailToUid t3 = (tb_emailToUid t)(cstr (uf_email (dec_userInfo rb ?bs)) \<mapsto> ?uid) \<and>
       cstr (uf_email (dec_userInfo rb ?bs)) \<noteq> []"
    using t1(7,8) by (auto simp: t3_def add_indexes_def Let_def)
  have k3: "lf_keyToFreq (tb_lfu t3) ?uid = None" using new t3(1) by simp
  obtain c where c: "cache_record ?uid ?bs t3 = Inr (t3\<lparr>tb_lfu := c\<rparr>)" "lf_keyToFreq c ?uid = Some FEnd"
    "map_of (lf_cacheMap c) ?uid = Some (?bs, FEnd)"
    by (rule cache_record_new [OF k3]) (rule that)
  let ?t = "t3\<lparr>tb_lfu := c\<rparr>"
  show ?thesis
  proof (rule that [of ?t])
    show "writeTheData zcrc rb can_map s t = Inr (True, ?t)"
      using t1(1,6) w c(1) unfolding writeTheData_def p by (simp add: Let_def t3_def)
    show "tb_currentRecords ?t = Suc ?n" using t3(5) by simp
    have "\<not> blank (record_at i f)" if i: "i < Suc ?n" for i
    proof (cases "i = ?n")
      case True
      then show ?thesis using at [OF i] blank_seal [OF u id] by simp
    next
      case False
      then show ?thesis using i at [OF i] inv by (simp add: tb_inv_def)
    qed
    then show "tb_inv ?t" using t1(2,4) lf t3(2-5) by (simp add: tb_inv_def)
    show "record_at ?n (tb_file ?t) = ?bs" using at [of ?n] t3(2) by simp
    show "record_at i (tb_file ?t) = record_at i (tb_file t)" if "i < ?n" for i using at [of i] that t3(2) by simp
    show "lf_keyToFreq (tb_lfu ?t) ?uid = Some FEnd" "map_of (lf_cacheMap (tb_lfu ?t)) ?uid = Some (?bs, FEnd)"
      using c(2,3) by simp_all
    show "tb_emailToUid ?t = tb_emailToUid t \<or>
       tb_emailToUid ?t = (tb_emailToUid t)(cstr (uf_email (dec_userInfo rb ?bs)) \<mapsto> ?uid) \<and>
       cstr (uf_email (dec_userInfo rb ?bs)) \<noteq> []"
      using t3(7) by simp
    show "tb_pageNum ?t ?uid = Some ?n" using t3(6) by simp
  qed
qed

section \<open>Restarting\<close>

lemma load_loop_ok:
  assumes "\<forall>j < n. \<not> blank (record_at (i + j) (tb_file t))"
  shows "tb_currentRecords (load_loop rb i n t) = i + n \<and> tb_file (load_loop rb i n t) = tb_file t"
  using assms
proof (induction n arbitrary: i t)
  case 0
  then show ?case by simp
next
  case (Suc n)
  let ?t = "index_record rb i (record_at i (tb_file t)) t"
  have f: "tb_file ?t = tb_file t" by (simp add: index_record_def Let_def)
  have "\<forall>j < n. \<not> blank (record_at (Suc i + j) (tb_file ?t))" using Suc.prems f by auto
  then have IH: "tb_currentRecords (load_loop rb (Suc i) n ?t) = Suc i + n \<and> tb_file (load_loop rb (Suc i) n ?t) = tb_file ?t"
    by (rule Suc.IH)
  have "\<not> blank (record_at i (tb_file t))" using Suc.prems by force
  then show ?case using IH f by (simp add: Let_def)
qed

lemma index_record_upd:
  "index_record rb i bs (t\<lparr>tb_currentRecords := n\<rparr>) = (index_record rb i bs t)\<lparr>tb_currentRecords := n\<rparr>"
  by (simp add: index_record_def Let_def)

lemma load_loop_last:
  assumes "\<forall>j < Suc n. \<not> blank (record_at (i + j) (tb_file t))"
  shows "load_loop rb i (Suc n) t =
    (index_record rb (i + n) (record_at (i + n) (tb_file t)) (load_loop rb i n t))\<lparr>tb_currentRecords := i + Suc n\<rparr>"
  using assms
proof (induction n arbitrary: i t)
  case 0
  then show ?case by (simp add: Let_def index_record_upd)
next
  case (Suc n)
  let ?t = "index_record rb i (record_at i (tb_file t)) t"
  have f: "tb_file ?t = tb_file t" by (simp add: index_record_def Let_def)
  have b: "\<not> blank (record_at i (tb_file t))" using Suc.prems by force
  have "\<forall>j < Suc n. \<not> blank (record_at (Suc i + j) (tb_file ?t))" using Suc.prems f by auto
  note IH = Suc.IH [OF this]
  have "load_loop rb i (Suc (Suc n)) t = load_loop rb (Suc i) (Suc n) ?t"
    using b by (subst load_loop.simps(2)) (simp add: Let_def del: load_loop.simps)
  moreover have "load_loop rb i (Suc n) t = load_loop rb (Suc i) n ?t"
    using b by (subst load_loop.simps(2)) (simp add: Let_def del: load_loop.simps)
  ultimately show ?case using IH f by simp
qed

text \<open>The table after a restart has the same records, at the same places.\<close>

lemma flushAndClose_ok:
  assumes "tb_inv t"
  shows "length (flushAndClose t) = tb_currentRecords t * sizeof_userInfo"
    and "i < tb_currentRecords t \<Longrightarrow> record_at i (flushAndClose t) = record_at i (tb_file t)"
proof -
  have le: "tb_currentRecords t * sizeof_userInfo \<le> length (tb_file t)"
    using assms by (meson le_trans mult_le_mono1 tb_inv_def)
  then have f: "flushAndClose t = take (tb_currentRecords t * sizeof_userInfo) (tb_file t)" by (simp add: flushAndClose_def Let_def)
  show "length (flushAndClose t) = tb_currentRecords t * sizeof_userInfo" using le f by simp
  assume "i < tb_currentRecords t"
  then have "Suc i * sizeof_userInfo \<le> tb_currentRecords t * sizeof_userInfo" by (intro mult_le_mono1) simp
  then show "record_at i (flushAndClose t) = record_at i (tb_file t)"
    unfolding f by (simp add: record_at_def segment_def drop_take min_def)
qed

lemma restart_ok:
  fixes rb :: "byte \<Rightarrow> bool"
  assumes inv: "tb_inv t" and n: "0 < tb_currentRecords t" and maps: "\<forall>n. can_map n"
  defines "t' \<equiv> initStorage rb can_map (flushAndClose t)"
  shows "tb_inv t'" "tb_currentRecords t' = tb_currentRecords t"
    and "i < tb_currentRecords t \<Longrightarrow> record_at i (tb_file t') = record_at i (tb_file t)"
    and "u = dec_userInfo rb (decryptRecord (record_at (tb_currentRecords t - 1) (tb_file t))) \<Longrightarrow> cstr (uf_email u) \<noteq> [] \<Longrightarrow>
      tb_emailToUid t' (cstr (uf_email u)) = Some (bytes_str (uf_user_id u))"
proof -
  let ?n = "tb_currentRecords t" and ?f = "flushAndClose t"
  define s where "s = \<lparr>tb_lfu = empty_lfu, tb_pageNum = Map.empty, tb_phoneToUid = Map.empty, tb_emailToUid = Map.empty,
    tb_currentRecords = ?n, tb_capacity = 0, tb_mapped = False, tb_file = ?f\<rparr>"
  define t1 where "t1 = load_loop rb 0 ?n s"
  note F = flushAndClose_ok [OF inv]
  have nb: "\<forall>j < ?n. \<not> blank (record_at (0 + j) (tb_file s))" using inv F(2) by (simp add: s_def tb_inv_def)
  have L: "tb_currentRecords t1 = ?n" "tb_file t1 = ?f" using load_loop_ok [OF nb] by (simp_all add: t1_def s_def)
  have d: "length ?f div sizeof_userInfo = ?n" "?f \<noteq> []"
    using F(1) n by (simp_all add: sizeof_userInfo_def) (metis F(1) length_greater_0_conv mult_pos_pos sizeof_userInfo_def zero_less_numeral)
  have t': "t' = map_file can_map (growth ?n) t1"
    using maps d L(1) unfolding t'_def initStorage_def loadIndex_def t1_def s_def by (simp add: Let_def MIN_HEADROOM_RECORDS_def)
  note M = map_file_ok [OF maps, of t1 "growth ?n"]
  have pre: "tb_currentRecords t1 \<le> growth ?n" "tb_currentRecords t1 * sizeof_userInfo \<le> length (tb_file t1)"
    "\<forall>i < tb_currentRecords t1. \<not> blank (record_at i (tb_file t1))"
    using L F(1) nb growth_gt [of ?n] by (simp_all add: s_def)
  show "tb_inv t'" unfolding t' by (rule M(1) [OF pre])
  show "tb_currentRecords t' = ?n" using L(1) by (simp add: t' map_file_def Let_def)
  show "record_at i (tb_file t') = record_at i (tb_file t)" if "i < ?n"
    using M(2) [OF pre, of i] that L F(2) by (simp add: t')
  assume u: "u = dec_userInfo rb (decryptRecord (record_at (?n - 1) (tb_file t)))" "cstr (uf_email u) \<noteq> []"
  obtain k where k: "?n = Suc k" using n by (cases ?n) auto
  have "t1 = (index_record rb k (record_at k ?f) (load_loop rb 0 k s))\<lparr>tb_currentRecords := Suc k\<rparr>"
    using load_loop_last [of k 0 s rb] nb unfolding t1_def k by (simp add: s_def del: load_loop.simps)
  then show "tb_emailToUid t' (cstr (uf_email u)) = Some (bytes_str (uf_user_id u))"
    using u F(2) [of k] k by (simp add: t' map_file_def index_record_def Let_def)
qed

section \<open>Properties\<close>

lemma getAllRecords_cong:
  assumes "tb_mapped t" "tb_mapped t'" "tb_currentRecords t' = tb_currentRecords t"
    "\<And>i. i < tb_currentRecords t \<Longrightarrow> record_at i (tb_file t') = record_at i (tb_file t)"
  shows "getAllRecords rb t' = getAllRecords rb t"
  using assms by (auto simp: getAllRecords_def intro!: arg_cong [where f = "filter _"])

text \<open>An empty table, as the server finds it at its first start.\<close>

lemma fresh_table:
  assumes "\<forall>n. can_map n"
  shows "tb_inv (initStorage rb can_map [])" "lf_keyToFreq (tb_lfu (initStorage rb can_map [])) k = None"
    "getAllRecords rb (initStorage rb can_map []) = []" "tb_emailToUid (initStorage rb can_map []) k = None"
    "tb_phoneToUid (initStorage rb can_map []) k = None"
  using assms by (simp_all add: initStorage_def map_file_def tb_inv_def empty_lfu_def getAllRecords_def Let_def)

definition example_input :: string where
  "example_input = ''123456789 bob hash bob@x.y TRUE 42 TRUE''"

definition example_info :: userInfo where
  "example_info = \<lparr>uf_user_id = safeCopyBytes ''123456789'' 16, uf_username = safeCopy ''bob'' 32,
     uf_password_hash = safeCopyBytes ''hash'' 128, uf_email = safeCopy ''bob@x.y'' 64, uf_email_verified = True,
     uf_phone_hash = safeCopyBytes ''42'' 32, uf_phone_discoverable = True, uf_is_deleted = False, uf_checksum = 0\<rparr>"

lemma example_parses:
  "parseInput example_input = Some example_info" "uf_user_id example_info \<noteq> ENC_KEY" "cstr (uf_email example_info) \<noteq> []"
proof -
  show "parseInput example_input = Some example_info"
    by (simp add: parseInput_def example_input_def example_info_def is_true_def tokens_of.simps isspace_def Let_def)
  have "ord8 (CHR ''1'') \<noteq> 0x1A" "ord8 (CHR ''b'') \<noteq> 0" by (simp_all add: ord8_def)
  then show "uf_user_id example_info \<noteq> ENC_KEY" "cstr (uf_email example_info) \<noteq> []"
    by (simp_all add: example_info_def safeCopyBytes_def safeCopy_def ENC_KEY_def str_bytes_def cstr_def bytes_str_def)
qed

text \<open>
  C25. Users survive a restart. A record that parses is appended to the records of the table: the table
  then lists all it listed before and, last, the new record with its checksum. Closing the table and
  opening it again on the file that remains lists the same records, and the new user's address leads to
  the new user.
\<close>

theorem users_survive_restart:
  assumes inv: "tb_inv t" and maps: "\<forall>n. can_map n" and rb: "bool_read rb" and p: "parseInput s = Some u"
    and new: "lf_keyToFreq (tb_lfu t) (bytes_str (uf_user_id u)) = None" and id: "uf_user_id u \<noteq> ENC_KEY"
    and email: "cstr (uf_email u) \<noteq> []"
  shows "\<exists>t'. writeTheData zcrc rb can_map s t = Inr (True, t') \<and> tb_inv t' \<and>
    getAllRecords rb t' = getAllRecords rb t @ [sealed zcrc u] \<and>
    getAllRecords rb (initStorage rb can_map (flushAndClose t')) = getAllRecords rb t' \<and>
    tb_emailToUid (initStorage rb can_map (flushAndClose t')) (cstr (uf_email u)) = Some (bytes_str (uf_user_id u))"
proof -
  obtain t' where t': "writeTheData zcrc rb can_map s t = Inr (True, t')" "tb_inv t'"
    "tb_currentRecords t' = Suc (tb_currentRecords t)"
    "record_at (tb_currentRecords t) (tb_file t') = seal zcrc (enc_userInfo u)"
    "\<And>i. i < tb_currentRecords t \<Longrightarrow> record_at i (tb_file t') = record_at i (tb_file t)"
    by (rule writeTheData_ok [OF inv maps p new id]) (rule that)
  have u: "wf_userInfo u" "\<not> uf_is_deleted u" using parseInput_wf [OF p] by auto
  have dec: "dec_userInfo rb (decryptRecord (seal zcrc (enc_userInfo u))) = sealed zcrc u" by (rule dec_seal [OF u(1) rb])
  have same: "map (\<lambda>i. dec_userInfo rb (decryptRecord (record_at i (tb_file t')))) [0..<tb_currentRecords t] =
      map (\<lambda>i. dec_userInfo rb (decryptRecord (record_at i (tb_file t)))) [0..<tb_currentRecords t]"
    using t'(5) by simp
  have "getAllRecords rb t' = getAllRecords rb t @ [sealed zcrc u]"
    using t'(2-4) inv u(2) dec by (simp add: getAllRecords_def tb_inv_def sealed_def same)
  moreover have n: "0 < tb_currentRecords t'" using t'(3) by simp
  note R = restart_ok [OF t'(2) n maps, where rb = rb]
  have "getAllRecords rb (initStorage rb can_map (flushAndClose t')) = getAllRecords rb t'"
    using R(1-3) t'(2) by (intro getAllRecords_cong) (simp_all add: tb_inv_def)
  moreover have "tb_emailToUid (initStorage rb can_map (flushAndClose t')) (cstr (uf_email u)) = Some (bytes_str (uf_user_id u))"
    using R(4) [of "sealed zcrc u"] t'(3,4) dec email by (simp add: sealed_def)
  ultimately show ?thesis using t'(1,2) by blast
qed

theorem users_survive_restart_witness:
  "\<exists>t'. writeTheData (\<lambda>_. 0) (\<lambda>b. b \<noteq> 0) (\<lambda>_. True) example_input (initStorage (\<lambda>b. b \<noteq> 0) (\<lambda>_. True) []) = Inr (True, t') \<and>
     getAllRecords (\<lambda>b. b \<noteq> 0) (initStorage (\<lambda>b. b \<noteq> 0) (\<lambda>_. True) (flushAndClose t')) = [sealed (\<lambda>_. 0) example_info]"
proof -
  have "bool_read (\<lambda>b. b \<noteq> 0)" by (simp add: bool_read_def)
  then show ?thesis
    using users_survive_restart [of "initStorage (\<lambda>b. b \<noteq> 0) (\<lambda>_. True) []" "\<lambda>_. True" "\<lambda>b. b \<noteq> 0" example_input example_info "\<lambda>_. 0"]
      fresh_table [of "\<lambda>_. True" "\<lambda>b. b \<noteq> 0"] example_parses by (metis append_Nil)
qed

lemma cstr_hd:
  assumes "cstr a = cstr b" "cstr b \<noteq> []"
  shows "a \<noteq> [] \<and> b \<noteq> [] \<and> hd a = hd b"
proof (cases a)
  case Nil
  then show ?thesis using assms by (simp add: cstr_def bytes_str_def)
next
  case (Cons x xs)
  then show ?thesis
    using assms by (cases b) (auto simp: cstr_def bytes_str_def split: if_splits dest: arg_cong [where f = ord8])
qed

lemma encrypted_email_differs:
  assumes "wf_userInfo u" "cstr (uf_email u) \<noteq> []"
  shows "cstr (uf_email (dec_userInfo rb (seal zcrc (enc_userInfo u)))) \<noteq> cstr (uf_email u)"
proof
  let ?e = "uf_email (dec_userInfo rb (seal zcrc (enc_userInfo u)))"
  assume "cstr ?e = cstr (uf_email u)"
  then have h: "?e \<noteq> []" "uf_email u \<noteq> []" "hd ?e = hd (uf_email u)" using cstr_hd assms(2) by blast+
  have "hd ?e = seal zcrc (enc_userInfo u) ! 176"
    using length_seal [OF assms(1)] by (simp add: dec_userInfo_def segment_def hd_drop_conv_nth sizeof_userInfo_def)
  also have "\<dots> = enc_userInfo u ! 176 XOR 0x1A"
    using length_enc_userInfo [OF assms(1)] by (simp add: seal_def nth_encryptRecord nth_append sizeof_userInfo_def ENC_KEY_def)
  also have "enc_userInfo u ! 176 = hd (uf_email u)"
    using assms(1) h(2) by (simp add: enc_userInfo_def wf_userInfo_def nth_append hd_conv_nth)
  finally have "hd (uf_email u) XOR 0x1A = hd (uf_email u)" using h(3) by simp
  then have "hd (uf_email u) XOR (hd (uf_email u) XOR 0x1A) = 0" by simp
  then have "(hd (uf_email u) XOR hd (uf_email u)) XOR 0x1A = 0" by (simp only: xor.assoc)
  then show False by simp
qed

text \<open>
  C38. A user who has just been stored is not found by the running server. The index of addresses is filled
  from the encrypted record, so that the new address leads where it led before: an address can register
  again until the next restart. An update of the record, which is in the cache, follows the iterator past the
  end of the frequency list that was stored for it: undefined behaviour.
\<close>

theorem stored_user_not_found:
  assumes inv: "tb_inv t" and maps: "\<forall>n. can_map n" and p: "parseInput s = Some u"
    and new: "lf_keyToFreq (tb_lfu t) (bytes_str (uf_user_id u)) = None" and id: "uf_user_id u \<noteq> ENC_KEY"
    and email: "cstr (uf_email u) \<noteq> []"
  shows "\<exists>t'. writeTheData zcrc rb can_map s t = Inr (True, t') \<and>
    tb_emailToUid t' (cstr (uf_email u)) = tb_emailToUid t (cstr (uf_email u)) \<and>
    updateTheData zcrc s t' = Inl BadIterator"
proof -
  obtain t' where t': "writeTheData zcrc rb can_map s t = Inr (True, t')" "tb_inv t'"
    "tb_currentRecords t' = Suc (tb_currentRecords t)"
    "tb_pageNum t' (bytes_str (uf_user_id u)) = Some (tb_currentRecords t)"
    "lf_keyToFreq (tb_lfu t') (bytes_str (uf_user_id u)) = Some FEnd"
    "map_of (lf_cacheMap (tb_lfu t')) (bytes_str (uf_user_id u)) = Some (seal zcrc (enc_userInfo u), FEnd)"
    "tb_emailToUid t' = tb_emailToUid t \<or>
     tb_emailToUid t' = (tb_emailToUid t)(cstr (uf_email (dec_userInfo rb (seal zcrc (enc_userInfo u)))) \<mapsto> bytes_str (uf_user_id u)) \<and>
       cstr (uf_email (dec_userInfo rb (seal zcrc (enc_userInfo u)))) \<noteq> []"
    by (rule writeTheData_ok [OF inv maps p new id]) (rule that)
  have u: "wf_userInfo u" using parseInput_wf [OF p] by blast
  then have "tb_emailToUid t' (cstr (uf_email u)) = tb_emailToUid t (cstr (uf_email u))"
    using t'(7) encrypted_email_differs [OF _ email, of rb zcrc] by auto
  moreover have "Suc (tb_currentRecords t) * sizeof_userInfo \<le> length (tb_file t')"
    using t'(2,3) by (metis le_trans mult_le_mono1 tb_inv_def)
  then have "updateTheData zcrc s t' = Inl BadIterator"
    using t'(2,4-6) length_seal [OF u] by (simp add: updateTheData_def p write_record_def updateLFU_def Let_def tb_inv_def)
  ultimately show ?thesis using t'(1) by blast
qed

theorem stored_user_not_found_witness:
  "\<exists>t'. writeTheData (\<lambda>_. 0) (\<lambda>b. b \<noteq> 0) (\<lambda>_. True) example_input (initStorage (\<lambda>b. b \<noteq> 0) (\<lambda>_. True) []) = Inr (True, t') \<and>
     tb_emailToUid t' (cstr (uf_email example_info)) = None \<and> updateTheData (\<lambda>_. 0) example_input t' = Inl BadIterator"
proof -
  show ?thesis
    using stored_user_not_found [of "initStorage (\<lambda>b. b \<noteq> 0) (\<lambda>_. True) []" "\<lambda>_. True" example_input example_info "\<lambda>_. 0" "\<lambda>b. b \<noteq> 0"]
      fresh_table [of "\<lambda>_. True" "\<lambda>b. b \<noteq> 0"] example_parses by metis
qed



end
