(* ===== verification/Frames.thy ===== *)
theory Frames
  imports File_Download Table
begin

text \<open>
  What the lower layers leave alone. The server's state is one record that each component extends with
  its own fields; the operations of a component do not touch the fields of those above it.
\<close>

lemma net_frame [simp]:
  "net_state.more (set_packet a p st) = net_state.more st" "net_state.more (set_io k d st) = net_state.more st"
  "net_state.more (set_session i se st) = net_state.more st" "net_state.more (return_packet a st) = net_state.more st"
  "net_state.more (HandleDisconnectWithoutLock s st) = net_state.more st"
  by (simp_all add: set_packet_def set_io_def set_session_def return_packet_def HandleDisconnectWithoutLock_def)

lemma borrow_packet_frame: "borrow_packet st = Inr (r, st') \<Longrightarrow> net_state.more st' = net_state.more st"
  by (auto simp: borrow_packet_def bind_res_Inr_iff)

lemma borrow_io_frame: "borrow_io st = Inr (r, st') \<Longrightarrow> net_state.more st' = net_state.more st"
  by (auto simp: borrow_io_def bind_res_Inr_iff)

lemma return_io_frame: "return_io k st = Inr st' \<Longrightarrow> net_state.more st' = net_state.more st"
  by (auto simp: return_io_def bind_res_Inr_iff)

lemma initiateSend_frame: "initiateSend wsa s a st = Inr (b, st') \<Longrightarrow> net_state.more st' = net_state.more st"
  by (auto simp: initiateSend_def bind_res_Inr_iff Let_def split: option.splits if_splits dest!: borrow_io_frame return_io_frame)

lemma postRecv_frame: "postRecv wsa s st = Inr (b, st') \<Longrightarrow> net_state.more st' = net_state.more st"
  by (auto simp: postRecv_def bind_res_Inr_iff Let_def split: option.splits if_splits dest!: borrow_io_frame return_io_frame)

lemma sendPacket_frame: "sendPacket wsa i a s st = Inr (b, st') \<Longrightarrow> net_state.more st' = net_state.more st"
  by (auto simp: sendPacket_def split: if_splits dest: initiateSend_frame)

lemma send_answer_frame: "send_answer wsa i f st = Inr st' \<Longrightarrow> net_state.more st' = net_state.more st"
  by (auto simp: send_answer_def bind_res_Inr_iff Let_def split: option.splits if_splits dest!: borrow_packet_frame sendPacket_frame)

lemma routePacket_frame: "routePacket wsa a r st = Inr (b, st') \<Longrightarrow> net_state.more st' = net_state.more st"
  by (auto simp: routePacket_def split: option.splits if_splits dest: sendPacket_frame)

text \<open>A layer that leaves everything above the network alone leaves every higher layer alone.\<close>

lemma more_lift:
  fixes st st' :: "'z off_state_scheme"
  assumes "net_state.more st' = net_state.more st"
  shows "sm_sessions st' = sm_sessions st" "sm_socketToUserId st' = sm_socketToUserId st"
    "queue_per_client st' = queue_per_client st" "off_state.more st' = off_state.more st"
  using assms by (cases st; cases st'; simp)+

lemma off_frame [simp]:
  "off_state.more (set_queue u q st) = off_state.more st" "off_state.more (set_flag u b st) = off_state.more st"
  "off_state.more (clearFlag u st) = off_state.more st"
  by (simp_all add: set_queue_def set_flag_def clearFlag_def split: option.split)

lemma off_frame_net [simp]:
  "off_state.more (set_packet a p st) = off_state.more st" "off_state.more (return_packet a st) = off_state.more st"
  "off_state.more (set_session i se st) = off_state.more st"
  by (simp_all add: set_packet_def return_packet_def set_session_def)

lemma route_front_frame: "route_front wsa u cq st = Inr st' \<Longrightarrow> off_state.more st' = off_state.more st"
  by (auto simp: route_front_def bind_res_Inr_iff split: if_splits dest!: routePacket_frame more_lift(4))

lemma ManageCompletePacket_frame: "ManageCompletePacket wsa a u st = Inr st' \<Longrightarrow> off_state.more st' = off_state.more st"
  by (auto simp: ManageCompletePacket_def bind_res_Inr_iff Let_def split: if_splits dest!: route_front_frame)

lemma notifySend_frame: "notifySend wsa u st = Inr st' \<Longrightarrow> off_state.more st' = off_state.more st"
  by (auto simp: notifySend_def bind_res_Inr_iff Let_def split: if_splits option.splits dest!: route_front_frame)

lemma drainNext_frame: "drainNext wsa u s st = Inr st' \<Longrightarrow> off_state.more st' = off_state.more st"
  by (auto simp: drainNext_def bind_res_Inr_iff Let_def split: if_splits option.splits dest!: initiateSend_frame more_lift(4))

lemma post_frame: "post wsa f u st = Inr st' \<Longrightarrow> off_state.more st' = off_state.more st"
  by (auto simp: post_def bind_res_Inr_iff split: option.splits
      dest!: borrow_packet_frame more_lift(4) ManageCompletePacket_frame)

end
