(* ===== verification/Sign_Up.thy ===== *)
theory Sign_Up
  imports Frames
begin

text \<open>
  Registration: \<open>authentication/SignUp.cpp\<close> and \<open>SignUp.h\<close>. A client asks for a one-time password,
  confirms it and registers. Two threads work off the queues of requests; each of their rounds is a
  function. \<open>hasher\<close> is \<open>std::hash\<close>, the clock and the random numbers are arguments. Mails are
  recorded in the state, as the source prints them.
\<close>

section \<open>State\<close>

record otpData =
  od_otp :: string
  od_expiry :: int
  od_count :: nat

record signupState =
  ss_email :: string
  ss_number :: string
  ss_username :: string
  ss_password :: string
  ss_sessionId :: string

record SignUp =
  sg_otpQueue :: "string MpscQueue"
  sg_signUpQueue :: "signupState MpscQueue"
  sg_otpChecker :: "string \<rightharpoonup> otpData"
  sg_emailVerified :: "string \<rightharpoonup> bool"
  sg_requestCounter :: "string \<rightharpoonup> nat"
  sg_db :: table
  sg_router :: bool
  sg_authManager :: bool
  sg_stopThread :: bool
  sg_mails :: "(string \<times> string) list"

definition new_SignUp :: "table \<Rightarrow> SignUp" where
  "new_SignUp db = \<lparr>sg_otpQueue = new_mpsc, sg_signUpQueue = new_mpsc, sg_otpChecker = Map.empty,
     sg_emailVerified = Map.empty, sg_requestCounter = Map.empty, sg_db = db, sg_router = False,
     sg_authManager = False, sg_stopThread = False, sg_mails = []\<rparr>"

definition setRouter :: "SignUp \<Rightarrow> SignUp" where
  "setRouter su = su\<lparr>sg_router := True\<rparr>"

definition setAuthManager :: "SignUp \<Rightarrow> SignUp" where
  "setAuthManager su = su\<lparr>sg_authManager := True\<rparr>"

record sg_state = ft_state +
  st_signup :: SignUp

definition upd_sg :: "(SignUp \<Rightarrow> SignUp) \<Rightarrow> 'z sg_state_scheme \<Rightarrow> 'z sg_state_scheme" where
  "upd_sg f st = st\<lparr>st_signup := f (st_signup st)\<rparr>"

section \<open>Checks\<close>

definition hashStr :: "(string \<Rightarrow> u64) \<Rightarrow> string \<Rightarrow> string" where
  "hashStr hasher s = to_string (unat (hasher s))"

definition is_digit :: "char \<Rightarrow> bool" where
  "is_digit c \<longleftrightarrow> c \<in> set ''0123456789''"

fun isValidE164Phone :: "string \<Rightarrow> bool" where
  "isValidE164Phone (c # d # ds) \<longleftrightarrow>
     c = CHR ''+'' \<and> is_digit d \<and> d \<noteq> CHR ''0'' \<and> 1 \<le> length ds \<and> length ds \<le> 14 \<and> (\<forall>x \<in> set ds. is_digit x)"
| "isValidE164Phone _ \<longleftrightarrow> False"

definition isalnum :: "char \<Rightarrow> bool" where
  "isalnum c \<longleftrightarrow> is_digit c \<or> is_drive_letter c"

definition isValidEmail :: "string \<Rightarrow> bool" where
  "isValidEmail email \<longleftrightarrow>
     (let localPart = takeWhile (\<lambda>c. c \<noteq> CHR ''@'') email; rest = dropWhile (\<lambda>c. c \<noteq> CHR ''@'') email in
      rest \<noteq> [] \<and> localPart \<noteq> [] \<and> tl rest \<noteq> [] \<and> CHR ''.'' \<in> set (tl rest) \<and>
      (\<forall>c \<in> set email. isalnum c \<or> c = CHR ''@'' \<or> c = CHR ''.'' \<or> c = CHR ''_'' \<or> c = CHR ''-''))"

definition isAlreadySignup :: "string \<Rightarrow> SignUp \<Rightarrow> bool" where
  "isAlreadySignup email su \<longleftrightarrow> tb_emailToUid (sg_db su) email \<noteq> None"

definition isVerified :: "string \<Rightarrow> SignUp \<Rightarrow> bool" where
  "isVerified email su \<longleftrightarrow> sg_emailVerified su email = Some True"

definition timestamp :: "int \<Rightarrow> int \<Rightarrow> int" where
  "timestamp now delay = now + delay"

section \<open>Answers\<close>

text \<open>A packet that bypasses the outbox; it is returned to the pool when it cannot be routed.\<close>

definition answer ::
  "(nat \<Rightarrow> bool) \<Rightarrow> PacketType \<Rightarrow> string \<Rightarrow> string \<Rightarrow> 'z sm_state_scheme \<Rightarrow> (bool \<times> 'z sm_state_scheme) res" where
  "answer wsa ptype msg recId st =
     bind_res (borrow_packet st) (\<lambda>(r, st1).
       case r of None \<Rightarrow> Inl NullDeref
       | Some a \<Rightarrow>
           let st2 = set_packet a (snd (serializeString ptype msg ((packet_at a st1)\<lparr>bypassQueue := True\<rparr>))) st1
           in bind_res (routePacket wsa a recId st2) (\<lambda>(routed, st3).
                Inr (routed, if routed then st3 else return_packet a st3)))"

definition answer_if ::
  "bool \<Rightarrow> (nat \<Rightarrow> bool) \<Rightarrow> PacketType \<Rightarrow> string \<Rightarrow> string \<Rightarrow> 'z sm_state_scheme \<Rightarrow> 'z sm_state_scheme res" where
  "answer_if b wsa ptype msg recId st =
     (if b then bind_res (answer wsa ptype msg recId st) (\<lambda>(_, st1). Inr st1) else Inr st)"

section \<open>One-time passwords\<close>

definition otpRequestHandler :: "(nat \<Rightarrow> bool) \<Rightarrow> nat \<Rightarrow> nat \<Rightarrow> 'z sg_state_scheme \<Rightarrow> 'z sg_state_scheme res" where
  "otpRequestHandler wsa a i st =
     (let p = packet_at a st; payload = dec_OtpReqPayload (getPayloadRaw p) in
      bind_res (read_bytes (HEADER_SIZE + sizeof_OtpReqPayload) (unat (oq_email_len payload)) (data p)) (\<lambda>bs.
        let email = bytes_str bs; st1 = return_packet a st in
        if \<not> isValidEmail email then Inr st1
        else if \<not> isAlreadySignup email (st_signup st1) then
          bind_res (push_mpsc email (sg_otpQueue (st_signup st1))) (\<lambda>q. Inr (upd_sg (\<lambda>su. su\<lparr>sg_otpQueue := q\<rparr>) st1))
        else answer_if (sg_router (st_signup st1)) wsa PKT_SIGNUP_ERROR ''already signed !/ login ''
               (se_userId (session_at i st1)) st1))"

text \<open>\<open>otpGenerator\<close> yields a random number between 1000 and 9999, here the argument \<open>r\<close>.\<close>

definition otpGenerator :: "nat \<Rightarrow> string" where
  "otpGenerator r = to_string (1000 + r mod 9000)"

definition sendMail :: "string \<Rightarrow> string \<Rightarrow> SignUp \<Rightarrow> bool \<times> SignUp" where
  "sendMail message emailAddress su = (True, su\<lparr>sg_mails := sg_mails su @ [(emailAddress, message)]\<rparr>)"

text \<open>One round of \<open>otpSenderLoop\<close> with a request in the queue.\<close>

definition otpSenderLoop :: "(string \<Rightarrow> u64) \<Rightarrow> nat \<Rightarrow> int \<Rightarrow> SignUp \<Rightarrow> SignUp res" where
  "otpSenderLoop hasher r now su =
     bind_res (empty_mpsc (sg_otpQueue su)) (\<lambda>e.
       if e then Inr su
       else
         bind_res (front_mpsc [] (sg_otpQueue su)) (\<lambda>f. bind_res (returns f) (\<lambda>email.
         bind_res (pop_mpsc (sg_otpQueue su)) (\<lambda>p. bind_res (returns p) (\<lambda>(_, q).
           let otp = otpGenerator r;
               exp = timestamp now 300;
               message = ''OTP for login into Chat Application is : '' @ otp @ '' this otp is only valid for 2 minutes '';
               (_, su1) = sendMail message email (su\<lparr>sg_otpQueue := q\<rparr>)
           in Inr (su1\<lparr>sg_otpChecker := (sg_otpChecker su1)(email \<mapsto> \<lparr>od_otp = hashStr hasher otp, od_expiry = exp, od_count = 0\<rparr>),
                       sg_requestCounter := (sg_requestCounter su1)(email \<mapsto> 0)\<rparr>))))))"

text \<open>
  What a confirmation does to the state before its answer: the type and text of the answer, \<open>None\<close> when
  there is none.
\<close>

definition check_otp ::
  "(string \<Rightarrow> u64) \<Rightarrow> int \<Rightarrow> string \<Rightarrow> string \<Rightarrow> SignUp \<Rightarrow> (PacketType \<times> string) option \<times> SignUp" where
  "check_otp hasher now email otp su =
     (case sg_otpChecker su email of
        None \<Rightarrow> (Some (PKT_SIGNUP_ERROR, ''OTP not generated''), su)
      | Some d \<Rightarrow>
          let su1 = su\<lparr>sg_otpChecker := (sg_otpChecker su)(email \<mapsto> d\<lparr>od_count := od_count d + 1\<rparr>)\<rparr>;
              erase = (\<lambda>s. if sg_router s then s\<lparr>sg_otpChecker := (sg_otpChecker s)(email := None)\<rparr> else s)
          in if 5 \<le> od_count d \<or> od_expiry d < timestamp now 0
             then (Some (PKT_SIGNUP_ERROR, ''OTP expired or limit reached''), erase su1)
             else if od_otp d = hashStr hasher otp
             then (Some (PKT_ACKNOWLEDGMENT, ''OTP Verified''),
                   erase (su1\<lparr>sg_emailVerified := (sg_emailVerified su1)(email \<mapsto> True)\<rparr>))
             else (None, su1))"

definition onOtpVerificationRequest ::
  "(nat \<Rightarrow> bool) \<Rightarrow> (string \<Rightarrow> u64) \<Rightarrow> int \<Rightarrow> nat \<Rightarrow> nat \<Rightarrow> 'z sg_state_scheme \<Rightarrow> 'z sg_state_scheme res" where
  "onOtpVerificationRequest wsa hasher now a i st =
     (let p = packet_at a st; payload = dec_OtpVerifyPayload (getPayloadRaw p);
          emailLen = unat (ov_email_len payload); otpLen = unat (ov_otp_len payload);
          strData = HEADER_SIZE + sizeof_OtpVerifyPayload
      in bind_res (read_bytes strData emailLen (data p)) (\<lambda>e.
         bind_res (read_bytes (strData + emailLen) otpLen (data p)) (\<lambda>o'.
         let email = bytes_str e; sessionId = se_userId (session_at i st); st1 = return_packet a st;
             (ans, su) = check_otp hasher now email (bytes_str o') (st_signup st1);
             st2 = st1\<lparr>st_signup := su\<rparr>
         in case ans of
              None \<Rightarrow> Inr st2
            | Some (ptype, msg) \<Rightarrow>
                if \<not> sg_router su then Inr st2
                else bind_res (answer wsa ptype msg sessionId st2) (\<lambda>(routed, st3).
                       Inr (if \<not> routed \<and> ptype = PKT_ACKNOWLEDGMENT
                            then upd_sg (\<lambda>s. s\<lparr>sg_emailVerified := (sg_emailVerified s)(email \<mapsto> False)\<rparr>) st3 else st3)))))"

section \<open>Registration\<close>

definition signUpRequestHandler :: "(nat \<Rightarrow> bool) \<Rightarrow> nat \<Rightarrow> nat \<Rightarrow> 'z sg_state_scheme \<Rightarrow> 'z sg_state_scheme res" where
  "signUpRequestHandler wsa a i st =
     (let p = packet_at a st; payload = dec_SignupPayload (getPayloadRaw p);
          emailLen = unat (su_email_len payload); numberLen = unat (su_number_len payload);
          usernameLen = unat (su_username_len payload); passwordLen = unat (su_password_len payload);
          strData = HEADER_SIZE + sizeof_SignupPayload
      in bind_res (read_bytes strData emailLen (data p)) (\<lambda>email.
         bind_res (read_bytes (strData + emailLen) numberLen (data p)) (\<lambda>number.
         bind_res (read_bytes (strData + emailLen + numberLen) usernameLen (data p)) (\<lambda>username.
         bind_res (read_bytes (strData + emailLen + numberLen + usernameLen) passwordLen (data p)) (\<lambda>password.
         let sessionId = se_userId (session_at i st); st1 = return_packet a st in
         if \<not> isVerified (bytes_str email) (st_signup st1)
         then answer_if (sg_router (st_signup st1)) wsa PKT_SIGNUP_ERROR ''Signup Failed: Email not verified'' sessionId st1
         else
           bind_res (push_mpsc \<lparr>ss_email = bytes_str email, ss_number = bytes_str number, ss_username = bytes_str username,
               ss_password = bytes_str password, ss_sessionId = sessionId\<rparr> (sg_signUpQueue (st_signup st1))) (\<lambda>q.
             Inr (upd_sg (\<lambda>su. su\<lparr>sg_signUpQueue := q\<rparr>) st1)))))))"

definition db_line :: "string \<Rightarrow> string \<Rightarrow> string \<Rightarrow> string \<Rightarrow> string \<Rightarrow> string" where
  "db_line userID username hashed email phone =
     userID @ '' '' @ username @ '' '' @ hashed @ '' '' @ email @ '' '' @ ''TRUE'' @ '' '' @ phone @ '' '' @ ''TRUE''"

text \<open>\<open>generateUserId\<close> yields a random number of nine digits, here the argument \<open>r\<close>.\<close>

definition generateUserId :: "nat \<Rightarrow> string" where
  "generateUserId r = to_string (100000000 + r mod 900000000)"

definition user_record :: "string \<Rightarrow> signupState \<Rightarrow> bytes \<Rightarrow> string \<Rightarrow> UserRecord" where
  "user_record userID s hashed p_hash =
     \<lparr>ur_user_id = safeCopyBytes userID 16, ur_username = safeCopy (ss_username s) 32, ur_password_hash = hashed,
      ur_email = safeCopy (ss_email s) 64, ur_email_verified = True, ur_phone_hash = safeCopyBytes p_hash 32,
      ur_phone_discoverable = True\<rparr>"

text \<open>One round of \<open>signupManager\<close> with a registration in the queue.\<close>

definition register ::
  "sodium \<Rightarrow> (string \<Rightarrow> u64) \<Rightarrow> (bytes \<Rightarrow> u32) \<Rightarrow> (byte \<Rightarrow> bool) \<Rightarrow> (nat \<Rightarrow> bool) \<Rightarrow> nat \<Rightarrow> signupState \<Rightarrow>
   'z sg_state_scheme \<Rightarrow> 'z sg_state_scheme res" where
  "register S hasher zcrc rb can_map r s st =
     (let userID = generateUserId r; e = am_entropy (st_auth st); st1 = st\<lparr>st_auth := (st_auth st)\<lparr>am_entropy := Suc e\<rparr>\<rparr> in
      case sd_pwhash_str S e (ss_password s) of
        None \<Rightarrow> Inr st1
      | Some hashed \<Rightarrow>
          bind_res (writeTheData zcrc rb can_map
              (db_line userID (ss_username s) (cstr hashed) (ss_email s) (hashStr hasher (ss_number s))) (sg_db (st_signup st1))) (\<lambda>(ok, db).
            let st2 = upd_sg (\<lambda>su. su\<lparr>sg_db := db\<rparr>) st1 in
            if ok \<and> sg_authManager (st_signup st2)
            then Inr (st2\<lparr>st_auth := snd (AddUserRecord S (user_record userID s hashed (hashStr hasher (ss_number s))) (st_auth st2))\<rparr>)
            else Inr st2))"

definition no_signup :: signupState where
  "no_signup = \<lparr>ss_email = [], ss_number = [], ss_username = [], ss_password = [], ss_sessionId = []\<rparr>"

definition signupManager ::
  "sodium \<Rightarrow> (string \<Rightarrow> u64) \<Rightarrow> (bytes \<Rightarrow> u32) \<Rightarrow> (byte \<Rightarrow> bool) \<Rightarrow> (nat \<Rightarrow> bool) \<Rightarrow> nat \<Rightarrow>
   'z sg_state_scheme \<Rightarrow> 'z sg_state_scheme res" where
  "signupManager S hasher zcrc rb can_map r st =
     bind_res (empty_mpsc (sg_signUpQueue (st_signup st))) (\<lambda>e.
       if e then Inr st
       else
         bind_res (front_mpsc no_signup (sg_signUpQueue (st_signup st))) (\<lambda>f. bind_res (returns f) (\<lambda>s.
         bind_res (pop_mpsc (sg_signUpQueue (st_signup st))) (\<lambda>p. bind_res (returns p) (\<lambda>(_, q).
           register S hasher zcrc rb can_map r s (upd_sg (\<lambda>su. su\<lparr>sg_signUpQueue := q\<rparr>) st))))))"

section \<open>Verification of an address\<close>

lemma signup_of_more:
  fixes st st' :: "'z sg_state_scheme"
  shows "net_state.more st' = net_state.more st \<Longrightarrow> st_signup st' = st_signup st"
  by (cases st; cases st') simp

lemma answer_frame: "answer wsa ptype msg r st = Inr (b, st') \<Longrightarrow> net_state.more st' = net_state.more st"
  by (auto simp: answer_def bind_res_Inr_iff Let_def split: option.splits if_splits
      dest!: borrow_packet_frame routePacket_frame)

lemma answer_if_frame: "answer_if b wsa ptype msg r st = Inr st' \<Longrightarrow> net_state.more st' = net_state.more st"
  by (auto simp: answer_if_def bind_res_Inr_iff split: if_splits dest: answer_frame)

text \<open>The address and the password in a confirmation.\<close>

definition otp_email :: "Packet \<Rightarrow> string" where
  "otp_email p = bytes_str (segment (HEADER_SIZE + sizeof_OtpVerifyPayload)
     (unat (ov_email_len (dec_OtpVerifyPayload (getPayloadRaw p)))) (data p))"

definition otp_code :: "Packet \<Rightarrow> string" where
  "otp_code p = (let pl = dec_OtpVerifyPayload (getPayloadRaw p) in
     bytes_str (segment (HEADER_SIZE + sizeof_OtpVerifyPayload + unat (ov_email_len pl)) (unat (ov_otp_len pl)) (data p)))"

lemma onOtpVerificationRequest_effect:
  assumes "onOtpVerificationRequest wsa hasher now a i st = Inr st'"
  defines "su \<equiv> snd (check_otp hasher now (otp_email (packet_at a st)) (otp_code (packet_at a st)) (st_signup st))"
  shows "st_signup st' = su \<or> st_signup st' = su\<lparr>sg_emailVerified := (sg_emailVerified su)(otp_email (packet_at a st) \<mapsto> False)\<rparr>"
proof -
  let ?st1 = "return_packet a st"
  have r: "st_signup ?st1 = st_signup st" by (simp add: return_packet_def)
  obtain ans su' where c: "check_otp hasher now (otp_email (packet_at a st)) (otp_code (packet_at a st)) (st_signup st) = (ans, su')"
    by (cases "check_otp hasher now (otp_email (packet_at a st)) (otp_code (packet_at a st)) (st_signup st)")
  have frame: "st_signup st3 = su'" if "answer wsa pt msg rid (?st1\<lparr>st_signup := su'\<rparr>) = Inr (b, st3)" for pt msg rid b st3
    using signup_of_more [OF answer_frame [OF that]] by simp
  show ?thesis
    using assms(1) c r unfolding su_def onOtpVerificationRequest_def
    by (auto simp: Let_def bind_res_Inr_iff read_bytes_Inr_iff otp_email_def otp_code_def upd_sg_def
        split: option.splits if_splits dest!: frame)
qed

lemma check_otp_verifies:
  assumes "sg_emailVerified (snd (check_otp hasher now e otp su)) email = Some True" "sg_emailVerified su email \<noteq> Some True"
  shows "e = email \<and> (\<exists>d. sg_otpChecker su email = Some d \<and> od_otp d = hashStr hasher otp \<and> od_count d < 5 \<and> now \<le> od_expiry d) \<and>
    (sg_router su \<longrightarrow> sg_otpChecker (snd (check_otp hasher now e otp su)) email = None)"
  using assms by (auto simp: check_otp_def timestamp_def Let_def split: option.splits if_splits)

text \<open>
  C26. An address counts as verified only through its one-time password: when a request marks an address as
  verified that was not, the request names that address, a password has been issued for it, the request
  carries a password with the same hash, it is one of the first five attempts and comes before the
  password expires. The password cannot be used again.
\<close>

theorem verification_needs_otp:
  assumes "onOtpVerificationRequest wsa hasher now a i st = Inr st'"
    and "isVerified email (st_signup st')" "\<not> isVerified email (st_signup st)"
  shows "email = otp_email (packet_at a st) \<and>
    (\<exists>d. sg_otpChecker (st_signup st) email = Some d \<and> od_otp d = hashStr hasher (otp_code (packet_at a st)) \<and>
       od_count d < 5 \<and> now \<le> od_expiry d) \<and>
    (sg_router (st_signup st) \<longrightarrow> sg_otpChecker (st_signup st') email = None)"
proof -
  let ?su = "snd (check_otp hasher now (otp_email (packet_at a st)) (otp_code (packet_at a st)) (st_signup st))"
  have *: "st_signup st' = ?su \<or> st_signup st' = ?su\<lparr>sg_emailVerified := (sg_emailVerified ?su)(otp_email (packet_at a st) \<mapsto> False)\<rparr>"
    using onOtpVerificationRequest_effect [OF assms(1)] .
  then have "sg_emailVerified ?su email = Some True" "sg_otpChecker (st_signup st') = sg_otpChecker ?su"
    using assms(2) by (auto simp: isVerified_def split: if_splits)
  then show ?thesis using check_otp_verifies [of hasher now "otp_email (packet_at a st)" "otp_code (packet_at a st)" "st_signup st" email] assms(3)
    by (auto simp: isVerified_def)
qed

text \<open>A server that has just started.\<close>

definition fresh_sg :: "IOContextPool \<Rightarrow> AuthManager \<Rightarrow> SignUp \<Rightarrow> sg_state" where
  "fresh_sg io am su = \<lparr>n_packets = new_PacketPool, n_io = io, n_spool = new_SessionPool, n_calls = 0,
     n_posted = [], n_recvs = [], n_disconnectedSockets = {}, n_socketBuffers = Map.empty, n_closed = [],
     sm_sessions = Map.empty, sm_socketToUserId = Map.empty, queue_per_client = Map.empty, st_auth = am,
     st_groups = Map.empty, st_files = new_FileTransferManager, st_signup = su\<rparr>"

theorem verification_needs_otp_witness:
  "\<exists>(st :: sg_state) st'. onOtpVerificationRequest (\<lambda>_. True) (\<lambda>_. 7) 10 0 0 st = Inr st' \<and>
     isVerified ''a@b.c'' (st_signup st') \<and> (\<exists>d. sg_otpChecker (st_signup st) ''a@b.c'' = Some d \<and> od_count d < 5)"
proof -
  let ?pl = "\<lparr>ov_email_len = 5, ov_otp_len = 1\<rparr>"
  let ?p = "new_packet zero_header (replicate 16 0 @ enc_OtpVerifyPayload ?pl @ str_bytes (''a@b.c'' @ ''x''))"
  let ?su = "(new_SignUp undefined)\<lparr>sg_otpChecker := [''a@b.c'' \<mapsto> \<lparr>od_otp = hashStr (\<lambda>_. 7) ''x'', od_expiry = 99, od_count = 0\<rparr>]\<rparr>"
  define P where "P = ?p"
  define st where "st = (fresh_sg undefined undefined ?su)\<lparr>n_packets := new_PacketPool\<lparr>pp_pool := [P]\<rparr>\<rparr>"
  obtain su2 where c: "check_otp (\<lambda>_. 7) 10 ''a@b.c'' ''x'' ?su = (Some (PKT_ACKNOWLEDGMENT, ''OTP Verified''), su2)"
      "\<not> sg_router su2" "isVerified ''a@b.c'' su2"
    by (simp add: check_otp_def new_SignUp_def timestamp_def isVerified_def)
  define st' where "st' = (return_packet 0 st)\<lparr>st_signup := su2\<rparr>"
  have p: "packet_at 0 st = P" "st_signup st = ?su" by (simp_all add: st_def packet_at_def fresh_sg_def)
  have l: "length (enc_OtpVerifyPayload ?pl) = 4" by (simp add: enc_OtpVerifyPayload_def)
  have d: "dec_OtpVerifyPayload (getPayloadRaw P) = ?pl"
    using ov_struct.dec_enc [of ?pl "str_bytes (''a@b.c'' @ ''x'')"] by (simp add: P_def getPayloadRaw_def new_packet_def HEADER_SIZE_def)
  have r: "read_bytes (HEADER_SIZE + sizeof_OtpVerifyPayload) 5 (data P) = Inr (str_bytes ''a@b.c'')"
    "read_bytes (HEADER_SIZE + sizeof_OtpVerifyPayload + 5) 1 (data P) = Inr (str_bytes ''x'')"
    using l by (simp_all add: P_def read_bytes_def segment_def new_packet_def HEADER_SIZE_def sizeof_OtpVerifyPayload_def str_bytes_def)
  have f: "st_signup (return_packet 0 st) = ?su" by (simp add: return_packet_def p(2))
  have "onOtpVerificationRequest (\<lambda>_. True) (\<lambda>_. 7) 10 0 0 st = Inr st'"
    unfolding onOtpVerificationRequest_def p(1) d Let_def using r f c
    by (simp add: st'_def)
  moreover have "isVerified ''a@b.c'' (st_signup st')" "\<not> isVerified ''a@b.c'' (st_signup st)"
    using c(3) p(2) by (simp_all add: st'_def new_SignUp_def isVerified_def)
  ultimately show ?thesis using verification_needs_otp [of "\<lambda>_. True" "\<lambda>_. 7" 10 0 0 st st' "''a@b.c''"] by blast
qed

section \<open>Guessing\<close>

text \<open>Attempts to confirm an address, each with the time at which it is made.\<close>

definition attempts :: "(string \<Rightarrow> u64) \<Rightarrow> string \<Rightarrow> (int \<times> string) list \<Rightarrow> SignUp \<Rightarrow> SignUp" where
  "attempts hasher email gs su = foldl (\<lambda>s (now, otp). snd (check_otp hasher now email otp s)) su gs"

lemma check_otp_none:
  "sg_otpChecker su email = None \<Longrightarrow> check_otp hasher now email otp su = (Some (PKT_SIGNUP_ERROR, ''OTP not generated''), su)"
  by (simp add: check_otp_def)

lemma attempts_none: "sg_otpChecker su email = None \<Longrightarrow> attempts hasher email gs su = su"
  by (induction gs) (auto simp: attempts_def check_otp_none)

lemma check_otp_wrong:
  assumes "sg_router su" "sg_otpChecker su email = Some d" "hashStr hasher otp \<noteq> od_otp d"
  shows "sg_router (snd (check_otp hasher now email otp su))"
    "sg_emailVerified (snd (check_otp hasher now email otp su)) = sg_emailVerified su"
    "sg_otpChecker (snd (check_otp hasher now email otp su)) email = None \<or>
     od_count d < 5 \<and> sg_otpChecker (snd (check_otp hasher now email otp su)) email = Some (d\<lparr>od_count := od_count d + 1\<rparr>)"
  using assms by (auto simp: check_otp_def Let_def)

text \<open>
  A one-time password can be guessed at most five times: whatever wrong passwords are tried at whatever
  times, after six attempts the password is gone, so that even the right one is refused until a new one is
  requested, and the address is not verified.
\<close>

theorem otp_guesses_bounded:
  assumes "sg_router su" "sg_otpChecker su email = Some d" "od_count d \<le> 5"
    and "list_all (\<lambda>(now, otp). hashStr hasher otp \<noteq> od_otp d) gs" "6 \<le> od_count d + length gs"
  shows "sg_emailVerified (attempts hasher email gs su) = sg_emailVerified su \<and>
    check_otp hasher now email otp (attempts hasher email gs su) =
      (Some (PKT_SIGNUP_ERROR, ''OTP not generated''), attempts hasher email gs su)"
proof -
  have "sg_otpChecker (attempts hasher email gs su) email = None \<and> sg_emailVerified (attempts hasher email gs su) = sg_emailVerified su"
    using assms
  proof (induction gs arbitrary: su d)
    case Nil
    then show ?case by simp
  next
    case (Cons g gs)
    obtain now otp where g: "g = (now, otp)" by (cases g)
    let ?su = "snd (check_otp hasher now email otp su)"
    have wrong: "hashStr hasher otp \<noteq> od_otp d" using Cons.prems(4) g by simp
    note W = check_otp_wrong [OF Cons.prems(1,2) wrong, of now]
    have step: "attempts hasher email (g # gs) su = attempts hasher email gs ?su" by (simp add: attempts_def g)
    show ?case
    proof (cases "sg_otpChecker ?su email")
      case None
      then show ?thesis using W(2) step attempts_none [OF None, of hasher gs] by simp
    next
      case (Some d')
      then have d': "d' = d\<lparr>od_count := od_count d + 1\<rparr>" "od_count d < 5" using W(3) by auto
      have "sg_otpChecker (attempts hasher email gs ?su) email = None \<and>
          sg_emailVerified (attempts hasher email gs ?su) = sg_emailVerified ?su"
        using Cons.prems(4,5) d' by (intro Cons.IH [OF W(1) Some]) simp_all
      then show ?thesis using W(2) step by simp
    qed
  qed
  then show ?thesis by (simp add: check_otp_none)
qed

theorem otp_guesses_bounded_witness:
  "\<exists>su. sg_otpChecker su ''a@b.c'' \<noteq> None \<and>
     fst (check_otp (\<lambda>_. 7) 10 ''a@b.c'' ''1234'' (attempts (\<lambda>_. 7) ''a@b.c'' (replicate 6 (5, ''0'')) su)) =
       Some (PKT_SIGNUP_ERROR, ''OTP not generated'')"
proof -
  define su where "su = (new_SignUp undefined)\<lparr>sg_router := True, sg_otpChecker := [''a@b.c'' \<mapsto> \<lparr>od_otp = [], od_expiry = 99, od_count = 0\<rparr>]\<rparr>"
  have "hashStr (\<lambda>_. 7) ''0'' \<noteq> []" by (simp add: hashStr_def to_string_Nil)
  then show ?thesis
    using otp_guesses_bounded [of su "''a@b.c''" "\<lparr>od_otp = [], od_expiry = 99, od_count = 0\<rparr>" "\<lambda>_. 7" "replicate 6 (5, ''0'')" 10 "''1234''"]
    by (intro exI [of _ su]) (simp add: su_def list_all_iff)
qed

section \<open>Names with blanks\<close>

lemma tokens_of_word:
  assumes "w \<noteq> []" "\<forall>c \<in> set w. \<not> isspace c"
  shows "tokens_of (w @ '' '' @ s) = w # tokens_of s"
proof -
  have d: "dropWhile isspace (w @ '' '' @ s) = w @ '' '' @ s" using assms by (cases w) auto
  have t: "takeWhile (\<lambda>c. \<not> isspace c) (w @ '' '' @ s) = w" "dropWhile (\<lambda>c. \<not> isspace c) (w @ '' '' @ s) = '' '' @ s"
    using assms(2) by (simp_all add: takeWhile_append2 dropWhile_append2 isspace_def)
  have "tokens_of ('' '' @ s) = tokens_of s"
    by (subst (1 2) tokens_of.simps) (simp add: isspace_def)
  then show ?thesis using assms(1) t d by (subst tokens_of.simps) (simp add: Let_def)
qed

definition word :: "string \<Rightarrow> bool" where
  "word w \<longleftrightarrow> w \<noteq> [] \<and> (\<forall>c \<in> set w. \<not> isspace c)"

lemma tokens_of_words: "word w \<Longrightarrow> tokens_of (w @ '' '' @ s) = w # tokens_of s"
  using tokens_of_word by (simp add: word_def)

text \<open>
  C39. A registration writes a line of blank-separated fields and the user name is not checked for blanks.
  A name that contains blanks moves its own parts into the fields that follow: with the name
  \<open>u h e TRUE x TRUE\<close> the record gets \<open>h\<close> for the hash of its password and \<open>e\<close> for its address, whatever
  the password is and whatever address has been verified.
\<close>

theorem name_overrides_record:
  assumes "word userID" "word u" "word h" "word e" "word x"
  shows "\<exists>r. parseInput (db_line userID (u @ '' '' @ h @ '' '' @ e @ '' '' @ ''TRUE'' @ '' '' @ x @ '' '' @ ''TRUE'') hashed email phone) = Some r \<and>
    uf_user_id r = safeCopyBytes userID 16 \<and> uf_username r = safeCopy u 32 \<and> uf_password_hash r = safeCopyBytes h 128 \<and>
    uf_email r = safeCopy e 64 \<and> uf_email_verified r"
proof -
  have T: "word ''TRUE''" by (simp add: word_def isspace_def)
  have "\<exists>ts. tokens_of (db_line userID (u @ '' '' @ h @ '' '' @ e @ '' '' @ ''TRUE'' @ '' '' @ x @ '' '' @ ''TRUE'') hashed email phone) =
      userID # u # h # e # ''TRUE'' # x # ''TRUE'' # ts"
    using assms T by (simp add: db_line_def tokens_of_words del: append.simps)
  then show ?thesis by (auto simp: parseInput_def is_true_def)
qed

theorem name_overrides_record_witness:
  "\<exists>r. parseInput (db_line ''1'' (''u'' @ '' '' @ ''h'' @ '' '' @ ''victim@x.y'' @ '' '' @ ''TRUE'' @ '' '' @ ''0'' @ '' '' @ ''TRUE'') ''s'' ''me@x.y'' ''0'') = Some r \<and>
     uf_email r = safeCopy ''victim@x.y'' 64"
  using name_overrides_record [of "''1''" "''u''" "''h''" "''victim@x.y''" "''0''" "''s''" "''me@x.y''" "''0''"]
  by (auto simp: word_def isspace_def)

end
