(* ===== verification/Message_Router.thy ===== *)
theory Message_Router
  imports Sign_Up
begin

text \<open>
  The dispatch of packets, \<open>MessageRouter::handlePacket\<close> of \<open>chat/MessageRouter.cpp\<close>. Every handler
  works on the one state of the server. The clock is read several times while a packet is handled; the
  readings are a function of their number.
\<close>

record mr_state = sg_state +
  mr_authManager :: bool
  mr_signUpManager :: bool

record env =
  ev_wsa :: "nat \<Rightarrow> bool"
  ev_sodium :: sodium
  ev_hasher :: "string \<Rightarrow> u64"
  ev_can_open :: "string \<Rightarrow> bool"
  ev_clock :: "nat \<Rightarrow> u64"

section \<open>Logging in\<close>

text \<open>The user learns the id under which the server knows it.\<close>

definition send_user_id :: "(nat \<Rightarrow> bool) \<Rightarrow> nat \<Rightarrow> 'z sm_state_scheme \<Rightarrow> 'z sm_state_scheme res" where
  "send_user_id wsa i st =
     bind_res (borrow_packet st) (\<lambda>(r, st1).
       case r of None \<Rightarrow> Inl NullDeref
       | Some a \<Rightarrow>
           let se = session_at i st1;
               p = (snd (serializeUserId (se_cached_user_id se) (se_cached_user_id se) (packet_at a st1)))\<lparr>bypassQueue := True\<rparr>
           in bind_res (routePacket wsa a (se_userId se) (set_packet a p st1)) (\<lambda>(routed, st2).
                Inr (if routed then st2 else return_packet a st2)))"

definition handle_login :: "env \<Rightarrow> nat \<Rightarrow> nat \<Rightarrow> 'z mr_state_scheme \<Rightarrow> 'z mr_state_scheme res" where
  "handle_login ev a i st =
     (let tempId = se_userId (session_at i st) in
      bind_res (HandleLoginPacket (ev_wsa ev) (ev_sodium ev) (ev_clock ev 1) a i st) (\<lambda>(succes, st1).
      bind_res (if succes \<and> \<not> se_updated (session_at i st1)
                then bind_res (updateNewId tempId i st1) (send_user_id (ev_wsa ev) i)
                else Inr st1) (\<lambda>st2.
        if succes then notifySend (ev_wsa ev) (se_userId (session_at i st2)) st2 else Inr st2)))"

text \<open>What follows a token, of either kind.\<close>

definition after_token :: "(nat \<Rightarrow> bool) \<Rightarrow> string \<Rightarrow> nat \<Rightarrow> bool \<times> 'z off_state_scheme \<Rightarrow> 'z off_state_scheme res" where
  "after_token wsa tempId i r =
     (case r of (succes, st1) \<Rightarrow>
        if succes then
          bind_res (if \<not> se_updated (session_at i st1) then updateNewId tempId i st1 else Inr st1) (\<lambda>st2.
            notifySend wsa (se_userId (session_at i st2)) st2)
        else Inr st1)"

section \<open>Dispatch\<close>

definition chat_ids :: "sodium \<Rightarrow> Packet \<Rightarrow> string \<times> string" where
  "chat_ids S p = (let payload = dec_ChatMessagePayload (getPayloadRaw p) in
     (UserIdToHexString S (cm_receiver_id payload), UserIdToHexString S (cm_sender_id payload)))"

definition group_request ::
  "(string \<Rightarrow> string \<Rightarrow> GroupManager \<Rightarrow> bool \<times> GroupManager) \<Rightarrow> sodium \<Rightarrow> nat \<Rightarrow> 'z grp_state_scheme \<Rightarrow> 'z grp_state_scheme" where
  "group_request f S a st =
     (let (recvId, sendId) = chat_ids S (packet_at a st) in st\<lparr>st_groups := snd (f recvId sendId (st_groups st))\<rparr>)"

definition bypassAuth :: "PacketType option \<Rightarrow> bool" where
  "bypassAuth ptype \<longleftrightarrow> ptype \<in> Some ` {PKT_LOGIN, PKT_SIGN_UP, PKT_OTP_REQ, PKT_OTP_VERIFY, PKT_TOKEN, PKT_REFRESH}"

definition dispatch :: "env \<Rightarrow> PacketType option \<Rightarrow> nat \<Rightarrow> nat \<Rightarrow> 'z mr_state_scheme \<Rightarrow> 'z mr_state_scheme res" where
  "dispatch ev ptype a i st =
     (let wsa = ev_wsa ev; S = ev_sodium ev; tempId = se_userId (session_at i st) in
      case ptype of
        None \<Rightarrow> Inr st
      | Some t \<Rightarrow> (case t of
          PKT_LOGIN \<Rightarrow> if mr_authManager st then handle_login ev a i st else Inr (return_packet a st)
        | PKT_TOKEN \<Rightarrow>
            if mr_authManager st
            then bind_res (HandleTokenPacket wsa S (ev_clock ev 1) (ev_clock ev 2) a i st) (after_token wsa tempId i)
            else Inr (return_packet a st)
        | PKT_REFRESH \<Rightarrow>
            if mr_authManager st
            then bind_res (HandleRefreshPacket wsa S (ev_clock ev 1) (ev_clock ev 2) a i st) (after_token wsa tempId i)
            else Inr (return_packet a st)
        | PKT_LOGOUT \<Rightarrow> bind_res (removeSession tempId st) (\<lambda>st1. Inr (return_packet a st1))
        | PKT_PRIVATE_MESSAGE \<Rightarrow> ManageCompletePacket wsa a (fst (chat_ids S (packet_at a st))) st
        | PKT_GROUP_MESSAGE \<Rightarrow> routeGroupMessage wsa S a st
        | PKT_CREATE_GROUP \<Rightarrow> Inr (group_request createGroup S a st)
        | PKT_JOIN_GROUP \<Rightarrow> Inr (group_request joinGroup S a st)
        | PKT_LEAVE_GROUP \<Rightarrow> Inr (group_request leaveGroup S a st)
        | PKT_FILE_START \<Rightarrow> handleFileStart wsa (ev_can_open ev) (unat (ev_clock ev 1)) a tempId st
        | PKT_FILE_CHUNK \<Rightarrow> handleFileChunk a st
        | PKT_ROUND_END \<Rightarrow> handleRoundEnd wsa a st
        | PKT_FILE_END \<Rightarrow> handleFileEnd wsa (unat (ev_clock ev 1)) a st
        | PKT_FILE_ACK \<Rightarrow> onAckReceived a st
        | PKT_ACKNOWLEDGMENT \<Rightarrow> Inr (return_packet a st)
        | PKT_RESUME \<Rightarrow> Inr st
        | FILE_DWNLD_DISCONNECT_REQUEST \<Rightarrow> HandleDisconnectRequest a st
        | DOWNLOAD_REQUEST \<Rightarrow> HandleDownloadRequest wsa a st
        | PKT_OTP_REQ \<Rightarrow> if mr_signUpManager st then otpRequestHandler wsa a i st else Inr st
        | PKT_OTP_VERIFY \<Rightarrow>
            if mr_signUpManager st then onOtpVerificationRequest wsa (ev_hasher ev) (int (unat (ev_clock ev 1))) a i st else Inr st
        | PKT_SIGN_UP \<Rightarrow> if mr_signUpManager st then signUpRequestHandler wsa a i st else Inr st
        | _ \<Rightarrow> Inr st))"

text \<open>\<open>handlePacket\<close> always reports that the packet has been handled.\<close>

definition handlePacket :: "env \<Rightarrow> nat \<Rightarrow> nat \<Rightarrow> 'z mr_state_scheme \<Rightarrow> (bool \<times> 'z mr_state_scheme) res" where
  "handlePacket ev a i st =
     (let ptype = type_of_code (type_field (header (packet_at a st))) in
      if \<not> bypassAuth ptype \<and> \<not> ValidateSessionHotPath (ev_clock ev 0) (session_at i st)
      then bind_res (if mr_authManager st then SendAuthFailure (ev_wsa ev) i ''Unauthorized access - please login'' st else Inr st)
             (\<lambda>st1. Inr (True, return_packet a st1))
      else bind_res (dispatch ev ptype a i st) (\<lambda>st1. Inr (True, st1)))"

section \<open>Clients that have not logged in\<close>

text \<open>A server that has just started.\<close>

definition fresh_mr :: "IOContextPool \<Rightarrow> AuthManager \<Rightarrow> SignUp \<Rightarrow> mr_state" where
  "fresh_mr io am su = \<lparr>n_packets = new_PacketPool, n_io = io, n_spool = new_SessionPool, n_calls = 0,
     n_posted = [], n_recvs = [], n_disconnectedSockets = {}, n_socketBuffers = Map.empty, n_closed = [],
     sm_sessions = Map.empty, sm_socketToUserId = Map.empty, queue_per_client = Map.empty, st_auth = am,
     st_groups = Map.empty, st_files = new_FileTransferManager, st_signup = su, mr_authManager = True, mr_signUpManager = True\<rparr>"

lemma fresh_mr_inv: "ic_inv io \<Longrightarrow> net_inv (fresh_mr io am su)" "n_io (fresh_mr io am su) = io"
  by (simp_all add: net_inv_def fresh_mr_def new_PacketPool_inv new_SessionPool_inv)

text \<open>
  C4. A client that is not logged in, or whose login has expired, cannot change anything: for every packet of
  a type other than login, token, refresh and registration, unknown types included, the server sends a refusal
  and gives the packet back. Sessions, the directory, outboxes, accounts, groups, files and registrations
  are as before, and so are all connections.
\<close>

theorem unauthenticated_packet_refused:
  assumes inv: "net_inv st" and io: "ic_free (n_io st) \<noteq> []" and auth: "mr_authManager st"
    and t: "\<not> bypassAuth (type_of_code (type_field (header (packet_at a st))))"
    and no: "\<not> ValidateSessionHotPath (ev_clock ev 0) (session_at i st)"
  shows "\<exists>st1. SendAuthFailure (ev_wsa ev) i ''Unauthorized access - please login'' st = Inr st1 \<and>
    handlePacket ev a i st = Inr (True, return_packet a st1) \<and> same_connections st (return_packet a st1)"
proof -
  obtain st1 where st1: "SendAuthFailure (ev_wsa ev) i ''Unauthorized access - please login'' st = Inr st1"
    "same_connections st st1"
    using SendAuthFailure_ok [OF inv io, of "''Unauthorized access - please login''" "ev_wsa ev" i] by auto
  have "handlePacket ev a i st = Inr (True, return_packet a st1)"
    using t no auth st1(1) by (simp add: handlePacket_def)
  moreover have "same_connections st (return_packet a st1)"
    using st1(2) return_packet_fields(1) same_connections_trans by blast
  ultimately show ?thesis using st1(1) by blast
qed

theorem unauthenticated_packet_refused_witness:
  "\<exists>(st :: mr_state) st1. handlePacket \<lparr>ev_wsa = \<lambda>_. True, ev_sodium = example_sodium, ev_hasher = \<lambda>_. 0, ev_can_open = \<lambda>_. True,
     ev_clock = \<lambda>_. 5\<rparr> 0 0 st = Inr (True, return_packet 0 st1) \<and> same_connections st (return_packet 0 st1)"
proof -
  let ?ev = "\<lparr>ev_wsa = \<lambda>_. True, ev_sodium = example_sodium, ev_hasher = \<lambda>_. 0, ev_can_open = \<lambda>_. True, ev_clock = \<lambda>_. 5\<rparr>"
  obtain io where io: "ic_inv io" "ic_free io = [0..<IO_POOL_SIZE]" using new_IOContextPool_inv by blast
  define st where "st = fresh_mr io undefined undefined"
  have inv: "net_inv st" "ic_free (n_io st) \<noteq> []"
    using fresh_mr_inv(1) [OF io(1)] fresh_mr_inv(2) [of io] io(2) by (simp_all add: st_def IO_POOL_SIZE_def)
  have pos: "0 < SESSION_POOL_SIZE" "0 < PACKET_POOL_SIZE" by (simp_all add: SESSION_POOL_SIZE_def PACKET_POOL_SIZE_def)
  have "\<not> ValidateSessionHotPath (ev_clock ?ev 0) (session_at 0 st)"
    using pos by (simp add: ValidateSessionHotPath_def session_at_def st_def fresh_mr_def new_SessionPool_def new_Session_def
        AUTHENTICATED_def UNAUTHENTICATED_def)
  moreover have "type_field (header (packet_at 0 st)) = 0"
    using pos by (simp add: packet_at_def st_def fresh_mr_def new_PacketPool_def new_packet_def zero_header_def)
  moreover have "type_of_code 0 = None"
    by (simp add: type_of_code_def type_code_def packet_types_def)
  ultimately show ?thesis
    using unauthenticated_packet_refused [of st 0 ?ev 0] inv by (auto simp: st_def fresh_mr_def bypassAuth_def)
qed

end
