(* ===== verification/Framing.thy ===== *)
theory Framing
  imports Network
begin

text \<open>
  Cutting the received bytes into packets: the loop of \<open>IOCPManager::workerThread\<close>
  (\<open>network/IOCPManager.cpp\<close>) over the ring buffer of a connection. \<open>next_frame\<close> and \<open>split_frames\<close>
  say what it does to the stream of bytes.
\<close>

section \<open>The loop\<close>

text \<open>
  The result says whether the connection is to be closed, and has the packets in the order of the
  stream. \<open>fuel\<close> bounds the number of packets cut off.
\<close>

fun frame_loop ::
  "nat \<Rightarrow> CircularBuffer \<Rightarrow> 'z net_state_scheme \<Rightarrow> (bool \<times> nat list \<times> CircularBuffer \<times> 'z net_state_scheme) res" where
  "frame_loop fuel b st =
     (if size_cb b < 16 then Inr (False, [], b, st)
      else
        let hdr = (case copy_cb 16 b of Some h \<Rightarrow> h | None \<Rightarrow> []) in
        if hdr ! 0 \<noteq> START_BYTE \<or> hdr ! 1 \<noteq> CURRENT_VERSION then Inr (True, [], b, st)
        else
          let packetSize = 16 + rd32 (drop 4 hdr) in
          if packetSize < 16 then Inr (True, [], b, st)
          else if of_nat DATA_SIZE < packetSize then Inr (True, [], b, st)
          else if size_cb b < ucast packetSize then Inr (False, [], b, st)
          else case fuel of 0 \<Rightarrow> Inl Diverges
          | Suc n \<Rightarrow>
              bind_res (borrow_packet st) (\<lambda>(r, st1).
                case r of None \<Rightarrow> Inr (False, [], b, st1)
                | Some a \<Rightarrow>
                    let (out, b1) = consume_cb (ucast packetSize) b;
                        p = packet_at a st1;
                        bs = (case out of Some x \<Rightarrow> x | None \<Rightarrow> []);
                        st2 = set_packet a (p\<lparr>data := blit (data p) 0 bs, in_pos := unat packetSize\<rparr>) st1
                    in bind_res (frame_loop n b1 st2) (\<lambda>(d, q, b2, st3). Inr (d, a # q, b2, st3))))"

declare frame_loop.simps [simp del]

section \<open>The stream\<close>

datatype verdict = Wait | Bad | Frame nat

definition next_frame :: "bytes \<Rightarrow> verdict" where
  "next_frame bs =
     (if length bs < 16 then Wait
      else if bs ! 0 \<noteq> START_BYTE \<or> bs ! 1 \<noteq> CURRENT_VERSION then Bad
      else let n = 16 + rd32 (drop 4 bs) in
        if n < 16 \<or> DATA_SIZE < unat n then Bad
        else if length bs < unat n then Wait else Frame (unat n))"

lemma next_frame_Frame: "next_frame bs = Frame n \<Longrightarrow> 16 \<le> n \<and> n \<le> length bs \<and> n \<le> DATA_SIZE"
  by (auto simp: next_frame_def Let_def not_less word_le_nat_alt split: if_splits)

function split_frames :: "bytes \<Rightarrow> bytes list \<times> bytes \<times> bool" where
  "split_frames bs =
     (case next_frame bs of
        Wait \<Rightarrow> ([], bs, False)
      | Bad \<Rightarrow> ([], bs, True)
      | Frame n \<Rightarrow> (case split_frames (drop n bs) of (fs, r, d) \<Rightarrow> (take n bs # fs, r, d)))"
  by pat_completeness auto
termination by (relation "measure length") (auto dest: next_frame_Frame)

declare split_frames.simps [simp del]

lemma rd32_append: "4 \<le> length bs \<Longrightarrow> rd32 (bs @ cs) = rd32 bs"
  by (cases bs rule: rd32.cases) auto

lemma next_frame_append:
  assumes "next_frame bs \<noteq> Wait"
  shows "next_frame (bs @ cs) = next_frame bs"
proof -
  have l: "16 \<le> length bs" using assms by (auto simp: next_frame_def split: if_splits)
  then have "rd32 (drop 4 (bs @ cs)) = rd32 (drop 4 bs)" using rd32_append [of "drop 4 bs" cs] by simp
  then show ?thesis using assms l by (auto simp: next_frame_def nth_append Let_def split: if_splits)
qed

text \<open>Cutting a prefix first and then what it leaves, together with the rest of the stream, gives the same packets.\<close>

lemma split_frames_append:
  "split_frames xs = (fs, r, False) \<Longrightarrow>
   split_frames (xs @ ys) = (case split_frames (r @ ys) of (gs, r', d) \<Rightarrow> (fs @ gs, r', d))"
proof (induction xs arbitrary: fs r rule: split_frames.induct)
  case (1 xs)
  show ?case
  proof (cases "next_frame xs")
    case Wait
    then show ?thesis using 1(2) by (subst (asm) split_frames.simps) (auto split: prod.split)
  next
    case Bad
    then show ?thesis using 1(2) by (subst (asm) split_frames.simps) auto
  next
    case (Frame n)
    obtain gs where gs: "split_frames (drop n xs) = (gs, r, False)" "fs = take n xs # gs"
      using 1(2) Frame by (subst (asm) split_frames.simps) (auto split: prod.splits)
    have n: "n \<le> length xs" using next_frame_Frame [OF Frame] by simp
    have "next_frame (xs @ ys) = Frame n" using Frame next_frame_append by simp
    then have "split_frames (xs @ ys) = (case split_frames (drop n xs @ ys) of (gs, r', d) \<Rightarrow> (take n xs # gs, r', d))"
      using n by (subst split_frames.simps) simp
    then show ?thesis using 1(1) [OF Frame gs(1)] gs(2) by (simp split: prod.split)
  qed
qed

section \<open>The loop follows the stream\<close>

lemma unat_ucast64 [simp]: "unat (ucast (w :: u32) :: u64) = unat w"
proof -
  have "unat w < 2 ^ 32" using unsigned_less [of w] by simp
  then show ?thesis by (simp add: unsigned_ucast_eq take_bit_nat_eq_self)
qed

lemma frame_loop_unfold:
  assumes "cb_inv b"
  shows "frame_loop fuel b st =
    (case next_frame (cb_contents b) of
       Wait \<Rightarrow> Inr (False, [], b, st)
     | Bad \<Rightarrow> Inr (True, [], b, st)
     | Frame n \<Rightarrow> (case fuel of 0 \<Rightarrow> Inl Diverges
         | Suc k \<Rightarrow> bind_res (borrow_packet st) (\<lambda>(r, st1).
             case r of None \<Rightarrow> Inr (False, [], b, st1)
             | Some a \<Rightarrow> bind_res (frame_loop k (b\<lparr>stidx := stidx b + of_nat n\<rparr>)
                 (set_packet a ((packet_at a st1)\<lparr>data := blit (data (packet_at a st1)) 0 (take n (cb_contents b)), in_pos := n\<rparr>) st1))
                 (\<lambda>(d, q, b2, st3). Inr (d, a # q, b2, st3)))))"
proof (cases "size_cb b < 16")
  case True
  then have "length (cb_contents b) < 16" by (simp add: word_less_nat_alt)
  then show ?thesis using True by (subst frame_loop.simps) (simp add: next_frame_def)
next
  case False
  define bs where "bs = cb_contents b"
  have len: "length bs = unat (size_cb b)" "16 \<le> length bs" using False by (simp_all add: bs_def word_less_nat_alt)
  have hdr: "copy_cb 16 b = Some (take 16 bs)" using False by (simp add: copy_cb_spec bs_def not_less)
  have "drop 4 bs = drop 4 (take 16 bs) @ drop 16 bs"
    using drop_append [of 4 "take 16 bs" "drop 16 bs"] len(2) by simp
  then have r: "rd32 (drop 4 (take 16 bs)) = rd32 (drop 4 bs)"
    using rd32_append [of "drop 4 (take 16 bs)" "drop 16 bs"] len(2) by simp
  define ps where "ps = 16 + rd32 (drop 4 bs)"
  have r': "16 + rd32 (drop 4 (take 16 bs)) = ps" using r by (simp add: ps_def)
  have c1: "of_nat DATA_SIZE < ps \<longleftrightarrow> DATA_SIZE < unat ps" by (simp add: word_less_nat_alt DATA_SIZE_def)
  have c2: "size_cb b < ucast ps \<longleftrightarrow> length bs < unat ps" using len(1) by (simp add: word_less_nat_alt)
  have c3: "consume_cb (ucast ps) b = (Some (take (unat ps) bs), b\<lparr>stidx := stidx b + ucast ps\<rparr>)" if "\<not> length bs < unat ps"
    using that c2 by (simp add: consume_cb_copy copy_cb_spec bs_def not_less)
  have lhs: "frame_loop fuel b st =
      (if bs ! 0 \<noteq> START_BYTE \<or> bs ! 1 \<noteq> CURRENT_VERSION then Inr (True, [], b, st)
       else if ps < 16 \<or> DATA_SIZE < unat ps then Inr (True, [], b, st)
       else if length bs < unat ps then Inr (False, [], b, st)
       else case fuel of 0 \<Rightarrow> Inl Diverges
         | Suc k \<Rightarrow> bind_res (borrow_packet st) (\<lambda>(r, st1).
             case r of None \<Rightarrow> Inr (False, [], b, st1)
             | Some a \<Rightarrow> bind_res (frame_loop k (b\<lparr>stidx := stidx b + ucast ps\<rparr>)
                 (set_packet a ((packet_at a st1)\<lparr>data := blit (data (packet_at a st1)) 0 (take (unat ps) bs), in_pos := unat ps\<rparr>) st1))
                 (\<lambda>(d, q, b2, st3). Inr (d, a # q, b2, st3))))"
    using False hdr r' c1 c2 c3 len(2) by (subst frame_loop.simps) (simp add: Let_def cong: option.case_cong nat.case_cong)
  have rhs: "next_frame bs = (if bs ! 0 \<noteq> START_BYTE \<or> bs ! 1 \<noteq> CURRENT_VERSION then Bad
       else if ps < 16 \<or> DATA_SIZE < unat ps then Bad
       else if length bs < unat ps then Wait else Frame (unat ps))"
    using len(2) by (simp add: next_frame_def ps_def Let_def)
  show ?thesis unfolding lhs bs_def [symmetric] rhs by (simp cong: option.case_cong nat.case_cong)
qed

text \<open>One packet is cut off.\<close>

lemma borrow_other:
  assumes "net_inv st" "borrow_packet st = Inr (Some a, st1)" "b \<noteq> a"
  shows "packet_at b st1 = packet_at b st"
proof (cases "pp_availableIdx (n_packets st)")
  case Nil
  then show ?thesis using assms(2) by (simp add: borrow_packet_def borrowPacket_def)
next
  case (Cons i js)
  have "pp_inv (n_packets st)" using assms(1) by (simp add: net_inv_def)
  then show ?thesis
    using borrowPacket_next [OF _ Cons] assms(2,3) by (auto simp: borrow_packet_def packet_at_def)
qed

definition cut :: "nat \<Rightarrow> CircularBuffer \<Rightarrow> CircularBuffer" where
  "cut n b = b\<lparr>stidx := stidx b + of_nat n\<rparr>"

lemma cut_ok:
  assumes "cb_inv b" "n \<le> length (cb_contents b)"
  shows "cb_inv (cut n b)" "cb_contents (cut n b) = drop n (cb_contents b)"
proof -
  have u: "unat (of_nat n :: u64) = n" using assms size_unat [OF assms(1)] by (simp add: unat_of_nat)
  then have "of_nat n \<le> size_cb b" using assms(2) by (simp add: word_le_nat_alt)
  then show "cb_inv (cut n b)" "cb_contents (cut n b) = drop n (cb_contents b)"
    using advance_spec [OF assms(1), of "of_nat n"] u by (simp_all add: cut_def)
qed

definition fill_packet :: "nat \<Rightarrow> bytes \<Rightarrow> 'z net_state_scheme \<Rightarrow> 'z net_state_scheme" where
  "fill_packet a f st = set_packet a ((packet_at a st)\<lparr>data := blit (data (packet_at a st)) 0 f, in_pos := length f\<rparr>) st"

lemma fill_packet_ok:
  assumes "net_inv st" "a < PACKET_POOL_SIZE" "length f \<le> DATA_SIZE"
  shows "net_inv (fill_packet a f st)" "take (length f) (data (packet_at a (fill_packet a f st))) = f"
    "in_pos (packet_at a (fill_packet a f st)) = length f" "\<And>b. b \<noteq> a \<Longrightarrow> packet_at b (fill_packet a f st) = packet_at b st"
proof -
  have d: "length (data (packet_at a st)) = DATA_SIZE"
    using assms(1,2) pp_invD(5) by (simp add: net_inv_def packet_at_def)
  show "net_inv (fill_packet a f st)"
    unfolding fill_packet_def using d assms(3) by (intro set_packet_ok [OF assms(1)]) simp_all
  show "take (length f) (data (packet_at a (fill_packet a f st))) = f" "in_pos (packet_at a (fill_packet a f st)) = length f"
    using packet_at_set_packet(1) [OF assms(1,2)] by (simp_all add: fill_packet_def blit_def)
  show "packet_at b (fill_packet a f st) = packet_at b st" if "b \<noteq> a" for b
    using packet_at_set_packet(2) [OF assms(1,2) that] by (simp add: fill_packet_def)
qed

lemma frame_loop_step:
  assumes "cb_inv b" "next_frame (cb_contents b) = Frame n" "borrow_packet st = Inr (Some a, st1)"
  shows "frame_loop (Suc k) b st =
    bind_res (frame_loop k (cut n b) (fill_packet a (take n (cb_contents b)) st1)) (\<lambda>(d, q, b2, st3). Inr (d, a # q, b2, st3))"
  using assms next_frame_Frame [OF assms(2)]
  by (subst frame_loop_unfold) (simp_all add: cut_def fill_packet_def)

section \<open>Termination\<close>

text \<open>
  C28. The loop ends: it cuts at most one packet per 16 bytes, so that for every ring buffer 1024 rounds
  are enough, whatever the bytes are and however many packets the pool still has.
\<close>

theorem framing_terminates:
  assumes "cb_inv b" "net_inv st" "length (cb_contents b) div 16 \<le> fuel"
  shows "\<exists>d q b' st'. frame_loop fuel b st = Inr (d, q, b', st') \<and> cb_inv b' \<and> net_inv st' \<and> 16 * length q \<le> length (cb_contents b)"
  using assms
proof (induction fuel arbitrary: b st)
  case 0
  then have "length (cb_contents b) < 16" by (simp add: div_eq_0_iff del: length_cb_contents)
  then have "next_frame (cb_contents b) = Wait" by (simp add: next_frame_def del: length_cb_contents)
  then show ?case using 0 by (subst frame_loop_unfold) auto
next
  case (Suc k)
  show ?case
  proof (cases "next_frame (cb_contents b)")
    case (Frame n)
    have n: "16 \<le> n" "n \<le> length (cb_contents b)" "n \<le> DATA_SIZE" using next_frame_Frame [OF Frame] by simp_all
    show ?thesis
      using Suc.prems(2)
    proof (cases rule: borrow_packet_cases)
      case none
      then show ?thesis using Suc.prems Frame by (subst frame_loop_unfold) auto
    next
      case (some a as st1)
      note C = cut_ok [OF Suc.prems(1) n(2)]
      have f: "net_inv (fill_packet a (take n (cb_contents b)) st1)"
        using fill_packet_ok(1) [OF some(3,5)] n by simp
      have "length (cb_contents (cut n b)) div 16 \<le> k"
        unfolding C(2) length_drop using n Suc.prems(3) by linarith
      then obtain d q b' st' where "frame_loop k (cut n b) (fill_packet a (take n (cb_contents b)) st1) = Inr (d, q, b', st')"
        "cb_inv b'" "net_inv st'" "16 * length q \<le> length (cb_contents (cut n b))"
        using Suc.IH [OF C(1) f] by blast
      then show ?thesis
        using frame_loop_step [OF Suc.prems(1) Frame some(2), of k] n C(2) by (auto simp del: length_cb_contents)
    qed
  qed (use Suc.prems in \<open>subst frame_loop_unfold; auto\<close>)+
qed

text \<open>A ring buffer with given bytes.\<close>

definition buffer_with :: "bytes \<Rightarrow> CircularBuffer" where
  "buffer_with xs = snd (insert_cb xs (new_buffer (replicate 16384 0)))"

lemma buffer_with_ok:
  assumes "length xs \<le> 16384"
  shows "cb_inv (buffer_with xs)" "cb_contents (buffer_with xs) = xs"
proof -
  let ?b = "new_buffer (replicate 16384 0)"
  have "cb_inv ?b" "cb_contents ?b = []" by (simp_all add: cb_inv_def new_buffer_def size_cb_def cb_contents_def)
  then show "cb_inv (buffer_with xs)" "cb_contents (buffer_with xs) = xs"
    using ring.ins_fits [of ?b xs] assms by (simp_all add: buffer_with_def)
qed

theorem framing_terminates_witness:
  "\<exists>io d q b' st'. frame_loop 0 (buffer_with [1, 2, 3]) (fresh_net io) = Inr (d, q, b', st') \<and> cb_inv b'"
proof -
  obtain io where "ic_inv io" using new_IOContextPool_inv by blast
  then have "net_inv (fresh_net io)" by (rule fresh_net_inv)
  then show ?thesis
    using framing_terminates [of "buffer_with [1, 2, 3]" "fresh_net io" 0] buffer_with_ok [of "[1, 2, 3]"]
    by (intro exI [of _ io]) (auto simp del: length_cb_contents)
qed

section \<open>Framing\<close>

lemma split_frames_length: "split_frames bs = (fs, r, d) \<Longrightarrow> 16 * length fs \<le> length bs"
proof (induction bs arbitrary: fs rule: split_frames.induct)
  case (1 bs)
  show ?case
  proof (cases "next_frame bs")
    case (Frame n)
    obtain gs where gs: "split_frames (drop n bs) = (gs, r, d)" "fs = take n bs # gs"
      using 1(2) Frame by (subst (asm) split_frames.simps) (auto split: prod.splits)
    then show ?thesis using 1(1) [OF Frame gs(1)] next_frame_Frame [OF Frame] by auto
  qed (use 1(2) in \<open>subst (asm) split_frames.simps; simp\<close>)+
qed

lemma frame_loop_spec:
  assumes "bs = cb_contents b" "cb_inv b" "net_inv st" "split_frames bs = (fs, r, d)"
    "length fs \<le> length (pp_availableIdx (n_packets st))" "length fs \<le> fuel"
  shows "\<exists>b' st'. frame_loop fuel b st = Inr (d, take (length fs) (pp_availableIdx (n_packets st)), b', st') \<and>
    cb_inv b' \<and> cb_contents b' = r \<and> net_inv st' \<and> same_connections st st' \<and>
    (\<forall>i < length fs. take (length (fs ! i)) (data (packet_at (pp_availableIdx (n_packets st) ! i) st')) = fs ! i \<and>
       in_pos (packet_at (pp_availableIdx (n_packets st) ! i) st') = length (fs ! i)) \<and>
    (\<forall>c. c \<notin> set (pp_availableIdx (n_packets st)) \<longrightarrow> packet_at c st' = packet_at c st)"
  using assms
proof (induction bs arbitrary: b st fs fuel rule: split_frames.induct)
  case (1 bs)
  show ?case
  proof (cases "next_frame bs")
    case (Frame n)
    obtain gs where gs: "split_frames (drop n bs) = (gs, r, d)" "fs = take n bs # gs"
      using 1(5) Frame by (subst (asm) split_frames.simps) (auto split: prod.splits)
    have n: "16 \<le> n" "n \<le> length bs" "n \<le> DATA_SIZE" using next_frame_Frame [OF Frame] by simp_all
    obtain k where k: "fuel = Suc k" using 1(7) gs(2) by (cases fuel) auto
    show ?thesis
      using 1(4)
    proof (cases rule: borrow_packet_cases)
      case none
      then show ?thesis using 1(6) gs(2) by simp
    next
      case (some a as st1)
      define st2 where "st2 = fill_packet a (take n bs) st1"
      have C: "cb_inv (cut n b)" "drop n bs = cb_contents (cut n b)" using cut_ok [OF 1(3), of n] n(2) 1(2) by simp_all
      have F: "net_inv st2" "take n (data (packet_at a st2)) = take n bs" "in_pos (packet_at a st2) = n"
        "\<And>c. c \<noteq> a \<Longrightarrow> packet_at c st2 = packet_at c st1"
        using fill_packet_ok [OF some(3,5), of "take n bs"] n by (simp_all add: st2_def)
      have av: "pp_availableIdx (n_packets st2) = as" using some(4) by (simp add: st2_def fill_packet_def)
      have "length gs \<le> length (pp_availableIdx (n_packets st2))" "length gs \<le> k" using 1(6,7) gs(2) some(1) av k by simp_all
      from 1(1) [OF Frame C(2) C(1) F(1) gs(1) this]
      obtain b' st' where IH: "frame_loop k (cut n b) st2 = Inr (d, take (length gs) as, b', st')"
        "cb_inv b'" "cb_contents b' = r" "net_inv st'" "same_connections st2 st'"
        "\<forall>i < length gs. take (length (gs ! i)) (data (packet_at (as ! i) st')) = gs ! i \<and> in_pos (packet_at (as ! i) st') = length (gs ! i)"
        "\<forall>c. c \<notin> set as \<longrightarrow> packet_at c st' = packet_at c st2"
        unfolding av by blast
      have fl: "frame_loop fuel b st = Inr (d, a # take (length gs) as, b', st')"
        using frame_loop_step [OF 1(3) _ some(2), of n k] Frame IH(1) 1(2) k by (simp add: st2_def)
      have "same_connections st1 st2" by (simp add: st2_def fill_packet_def)
      then have sc: "same_connections st st'" using some(7) IH(5) same_connections_trans by blast
      have at_a: "packet_at a st' = packet_at a st2" using IH(7) some(6) by blast
      have old: "packet_at c st' = packet_at c st" if "c \<notin> set (a # as)" for c
        using that IH(7) F(4) borrow_other [OF 1(4) some(2), of c] by auto
      have "take (length (fs ! i)) (data (packet_at ((a # as) ! i) st')) = fs ! i \<and> in_pos (packet_at ((a # as) ! i) st') = length (fs ! i)"
        if "i < length fs" for i
        using that IH(6) at_a F(2,3) n(2) gs(2) by (cases i) auto
      then show ?thesis using fl IH(2-4) sc old gs(2) some(1) by auto
    qed
  qed (use 1 in \<open>subst (asm) split_frames.simps; subst frame_loop_unfold; simp add: same_connections_refl\<close>)+
qed

text \<open>
  C3. The packets a connection yields depend on the bytes received and not on how the network cut them into
  pieces. With enough packets in the pool the loop cuts off exactly the packets that the bytes in the ring
  buffer contain, in order, each complete in a packet of its own, and leaves the incomplete rest; bytes that
  cannot start a packet close the connection. The packets cut off after one piece of the stream and those cut
  off from its rest and the next piece are together the packets of the whole.
\<close>

theorem framing_ignores_segmentation:
  assumes inv: "cb_inv b" "net_inv st" and s: "split_frames (cb_contents b) = (fs, r, d)"
    and room: "length fs \<le> length (pp_availableIdx (n_packets st))"
  shows "(\<exists>b' st'. frame_loop 1024 b st = Inr (d, take (length fs) (pp_availableIdx (n_packets st)), b', st') \<and>
      cb_inv b' \<and> cb_contents b' = r \<and> net_inv st' \<and> same_connections st st' \<and>
      (\<forall>i < length fs. take (length (fs ! i)) (data (packet_at (pp_availableIdx (n_packets st) ! i) st')) = fs ! i \<and>
         in_pos (packet_at (pp_availableIdx (n_packets st) ! i) st') = length (fs ! i))) \<and>
    (split_frames xs = (fs0, r0, False) \<and> cb_contents b = r0 @ ys \<longrightarrow> split_frames (xs @ ys) = (fs0 @ fs, r, d))"
proof -
  have "length fs \<le> 1024" using split_frames_length [OF s] size_unat [OF inv(1)] by simp
  then have "\<exists>b' st'. frame_loop 1024 b st = Inr (d, take (length fs) (pp_availableIdx (n_packets st)), b', st') \<and>
      cb_inv b' \<and> cb_contents b' = r \<and> net_inv st' \<and> same_connections st st' \<and>
      (\<forall>i < length fs. take (length (fs ! i)) (data (packet_at (pp_availableIdx (n_packets st) ! i) st')) = fs ! i \<and>
         in_pos (packet_at (pp_availableIdx (n_packets st) ! i) st') = length (fs ! i))"
    using frame_loop_spec [OF refl inv s room, of 1024] by blast
  then show ?thesis using split_frames_append [of xs fs0 r0 ys] s by auto
qed

theorem framing_ignores_segmentation_witness:
  "\<exists>io b' st' a. frame_loop 1024 (buffer_with ([0xD5, 1, 0, 0, 0, 0, 0, 0, 0, 0, 0, 0, 0, 0, 0, 0, 0])) (fresh_net io) = Inr (False, [a], b', st') \<and>
     in_pos (packet_at a st') \<noteq> 0 \<and> cb_contents b' = [0]"
proof -
  let ?f = "[0xD5, 1, 0, 0, 0, 0, 0, 0, 0, 0, 0, 0, 0, 0, 0, 0] :: bytes"
  let ?b = "buffer_with ([0xD5, 1, 0, 0, 0, 0, 0, 0, 0, 0, 0, 0, 0, 0, 0, 0, 0])"
  obtain io where "ic_inv io" using new_IOContextPool_inv by blast
  then have inv: "net_inv (fresh_net io)" by (rule fresh_net_inv)
  have b: "cb_inv ?b" "cb_contents ?b = [0xD5, 1, 0, 0, 0, 0, 0, 0, 0, 0, 0, 0, 0, 0, 0, 0, 0]" using buffer_with_ok by simp_all
  have "next_frame ([0xD5, 1, 0, 0, 0, 0, 0, 0, 0, 0, 0, 0, 0, 0, 0, 0, 0]) = Frame 16"
    by (simp add: next_frame_def packet_consts Let_def)
  moreover have "next_frame [0] = Wait" by (simp add: next_frame_def)
  ultimately have s: "split_frames (cb_contents ?b) = ([?f], [0], False)"
    unfolding b(2) by (subst split_frames.simps) (simp add: split_frames.simps [of "[0]"])
  have pos: "0 < PACKET_POOL_SIZE" by (simp add: PACKET_POOL_SIZE_def)
  have av: "pp_availableIdx (n_packets (fresh_net io)) = 0 # [1..<PACKET_POOL_SIZE]"
    using upt_conv_Cons [of 0 PACKET_POOL_SIZE] by (simp add: fresh_net_def new_PacketPool_def pos)
  show ?thesis
    using framing_ignores_segmentation [OF b(1) inv s, of "[]" "[]" "[]" "[]"] unfolding av by (intro exI [of _ io]) auto
qed

end
