(* ===== verification/Iocp.thy ===== *)
theory Iocp
  imports Message_Router Framing
begin

text \<open>
  The server's connections: accepting them, the worker that handles the completions of sends and receives,
  and taking connections down, \<open>network/IOCPManager.cpp\<close>. A completion runs to its end before the next one
  is handled. What the system reports, the result of \<open>accept\<close>, of a receive and of a completed operation,
  is an argument.
\<close>

section \<open>Taking a connection down\<close>

definition handleDisconnect :: "SOCKET \<Rightarrow> 'z sm_state_scheme \<Rightarrow> 'z sm_state_scheme res" where
  "handleDisconnect s st =
     (if s \<in> n_disconnectedSockets st then Inr st
      else
        let st1 = st\<lparr>n_disconnectedSockets := insert s (n_disconnectedSockets st)\<rparr>;
            userId = getUserIdBySocket s st1
        in bind_res (if userId \<noteq> [] then removeSession userId st1 else Inr st1) (\<lambda>st2.
             Inr (st2\<lparr>n_socketBuffers := (n_socketBuffers st2)(s := None), n_closed := n_closed st2 @ [s]\<rparr>)))"

section \<open>Accepting\<close>

text \<open>\<open>AcceptError True\<close> is an error that ends the loop; \<open>Accepted s b\<close> has \<open>b\<close> when the socket is associated with the port.\<close>

datatype accept_result = AcceptError bool | Accepted SOCKET bool

definition accept_one :: "(nat \<Rightarrow> bool) \<Rightarrow> SOCKET \<Rightarrow> 'z sm_state_scheme \<Rightarrow> 'z sm_state_scheme res" where
  "accept_one wsa s st =
     bind_res (postRecv wsa s (st\<lparr>n_disconnectedSockets := n_disconnectedSockets st - {s},
                                  n_socketBuffers := (n_socketBuffers st)(s \<mapsto> new_ConnectionBuffer)\<rparr>)) (\<lambda>(ok, st1).
       if ok then Inr st1 else handleDisconnect s st1)"

fun acceptLoop :: "(nat \<Rightarrow> bool) \<Rightarrow> accept_result list \<Rightarrow> 'z sm_state_scheme \<Rightarrow> 'z sm_state_scheme res" where
  "acceptLoop wsa [] st = Inr st"
| "acceptLoop wsa (AcceptError stop # rs) st = (if stop then Inr st else acceptLoop wsa rs st)"
| "acceptLoop wsa (Accepted s assoc # rs) st =
     (if \<not> assoc then acceptLoop wsa rs (st\<lparr>n_closed := n_closed st @ [s]\<rparr>)
      else bind_res (accept_one wsa s st) (acceptLoop wsa rs))"

section \<open>Receiving\<close>

text \<open>What the synchronous \<open>WSARecv\<close> reports: bytes (none at a graceful close), nothing to read, or an error.\<close>

datatype recv_result = Received bytes | WouldBlock | RecvError

definition set_buffer :: "SOCKET \<Rightarrow> CircularBuffer \<Rightarrow> 'z net_state_scheme \<Rightarrow> 'z net_state_scheme" where
  "set_buffer s b st = st\<lparr>n_socketBuffers := (n_socketBuffers st)(s \<mapsto> \<lparr>cn_buffer = b, cn_disconnected = False\<rparr>)\<rparr>"

text \<open>The bytes the system delivers fill the areas of the ring buffer in order.\<close>

definition read_socket ::
  "recv_result \<Rightarrow> SOCKET \<Rightarrow> 'z net_state_scheme \<Rightarrow> (bool \<times> nat list \<times> 'z net_state_scheme) res" where
  "read_socket rr s st =
     (case n_socketBuffers st s of
        None \<Rightarrow> Inr (True, [], st)
      | Some cn \<Rightarrow>
          if cn_disconnected cn then Inr (True, [], st)
          else
            let b = cn_buffer cn; areas = getWriteBuffers b in
            if areas = [] then Inr (False, [], st)
            else case rr of
              WouldBlock \<Rightarrow> Inr (False, [], st)
            | RecvError \<Rightarrow> Inr (True, [], st)
            | Received bs \<Rightarrow>
                if bs = [] then Inr (True, [], st)
                else
                  let b1 = commitWrite (of_nat (length bs)) (b\<lparr>buffer := scatter areas bs (buffer b)\<rparr>) in
                  bind_res (frame_loop 1024 b1 st) (\<lambda>(d, q, b2, st1). Inr (d, q, set_buffer s b2 st1)))"

definition temp_id :: "SOCKET \<Rightarrow> string" where
  "temp_id s = to_string (unat s) @ ''id''"

text \<open>The session of the socket, a new one for a client that has none.\<close>

definition session_for :: "SOCKET \<Rightarrow> 'z sm_state_scheme \<Rightarrow> (nat option \<times> 'z sm_state_scheme) res" where
  "session_for s st =
     (case findBySocket s st of
        (Some i, st1) \<Rightarrow> Inr (Some i, st1)
      | (None, st1) \<Rightarrow>
          bind_res (borrow_session s st1) (\<lambda>(r, st2).
            case r of
              None \<Rightarrow> Inr (None, st2)
            | Some i \<Rightarrow>
                Inr (Some i, addSession (temp_id s) i
                  (set_session i ((session_at i st2)\<lparr>se_iocp := True, se_socket := s, se_userId := temp_id s\<rparr>) st2))))"

text \<open>
  The packets in order, each with its own readings of the clock. The session is looked up once, before
  the first of them.
\<close>

fun handle_all :: "(nat \<Rightarrow> env) \<Rightarrow> nat \<Rightarrow> nat list \<Rightarrow> 'z mr_state_scheme \<Rightarrow> 'z mr_state_scheme res" where
  "handle_all ev i [] st = Inr st"
| "handle_all ev i (a # as) st =
     (let (parsed, p1) = parseHeader (packet_at a st) in
      bind_res (parseData p1) (\<lambda>(parsedData, p2).
        let st1 = set_packet a p2 st in
        if \<not> parsed \<or> \<not> parsedData then handle_all ev i as (return_packet a st1)
        else bind_res (handlePacket (ev a) a i st1) (\<lambda>(handled, st2).
               handle_all ev i as (if handled then st2 else return_packet a st2))))"

definition dispatch_queue ::
  "(nat \<Rightarrow> env) \<Rightarrow> SOCKET \<Rightarrow> nat list \<Rightarrow> 'z mr_state_scheme \<Rightarrow> (bool \<times> 'z mr_state_scheme) res" where
  "dispatch_queue ev s as st =
     (if as = [] then Inr (False, st)
      else bind_res (session_for s st) (\<lambda>(r, st1).
        case r of
          None \<Rightarrow> Inr (True, fold return_packet as st1)
        | Some i \<Rightarrow> bind_res (handle_all ev i as st1) (\<lambda>st2. Inr (False, st2))))"

definition on_receive ::
  "(nat \<Rightarrow> bool) \<Rightarrow> (nat \<Rightarrow> env) \<Rightarrow> recv_result \<Rightarrow> SOCKET \<Rightarrow> nat \<Rightarrow> 'z mr_state_scheme \<Rightarrow> 'z mr_state_scheme res" where
  "on_receive wsa ev rr s k st =
     bind_res (return_io k st) (\<lambda>st1.
     bind_res (read_socket rr s st1) (\<lambda>(d1, q, st2).
     bind_res (dispatch_queue ev s q st2) (\<lambda>(d2, st3).
       if d1 \<or> d2 then handleDisconnect s st3
       else bind_res (postRecv wsa s st3) (\<lambda>(ok, st4). if ok then Inr st4 else handleDisconnect s st4))))"

section \<open>Sending\<close>

text \<open>The rest of a packet of which only a part was sent is posted again with the same context.\<close>

definition resend_rest ::
  "(nat \<Rightarrow> bool) \<Rightarrow> SOCKET \<Rightarrow> nat \<Rightarrow> nat \<Rightarrow> PER_IO_OPERATION_DATA \<Rightarrow> 'z off_state_scheme \<Rightarrow> 'z off_state_scheme res" where
  "resend_rest wsa s k a d st =
     (let remaining = nat (io_totalToSend d - io_bytesSent d); off = nat (io_bytesSent d);
          st1 = set_io k (d\<lparr>io_offset := off, io_len := remaining\<rparr>) st
      in bind_res (read_bytes off remaining (data (packet_at a st1))) (\<lambda>bs.
           let st2 = st1\<lparr>n_calls := Suc (n_calls st1)\<rparr> in
           if wsa (n_calls st1)
           then Inr (st2\<lparr>n_posted := n_posted st2 @ [\<lparr>ps_socket = s, ps_context = k, ps_bytes = bs\<rparr>]\<rparr>)
           else
             let st3 = set_packet a ((packet_at a st2)\<lparr>isSending := False, isSentFail := True\<rparr>) st2;
                 recvId = getUserIdBySocket s st3
             in bind_res (return_io k st3) (\<lambda>st4. handleDisconnect s (clearFlag recvId st4))))"

definition on_send ::
  "(nat \<Rightarrow> bool) \<Rightarrow> nat \<Rightarrow> SOCKET \<Rightarrow> nat \<Rightarrow> 'z off_state_scheme \<Rightarrow> 'z off_state_scheme res" where
  "on_send wsa transferred s k st =
     (let d0 = ic_pool (n_io st) ! k in
      case io_packet d0 of
        None \<Rightarrow> return_io k st
      | Some a \<Rightarrow>
          let d = d0\<lparr>io_bytesSent := io_bytesSent d0 + int transferred\<rparr>; st1 = set_io k d st in
          if io_bytesSent d < io_totalToSend d then resend_rest wsa s k a d st1
          else
            let recvId = getUserIdBySocket s st1;
                bypassQ = bypassQueue (packet_at a st1);
                st2 = return_packet a (set_packet a ((packet_at a st1)\<lparr>isSending := False, isSent := True\<rparr>) st1)
            in bind_res (if bypassQ then Inr st2 else drainNext wsa recvId s st2) (return_io k))"

definition on_failure :: "(nat \<Rightarrow> bool) \<Rightarrow> SOCKET \<Rightarrow> nat \<Rightarrow> 'z off_state_scheme \<Rightarrow> 'z off_state_scheme res" where
  "on_failure wsa s k st =
     (let d = ic_pool (n_io st) ! k in
      bind_res (if io_operationType d = 0
                then (case io_packet d of
                        None \<Rightarrow> Inr st
                      | Some a \<Rightarrow>
                          let p = (packet_at a st)\<lparr>isSending := False, isSentFail := True\<rparr>; st1 = set_packet a p st in
                          if bypassQueue p then Inr (return_packet a st1)
                          else ManageCompletePacket wsa a (getUserIdBySocket s st1) st1)
                else Inr st) (\<lambda>st1.
      bind_res (return_io k st1) (handleDisconnect s)))"

section \<open>The worker\<close>

text \<open>A completion: its key, whether the operation succeeded, the bytes transferred and the context.\<close>

record completion =
  cp_socket :: SOCKET
  cp_success :: bool
  cp_bytes :: nat
  cp_context :: nat

definition on_completion ::
  "(nat \<Rightarrow> bool) \<Rightarrow> (nat \<Rightarrow> env) \<Rightarrow> recv_result \<Rightarrow> completion \<Rightarrow> 'z mr_state_scheme \<Rightarrow> 'z mr_state_scheme res" where
  "on_completion wsa ev rr c st =
     (let t = io_operationType (ic_pool (n_io st) ! cp_context c) in
      if \<not> cp_success c \<or> cp_bytes c = 0 \<and> t \<noteq> 2 then on_failure wsa (cp_socket c) (cp_context c) st
      else if t = 2 then on_receive wsa ev rr (cp_socket c) (cp_context c) st
      else if t = 0 then on_send wsa (cp_bytes c) (cp_socket c) (cp_context c) st
      else Inr st)"

text \<open>
  The loop of a worker over what the port reports, each completion with what is then read from the
  socket and the clock; \<open>None\<close> is the signal to stop.
\<close>

fun workerThread ::
  "(nat \<Rightarrow> bool) \<Rightarrow> (completion \<times> recv_result \<times> (nat \<Rightarrow> env)) option list \<Rightarrow> 'z mr_state_scheme \<Rightarrow> 'z mr_state_scheme res" where
  "workerThread wsa [] st = Inr st"
| "workerThread wsa (None # cs) st = Inr st"
| "workerThread wsa (Some (c, rr, ev) # cs) st = bind_res (on_completion wsa ev rr c st) (workerThread wsa cs)"

section \<open>Connections are closed once\<close>

lemma sm_inv_cong:
  assumes "n_spool st' = n_spool st" "sm_sessions st' = sm_sessions st" "sm_socketToUserId st' = sm_socketToUserId st"
  shows "sm_inv st' = sm_inv st"
  using assms by (simp add: sm_inv_def on_loan_def session_at_def)

lemma forget_fields [simp]:
  "n_closed (forget u k st) = n_closed st" "n_disconnectedSockets (forget u k st) = n_disconnectedSockets st"
  "n_socketBuffers (forget u k st) = n_socketBuffers st"
  by (simp_all add: forget_def)

lemma handleDisconnect_spec:
  assumes inv: "sm_inv st" and id: "sm_socketToUserId st s \<noteq> Some []"
  shows "\<exists>st'. handleDisconnect s st = Inr st' \<and> sm_inv st' \<and> handleDisconnect s st' = Inr st' \<and>
    (if s \<in> n_disconnectedSockets st then st' = st
     else n_closed st' = n_closed st @ [s] \<and> sm_socketToUserId st' s = None \<and> n_socketBuffers st' s = None)"
proof (cases "s \<in> n_disconnectedSockets st")
  case True
  then show ?thesis using inv by (intro exI [of _ st]) (simp add: handleDisconnect_def)
next
  case False
  define st1 where "st1 = st\<lparr>n_disconnectedSockets := insert s (n_disconnectedSockets st)\<rparr>"
  have inv1: "sm_inv st1" using inv sm_inv_cong [of st1 st] by (simp add: st1_def)
  define fin where "fin = (\<lambda>st2 :: 'a sm_state_scheme. st2\<lparr>n_socketBuffers := (n_socketBuffers st2)(s := None), n_closed := n_closed st2 @ [s]\<rparr>)"
  have fin: "sm_inv (fin st2) = sm_inv st2" for st2 by (rule sm_inv_cong) (simp_all add: fin_def)
  have fields: "n_closed (fin st2) = n_closed st2 @ [s]" "n_socketBuffers (fin st2) s = None"
    "sm_socketToUserId (fin st2) = sm_socketToUserId st2" for st2
    by (simp_all add: fin_def)
  have again: "handleDisconnect s (fin st2) = Inr (fin st2)" if "s \<in> n_disconnectedSockets st2" for st2
    using that by (simp add: handleDisconnect_def fin_def)
  have H: "handleDisconnect s st = bind_res (if getUserIdBySocket s st1 \<noteq> [] then removeSession (getUserIdBySocket s st1) st1 else Inr st1) (\<lambda>st2. Inr (fin st2))"
    using False by (simp add: handleDisconnect_def st1_def fin_def Let_def)
  show ?thesis
  proof (cases "sm_socketToUserId st s")
    case None
    then have "handleDisconnect s st = Inr (fin st1)" using H by (simp add: getUserIdBySocket_def st1_def)
    moreover have "n_closed st1 = n_closed st" "sm_socketToUserId st1 s = None" "s \<in> n_disconnectedSockets st1"
      using None by (simp_all add: st1_def)
    ultimately show ?thesis using fin inv1 fields again [of st1] False by (intro exI [of _ "fin st1"]) simp
  next
    case (Some u)
    have u: "getUserIdBySocket s st1 = u" "u \<noteq> []" using Some id by (simp_all add: getUserIdBySocket_def st1_def)
    obtain k where k: "sm_sessions st u = Some (Some k)" "se_socket (session_at k st) = s" using sm_invD(3) [OF inv Some] by blast
    have k1: "sm_sessions st1 u = Some (Some k)" "se_socket (session_at k st1) = s" using k by (simp_all add: st1_def session_at_def)
    have "removeSession u st1 = Inr (forget u k st1)" using removeSession_spec [OF inv1, of u] k1 by (simp add: findSession_def)
    then have h: "handleDisconnect s st = Inr (fin (forget u k st1))" using H u by simp
    have "sm_socketToUserId (forget u k st1) s = None" using k1(2) by (simp add: forget_def)
    moreover have "n_closed (forget u k st1) = n_closed st" "s \<in> n_disconnectedSockets (forget u k st1)"
      by (simp_all add: st1_def)
    ultimately show ?thesis
      using h fin fields forget_inv [OF inv1 k1(1)] again [of "forget u k st1"] False
      by (intro exI [of _ "fin (forget u k st1)"]) simp
  qed
qed

text \<open>
  C14. A connection is taken down exactly once. However often a dying socket is reported, only the first
  report closes it; it takes the session of the socket out of the directory and its buffer out of the
  server, and the directory stays consistent.
\<close>

theorem disconnect_once:
  assumes "sm_inv st" "sm_socketToUserId st s \<noteq> Some []"
  shows "\<exists>st'. handleDisconnect s st = Inr st' \<and> sm_inv st' \<and> handleDisconnect s st' = Inr st' \<and>
    (if s \<in> n_disconnectedSockets st then st' = st
     else n_closed st' = n_closed st @ [s] \<and> sm_socketToUserId st' s = None \<and> n_socketBuffers st' s = None)"
  by (rule handleDisconnect_spec [OF assms])

theorem disconnect_once_witness:
  "\<exists>(st :: sm_state) st'. handleDisconnect 7 st = Inr st' \<and> n_closed st' = [7] \<and> handleDisconnect 7 st' = Inr st'"
proof -
  define st where "st = \<lparr>n_packets = new_PacketPool, n_io = undefined, n_spool = new_SessionPool, n_calls = 0, n_posted = [],
    n_recvs = [], n_disconnectedSockets = {}, n_socketBuffers = Map.empty, n_closed = [], sm_sessions = Map.empty, sm_socketToUserId = Map.empty\<rparr>"
  have "sm_inv st" by (rule sm_invI) (simp_all add: st_def new_SessionPool_inv)
  then show ?thesis using disconnect_once [of st 7] by (auto simp: st_def)
qed

section \<open>Outboxes are emptied\<close>

text \<open>The completion of a send of which all bytes have gone out, and the handling of \<open>n\<close> of them, each for the last send posted.\<close>

definition sent_completely :: "posted_send \<Rightarrow> completion" where
  "sent_completely p = \<lparr>cp_socket = ps_socket p, cp_success = True, cp_bytes = length (ps_bytes p), cp_context = ps_context p\<rparr>"

fun completions :: "nat \<Rightarrow> (nat \<Rightarrow> bool) \<Rightarrow> (nat \<Rightarrow> env) \<Rightarrow> recv_result \<Rightarrow> 'z mr_state_scheme \<Rightarrow> 'z mr_state_scheme res" where
  "completions 0 wsa ev rr st = Inr st"
| "completions (Suc n) wsa ev rr st =
     bind_res (on_completion wsa ev rr (sent_completely (last (n_posted st))) st) (completions n wsa ev rr)"

definition wire_bytes :: "'z net_state_scheme \<Rightarrow> nat \<Rightarrow> bytes" where
  "wire_bytes st a = take (unat (toCopy (packet_at a st))) (data (packet_at a st))"

lemma wire_bytes_cong: "data (packet_at a st') = data (packet_at a st) \<Longrightarrow> wire_bytes st' a = wire_bytes st a"
  by (simp add: wire_bytes_def toCopy_def)

text \<open>The last send posted is that of the packet \<open>a\<close> on the socket \<open>s\<close>, and nothing of it has been reported yet.\<close>

definition in_flight :: "SOCKET \<Rightarrow> nat \<Rightarrow> 'z net_state_scheme \<Rightarrow> bool" where
  "in_flight s a st \<longleftrightarrow> n_posted st \<noteq> [] \<and>
     (let p = last (n_posted st); k = ps_context p; d = ic_pool (n_io st) ! k in
        ps_socket p = s \<and> k < IO_POOL_SIZE \<and> k \<notin> set (ic_free (n_io st)) \<and> io_operationType d = 0 \<and>
        io_packet d = Some a \<and> io_bytesSent d = 0 \<and> io_totalToSend d = int (length (ps_bytes p)))"

text \<open>The state after a send that the system accepts, \<open>k\<close> being the context taken.\<close>

definition sent_state :: "SOCKET \<Rightarrow> nat \<Rightarrow> nat \<Rightarrow> IOContextPool \<Rightarrow> 'z net_state_scheme \<Rightarrow> 'z net_state_scheme" where
  "sent_state s a k q st = (let n = toCopy (packet_at a st) in
     st\<lparr>n_io := q\<lparr>ic_pool := (ic_pool q)[k := (zero_io k)\<lparr>io_offset := 0, io_len := unat n, io_operationType := 0,
           io_packet := Some a, io_totalToSend := sint n, io_bytesSent := 0\<rparr>]\<rparr>,
        n_packets := (n_packets st)\<lparr>pp_pool := (pp_pool (n_packets st))[a := (packet_at a st)\<lparr>isSending := True, isSent := False, isSentFail := False\<rparr>]\<rparr>,
        n_calls := Suc (n_calls st),
        n_posted := n_posted st @ [\<lparr>ps_socket = s, ps_context = k, ps_bytes = take (unat n) (data (packet_at a st))\<rparr>]\<rparr>)"

lemma initiateSend_accepted:
  assumes n: "unat (toCopy (packet_at a st)) \<le> length (data (packet_at a st))"
    and q: "borrow_io st = Inr (Some k, st\<lparr>n_io := q\<rparr>)" "io_id (ic_pool q ! k) = k"
    and run: "initiateSend wsa s a st = Inr (True, st')"
  shows "st' = sent_state s a k q st"
proof -
  let ?n = "toCopy (packet_at a st)"
  have rd: "read_bytes 0 (unat ?n) (data (packet_at a st)) = Inr (take (unat ?n) (data (packet_at a st)))"
    using n by (simp add: read_bytes_def segment_def)
  have [simp]: "packet_at a (st\<lparr>n_io := q\<rparr>) = packet_at a st" by (simp add: packet_at_def)
  have [simp]: "toCopy ((packet_at a st)\<lparr>isSending := True, isSent := False, isSentFail := False\<rparr>) = ?n" by (simp add: toCopy_def)
  show ?thesis
    using run unfolding initiateSend_def q(1) sent_state_def
    by (simp add: rd q(2) Let_def set_packet_def set_io_def bind_res_Inr_iff split: if_splits)
qed

lemma initiateSend_in_flight:
  assumes inv: "net_inv st" and a: "a < PACKET_POOL_SIZE" "unat (toCopy (packet_at a st)) \<le> DATA_SIZE"
    and run: "initiateSend wsa s a st = Inr (True, st')"
  shows "in_flight s a st'" "bypassQueue (packet_at b st') = bypassQueue (packet_at b st)"
proof -
  have ii: "ic_inv (n_io st)" and pi: "pp_inv (n_packets st)" using inv by (simp_all add: net_inv_def)
  have len: "length (data (packet_at a st)) = DATA_SIZE" "a < length (pp_pool (n_packets st))"
    using pp_invD(1,5) [OF pi] a by (simp_all add: packet_at_def)
  from ii obtain k ks q where q: "borrow_io st = Inr (Some k, st\<lparr>n_io := q\<rparr>)" "ic_inv q" "ic_free q = ks"
    "k < IO_POOL_SIZE" "k \<notin> set ks" "io_id (ic_pool q ! k) = k"
  proof (cases rule: borrow_io_cases)
    case none
    then show ?thesis using run by (simp add: initiateSend_def)
  next
    case (some k ks q)
    then show ?thesis by (intro that [of k q ks])
  qed
  have k: "k < length (ic_pool q)" using q(2,4) by (simp add: ic_inv_def)
  have st': "st' = sent_state s a k q st" using initiateSend_accepted [OF _ q(1,6) run] a(2) len by simp
  have "ic_free (n_io st') = ks" using q(3) by (simp add: st' sent_state_def ic_free_def Let_def)
  then show "in_flight s a st'"
    using q(4,5) k a(2) len by (simp add: st' sent_state_def in_flight_def Let_def sint_small [of "toCopy (packet_at a st)"] DATA_SIZE_def)
  show "bypassQueue (packet_at b st') = bypassQueue (packet_at b st)"
    using len by (simp add: st' sent_state_def Let_def packet_at_def nth_list_update)
qed

lemma return_packet_other: "b \<noteq> a \<Longrightarrow> packet_at b (return_packet a st) = packet_at b st"
  by (simp add: return_packet_def returnPacket_def packet_at_def Let_def)

lemma return_packet_sendable: "sendable st c \<Longrightarrow> sendable (return_packet a st) c"
proof -
  assume c: "sendable st c"
  have "data (packet_at a (return_packet a st)) \<in> {data (packet_at a st), replicate DATA_SIZE 0}"
    by (cases "a < length (pp_pool (n_packets st))") (simp_all add: return_packet_def returnPacket_def packet_at_def Let_def list_update_beyond)
  moreover have "rd32 (drop 4 (replicate DATA_SIZE 0)) = 0" by (rule rd32_zero) (simp add: set_replicate_conv_if)
  ultimately show ?thesis using c return_packet_other [of c a st] by (cases "c = a") (auto simp: sendable_def toCopy_def)
qed

lemma off_inv_cong:
  fixes st :: "'z off_state_scheme"
  assumes "off_inv st" "net_inv st'" "queue_per_client st' = queue_per_client st" "\<And>c. sendable st c \<Longrightarrow> sendable st' c"
  shows "off_inv st'"
  using assms by (auto simp: off_inv_def outbox_def)

text \<open>A packet that has gone out is given back while it is still the first of the outbox.\<close>

definition gone_out :: "nat \<Rightarrow> nat \<Rightarrow> PER_IO_OPERATION_DATA \<Rightarrow> 'z net_state_scheme \<Rightarrow> 'z net_state_scheme" where
  "gone_out a k d st = (let st1 = set_io k d st in
     return_packet a (set_packet a ((packet_at a st1)\<lparr>isSending := False, isSent := True\<rparr>) st1))"

lemma gone_out_fields:
  fixes st :: "'z off_state_scheme"
  shows "queue_per_client (gone_out a k d st) = queue_per_client st" "n_posted (gone_out a k d st) = n_posted st"
    "n_calls (gone_out a k d st) = n_calls st" "sm_socketToUserId (gone_out a k d st) = sm_socketToUserId st"
    "n_io (gone_out a k d st) = (n_io st)\<lparr>ic_pool := (ic_pool (n_io st))[k := d]\<rparr>"
  by (simp_all add: gone_out_def Let_def return_packet_def set_packet_def set_io_def)

lemma gone_out_packet: "b \<noteq> a \<Longrightarrow> packet_at b (gone_out a k d st) = packet_at b st"
  by (simp add: gone_out_def Let_def return_packet_other) (simp add: packet_at_def set_packet_def set_io_def)

lemma gone_out_ok:
  fixes st :: "'z off_state_scheme"
  assumes inv: "off_inv st" and a: "a < PACKET_POOL_SIZE" "a \<notin> set (pp_availableIdx (n_packets st))"
    and k: "k < IO_POOL_SIZE" "io_id d = k"
  shows "off_inv (gone_out a k d st)" "pp_availableIdx (n_packets (gone_out a k d st)) = pp_availableIdx (n_packets st) @ [a]"
    "ic_free (n_io (gone_out a k d st)) = ic_free (n_io st)"
proof -
  have net: "net_inv st" using off_invD(1) [OF inv] .
  note ic = ic_inv_set_io [of "n_io st", OF _ k]
  define st1 where "st1 = set_io k d st"
  have 1: "net_inv st1" "n_packets st1 = n_packets st" "ic_free (n_io st1) = ic_free (n_io st)"
    using net ic by (simp_all add: st1_def set_io_def net_inv_def)
  define st2 where "st2 = set_packet a ((packet_at a st1)\<lparr>isSending := False, isSent := True\<rparr>) st1"
  have len: "length (data (packet_at a st1)) = DATA_SIZE"
    using net pp_invD(5) [of "n_packets st"] a(1) by (simp add: packet_at_def 1(2) net_inv_def)
  have 2: "net_inv st2" unfolding st2_def by (rule set_packet_ok [OF 1(1)]) (simp_all add: len)
  have av: "pp_availableIdx (n_packets st2) = pp_availableIdx (n_packets st)" by (simp add: st2_def set_packet_def 1(2))
  have g: "gone_out a k d st = return_packet a st2" by (simp add: gone_out_def st1_def st2_def Let_def)
  have s2: "sendable st2 c" if "sendable st c" for c
    using that pp_invD(1) [of "n_packets st"] net a(1)
    by (auto simp: sendable_def toCopy_def st2_def st1_def set_packet_def set_io_def packet_at_def nth_list_update net_inv_def)
  show "off_inv (gone_out a k d st)"
  proof (rule off_inv_cong [OF inv])
    show "net_inv (gone_out a k d st)" using return_packet_ok(1) [OF 2 a(1)] a(2) av by (simp add: g)
    show "sendable (gone_out a k d st) c" if "sendable st c" for c
      unfolding g by (rule return_packet_sendable) (rule s2 [OF that])
  qed (rule gone_out_fields(1))
  show "pp_availableIdx (n_packets (gone_out a k d st)) = pp_availableIdx (n_packets st) @ [a]"
    using return_packet_ok(2) [OF 2 a(1)] a(2) av by (simp add: g)
  show "ic_free (n_io (gone_out a k d st)) = ic_free (n_io st)" by (simp add: gone_out_fields(5) ic_free_def)
qed

lemma drainNext_in_flight:
  fixes st :: "'z off_state_scheme"
  assumes inv: "off_inv st" and ob: "outbox st u = (a # b # ps, f)" and ok: "\<forall>n. wsa n"
    and io: "ic_free (n_io st) \<noteq> []" and run: "drainNext wsa u s st = Inr st'"
  shows "in_flight s b st'" "bypassQueue (packet_at c st') = bypassQueue (packet_at c st)"
proof -
  obtain cq where cq: "queue_per_client st u = Some cq" "map wi_packet (mq_elems (cq_queue cq)) = a # b # ps"
    using ob by (auto simp: outbox_def split: option.splits)
  obtain q where q: "mq_inv q" "mq_elems q = tl (mq_elems (cq_queue cq))"
    and e: "drainNext wsa u s st =
      (let cq1 = cq\<lparr>cq_queue := q\<rparr>; st1 = set_queue u cq1 st in
       if mq_elems q = [] then Inr (set_flag u False st1)
       else bind_res (initiateSend wsa s (wi_packet (hd (mq_elems q))) st1) (\<lambda>(sent, st2).
              Inr (if sent then st2 else set_flag u False st2)))"
    using drainNext_unfold [OF cq(1) off_invD(2) [OF inv cq(1)]] by blast
  have hd: "mq_elems q \<noteq> []" "wi_packet (hd (mq_elems q)) = b" using cq(2) q(2) by (auto simp: map_eq_Cons_conv)
  let ?st = "set_queue u (cq\<lparr>cq_queue := q\<rparr>) st"
  have b: "sendable st b" using off_invD(3) [OF inv, of b u] ob by simp
  have st: "net_inv ?st" "sendable ?st b" "ic_free (n_io ?st) \<noteq> []"
    using off_invD(1) [OF inv] b io by (simp_all add: set_queue_fields)
  obtain st1 where st1: "initiateSend wsa s b ?st = Inr (True, st1)"
    using initiateSend_off [OF st, of wsa s] ok by auto
  then have "st' = st1" using run e hd by (simp add: Let_def)
  moreover have "packet_at c ?st = packet_at c st" by (simp add: set_queue_def packet_at_def)
  ultimately show "in_flight s b st'" "bypassQueue (packet_at c st') = bypassQueue (packet_at c st)"
    using initiateSend_in_flight [OF st(1) _ _ st1] st(2) by (simp_all add: sendable_def)
qed

lemma return_io_other:
  assumes "return_io k st = Inr st'" "j \<noteq> k"
  shows "ic_pool (n_io st') ! j = ic_pool (n_io st) ! j"
  using assms by (auto simp: return_io_def returnIOPdata_def bind_res_Inr_iff Let_def split: if_splits)

lemma on_send_step:
  fixes st :: "'z off_state_scheme"
  assumes inv: "off_inv st" and ob: "outbox st u = (a # ps, True)" and fl: "in_flight s a st" and uid: "getUserIdBySocket s st = u"
    and io: "ic_free (n_io st) \<noteq> []" and loan: "a \<notin> set (pp_availableIdx (n_packets st))" and q: "\<not> bypassQueue (packet_at a st)"
    and ok: "\<forall>n. wsa n" and c: "c = sent_completely (last (n_posted st))" and new: "a \<notin> set ps"
  shows "\<exists>st'. on_send wsa (cp_bytes c) (cp_socket c) (cp_context c) st = Inr st' \<and> off_inv st' \<and> outbox st' u = (ps, ps \<noteq> []) \<and>
    getUserIdBySocket s st' = u \<and> ic_free (n_io st') \<noteq> [] \<and> pp_availableIdx (n_packets st') = pp_availableIdx (n_packets st) @ [a] \<and>
    (\<forall>b. b \<noteq> a \<longrightarrow> data (packet_at b st') = data (packet_at b st)) \<and>
    (if ps = [] then n_posted st' = n_posted st
     else in_flight s (hd ps) st' \<and> (\<forall>b. b \<noteq> a \<longrightarrow> bypassQueue (packet_at b st') = bypassQueue (packet_at b st)) \<and>
       n_posted st' = n_posted st @ [\<lparr>ps_socket = s, ps_context = hd (ic_free (n_io st)), ps_bytes = wire_bytes st (hd ps)\<rparr>])"
proof -
  define k where "k = ps_context (last (n_posted st))"
  define d where "d = (ic_pool (n_io st) ! k)\<lparr>io_bytesSent := int (length (ps_bytes (last (n_posted st))))\<rparr>"
  have F: "cp_socket c = s" "cp_context c = k" "k < IO_POOL_SIZE" "k \<notin> set (ic_free (n_io st))"
    "io_packet (ic_pool (n_io st) ! k) = Some a" "io_bytesSent (ic_pool (n_io st) ! k) = 0"
    "io_totalToSend (ic_pool (n_io st) ! k) = int (cp_bytes c)" "cp_bytes c = length (ps_bytes (last (n_posted st)))"
    using fl by (simp_all add: c sent_completely_def in_flight_def k_def Let_def)
  have net: "net_inv st" and a: "a < PACKET_POOL_SIZE" using off_invD(1) [OF inv] off_invD(3) [OF inv, of a u] ob by (simp_all add: sendable_def)
  have id: "io_id d = k" using net F(3) by (simp add: d_def net_inv_def ic_inv_def)
  define st2 where "st2 = gone_out a k d st"
  note G = gone_out_ok [OF inv a loan F(3) id, folded st2_def] gone_out_fields [of a k d st, folded st2_def]
  have run: "on_send wsa (cp_bytes c) (cp_socket c) (cp_context c) st = bind_res (drainNext wsa u s st2) (return_io k)"
    using F uid q by (simp add: on_send_def Let_def d_def st2_def gone_out_def getUserIdBySocket_def set_io_def packet_at_def)
  have ob2: "outbox st2 u = (a # ps, True)" using ob by (simp add: outbox_def G(4))
  have io2: "ic_free (n_io st2) \<noteq> []" using io G(3) by simp
  obtain st3 where st3: "drainNext wsa u s st2 = Inr st3" "off_inv st3" "outbox st3 u = (ps, ps \<noteq> [])"
    "drains wsa s (ob_following (a # ps, True)) st2 st3"
    using drainNext_spec [OF G(1) io2, of wsa u s] ok ob2 by auto
  have D: "same_directory st2 st3" using st3(4) by (simp add: drains_def)
  have free3: "set (ic_free (n_io st3)) \<subseteq> set (ic_free (n_io st))"
    using st3(4) ok G(3) by (cases ps; cases "ic_free (n_io st)") (auto simp: drains_def untouched_def attempted_def)
  then obtain p where p: "return_io k st3 = Inr (st3\<lparr>n_io := p\<rparr>)" "ic_inv p" "ic_free p = ic_free (n_io st3) @ [k]"
    using return_io_ok [of st3 k] off_invD(1) [OF st3(2)] F(3,4) by (auto simp: net_inv_def)
  let ?st = "st3\<lparr>n_io := p\<rparr>"
  have "off_inv ?st"
    using off_inv_cong [OF st3(2), of ?st] off_invD(1) [OF st3(2)] p(2) by (simp add: net_inv_def sendable_def packet_at_def)
  moreover have "outbox ?st u = (ps, ps \<noteq> [])" using st3(3) by (simp add: outbox_def)
  moreover have "getUserIdBySocket s ?st = u" using uid D G(7) by (simp add: getUserIdBySocket_def same_directory_def)
  moreover have "pp_availableIdx (n_packets ?st) = pp_availableIdx (n_packets st) @ [a]" using D G(2) by (simp add: same_directory_def)
  moreover have "data (packet_at b ?st) = data (packet_at b st)" if "b \<noteq> a" for b
    using D gone_out_packet [OF that, of k d st] by (simp add: same_directory_def packet_at_def st2_def)
  moreover have "n_posted ?st = n_posted st" if "ps = []" using that st3(4) G(5) by (simp add: drains_def untouched_def)
  moreover have "in_flight s b ?st \<and> n_posted ?st = n_posted st @ [\<lparr>ps_socket = s, ps_context = hd (ic_free (n_io st)), ps_bytes = wire_bytes st b\<rparr>] \<and>
      (\<forall>e. e \<noteq> a \<longrightarrow> bypassQueue (packet_at e ?st) = bypassQueue (packet_at e st))" if "ps = b # bs" for b bs
  proof -
    have 3: "in_flight s b st3" "bypassQueue (packet_at e st3) = bypassQueue (packet_at e st2)" for e
      using drainNext_in_flight [OF G(1) ob2 [unfolded that] ok io2 st3(1)] by simp_all
    have P: "n_posted st3 = n_posted st @ [\<lparr>ps_socket = s, ps_context = hd (ic_free (n_io st)), ps_bytes = wire_bytes st b\<rparr>]"
      using st3(4) that new ok G(3,5) gone_out_packet [of b a k d st] by (simp add: drains_def attempted_def wire_bytes_def st2_def)
    have "hd (ic_free (n_io st)) \<noteq> k" using io F(4) by (metis hd_in_set)
    then have "in_flight s b ?st"
      using 3(1) P p(3) return_io_other [OF p(1)] by (simp add: in_flight_def Let_def)
    moreover have "bypassQueue (packet_at e ?st) = bypassQueue (packet_at e st)" if "e \<noteq> a" for e
      using 3(2) [of e] gone_out_packet [OF that, of k d st] by (simp add: packet_at_def st2_def)
    ultimately show ?thesis using P by simp
  qed
  ultimately show ?thesis using run st3(1) p(1,3) by (cases ps) (auto intro!: exI [of _ ?st])
qed

lemma worker_step:
  fixes st :: "'z mr_state_scheme"
  assumes "off_inv st" "outbox st u = (a # ps, True)" "in_flight s a st" "getUserIdBySocket s st = u" "ic_free (n_io st) \<noteq> []" "\<forall>n. wsa n"
    and "a \<notin> set (pp_availableIdx (n_packets st))" "\<not> bypassQueue (packet_at a st)" "a \<notin> set ps" "ps_bytes (last (n_posted st)) \<noteq> []"
  shows "\<exists>st'. on_completion wsa ev rr (sent_completely (last (n_posted st))) st = Inr st' \<and> off_inv st' \<and> outbox st' u = (ps, ps \<noteq> []) \<and>
    getUserIdBySocket s st' = u \<and> ic_free (n_io st') \<noteq> [] \<and> pp_availableIdx (n_packets st') = pp_availableIdx (n_packets st) @ [a] \<and>
    (\<forall>b. b \<noteq> a \<longrightarrow> data (packet_at b st') = data (packet_at b st)) \<and>
    (if ps = [] then n_posted st' = n_posted st
     else in_flight s (hd ps) st' \<and> (\<forall>b. b \<noteq> a \<longrightarrow> bypassQueue (packet_at b st') = bypassQueue (packet_at b st)) \<and>
       n_posted st' = n_posted st @ [\<lparr>ps_socket = s, ps_context = hd (ic_free (n_io st)), ps_bytes = wire_bytes st (hd ps)\<rparr>])"
proof -
  let ?c = "sent_completely (last (n_posted st))"
  have "on_completion wsa ev rr ?c st = on_send wsa (cp_bytes ?c) (cp_socket ?c) (cp_context ?c) st"
    using assms(3,10) by (simp add: on_completion_def Let_def sent_completely_def in_flight_def)
  then show ?thesis using on_send_step [OF assms(1-5,7,8,6) refl assms(9)] by simp
qed

text \<open>
  C13. Every message in an outbox goes out, in order. Once the first packet of an outbox is being sent, the
  worker that handles the completions of the sends, as many as there are packets, hands all the others to the
  system one after the other, each once and in the order of the outbox, gives every packet back to the
  pool, and leaves the outbox empty and idle. One free I/O context is enough.
\<close>

theorem outbox_drains:
  fixes st :: "'z mr_state_scheme"
  assumes "off_inv st" "outbox st u = (a # ps, True)" "in_flight s a st" "getUserIdBySocket s st = u" "ic_free (n_io st) \<noteq> []"
    "\<forall>n. wsa n" "distinct (a # ps)"
    "\<forall>b \<in> set (a # ps). b \<notin> set (pp_availableIdx (n_packets st)) \<and> \<not> bypassQueue (packet_at b st) \<and> wire_bytes st b \<noteq> []"
    "ps_bytes (last (n_posted st)) = wire_bytes st a"
  shows "\<exists>st'. completions (Suc (length ps)) wsa ev rr st = Inr st' \<and> off_inv st' \<and> outbox st' u = ([], False) \<and>
    pp_availableIdx (n_packets st') = pp_availableIdx (n_packets st) @ a # ps \<and>
    map (\<lambda>p. (ps_socket p, ps_bytes p)) (n_posted st') =
      map (\<lambda>p. (ps_socket p, ps_bytes p)) (n_posted st) @ map (\<lambda>b. (s, wire_bytes st b)) ps"
  using assms
proof (induction ps arbitrary: a st)
  case (Nil a st)
  obtain st' where st': "on_completion wsa ev rr (sent_completely (last (n_posted st))) st = Inr st'" "off_inv st'"
    "outbox st' u = ([], False)" "n_posted st' = n_posted st" "pp_availableIdx (n_packets st') = pp_availableIdx (n_packets st) @ [a]"
    using worker_step [OF Nil.prems(1-6), of ev rr] Nil.prems(7-9) by auto
  then show ?case by simp
next
  case (Cons b qs a st)
  obtain st1 where st1: "on_completion wsa ev rr (sent_completely (last (n_posted st))) st = Inr st1" "off_inv st1"
    "outbox st1 u = (b # qs, True)" "getUserIdBySocket s st1 = u" "ic_free (n_io st1) \<noteq> []"
    "pp_availableIdx (n_packets st1) = pp_availableIdx (n_packets st) @ [a]"
    "\<forall>b. b \<noteq> a \<longrightarrow> data (packet_at b st1) = data (packet_at b st)" "in_flight s b st1"
    "\<forall>b. b \<noteq> a \<longrightarrow> bypassQueue (packet_at b st1) = bypassQueue (packet_at b st)"
    "n_posted st1 = n_posted st @ [\<lparr>ps_socket = s, ps_context = hd (ic_free (n_io st)), ps_bytes = wire_bytes st b\<rparr>]"
    using worker_step [OF Cons.prems(1-6), of ev rr] Cons.prems(7-9) by auto
  have w: "wire_bytes st1 c = wire_bytes st c" if "c \<noteq> a" for c using st1(7) that by (intro wire_bytes_cong) simp
  have "\<forall>c \<in> set (b # qs). c \<notin> set (pp_availableIdx (n_packets st1)) \<and> \<not> bypassQueue (packet_at c st1) \<and> wire_bytes st1 c \<noteq> []"
    using Cons.prems(7,8) st1(6,9) w by (metis Un_iff distinct.simps(2) list.set_intros(2) set_ConsD set_append empty_set empty_iff)
  moreover have "ps_bytes (last (n_posted st1)) = wire_bytes st1 b" using st1(10) w [of b] Cons.prems(7) by simp
  moreover have "distinct (b # qs)" using Cons.prems(7) by simp
  ultimately obtain st' where st': "completions (Suc (length qs)) wsa ev rr st1 = Inr st'" "off_inv st'" "outbox st' u = ([], False)"
    "pp_availableIdx (n_packets st') = pp_availableIdx (n_packets st1) @ b # qs"
    "map (\<lambda>p. (ps_socket p, ps_bytes p)) (n_posted st') =
      map (\<lambda>p. (ps_socket p, ps_bytes p)) (n_posted st1) @ map (\<lambda>b. (s, wire_bytes st1 b)) qs"
    using Cons.IH [OF st1(2,3,8,4,5) Cons.prems(6)] by blast
  have "map (\<lambda>b. (s, wire_bytes st1 b)) qs = map (\<lambda>b. (s, wire_bytes st b)) qs"
    using Cons.prems(7) by (intro map_cong refl) (simp, metis w)
  moreover have "completions (Suc (length (b # qs))) wsa ev rr st = Inr st'" using st1(1) st'(1) by simp
  ultimately show ?case using st'(2-5) st1(6,10) by simp
qed

text \<open>A server with packets in the outbox of a user.\<close>

definition busy_off :: "IOContextPool \<Rightarrow> WorkItem MpscQueue \<Rightarrow> off_state" where
  "busy_off io q = (fresh_off io)\<lparr>queue_per_client := [''u'' \<mapsto> \<lparr>cq_queue = q, cq_flag = True\<rparr>]\<rparr>"

lemma busy_off_ok:
  assumes "ic_inv io" "mq_inv q" "\<forall>x \<in> set (mq_elems q). wi_packet x < PACKET_POOL_SIZE"
  shows "off_inv (busy_off io q)" "outbox (busy_off io q) ''u'' = (map wi_packet (mq_elems q), True)"
    "n_io (busy_off io q) = io"
proof -
  show o': "outbox (busy_off io q) ''u'' = (map wi_packet (mq_elems q), True)" "n_io (busy_off io q) = io"
    by (simp_all add: busy_off_def outbox_def fresh_off_def)
  have "net_inv (busy_off io q)" using fresh_off_inv(1) [OF assms(1)] by (simp add: off_inv_def net_inv_def busy_off_def)
  moreover have "mq_inv (cq_queue cq)" if "queue_per_client (busy_off io q) v = Some cq" for v cq
    using that assms(2) by (auto simp: busy_off_def fresh_off_def split: if_splits)
  moreover have "sendable (busy_off io q) a" if "a \<in> set (fst (outbox (busy_off io q) v))" for v a
  proof -
    have "a < PACKET_POOL_SIZE" using that assms(3) by (auto simp: busy_off_def fresh_off_def outbox_def split: if_splits)
    then show ?thesis using fresh_sendable [of a io] by (simp add: sendable_def packet_at_def busy_off_def)
  qed
  ultimately show "off_inv (busy_off io q)" by (auto simp: off_inv_def)
qed

lemma queue_with: "\<exists>q. mq_inv q \<and> mq_elems q = xs"
proof (induction xs rule: rev_induct)
  case Nil
  then show ?case using new_mpsc_inv by blast
next
  case (snoc x xs)
  then obtain q where "mq_inv q" "mq_elems q = xs" by blast
  then show ?case using mpsc.push_ok [of q x] by auto
qed

text \<open>Two packets with a payload of one byte, both in use.\<close>

definition small_packet :: "nat \<Rightarrow> Packet" where
  "small_packet i = (new_packet zero_header (replicate 7 0 @ 1 # replicate (DATA_SIZE - 8) 0))\<lparr>pkt_id := i\<rparr>"

definition two_packets :: PacketPool where
  "two_packets = \<lparr>pp_pool = (replicate PACKET_POOL_SIZE (new_packet zero_header (replicate DATA_SIZE 0)))[0 := small_packet 0, 1 := small_packet 1],
     pp_availableIdx = [2..<PACKET_POOL_SIZE], pp_inUse = (replicate PACKET_POOL_SIZE 0)[0 := 1, 1 := 1],
     pp_currentPacketUse = 2, pp_peak = 2\<rparr>"

lemma small_packet_facts: "length (data (small_packet i)) = DATA_SIZE" "toCopy (small_packet i) = 1" "pkt_id (small_packet i) = i"
  "\<not> bypassQueue (small_packet i)"
proof -
  show "length (data (small_packet i)) = DATA_SIZE" by (simp add: small_packet_def new_packet_def DATA_SIZE_def)
  have "drop 4 (data (small_packet i)) = [0, 0, 0, 1] @ replicate (DATA_SIZE - 8) 0"
    by (simp add: small_packet_def new_packet_def eval_nat_numeral)
  then show "toCopy (small_packet i) = 1" by (simp add: toCopy_def)
qed (simp_all add: small_packet_def new_packet_def)

lemma two_packets_inv: "pp_inv two_packets" "pp_pool two_packets ! 0 = small_packet 0" "pp_pool two_packets ! Suc 0 = small_packet (Suc 0)"
proof -
  have pos: "1 < PACKET_POOL_SIZE" by (simp add: PACKET_POOL_SIZE_def)
  show "pp_inv two_packets"
    using pos by (auto simp: pp_inv_def two_packets_def nth_list_update small_packet_facts new_packet_def)
  show "pp_pool two_packets ! 0 = small_packet 0" "pp_pool two_packets ! Suc 0 = small_packet (Suc 0)"
    using pos by (simp_all add: two_packets_def nth_list_update)
qed

theorem outbox_drains_witness:
  "\<exists>(st :: mr_state) st'. outbox st ''u'' = ([0, 1], True) \<and> completions 2 (\<lambda>_. True) undefined WouldBlock st = Inr st' \<and> outbox st' ''u'' = ([], False)"
proof -
  obtain io where io: "ic_inv io" "ic_free io = [0..<IO_POOL_SIZE]" using new_IOContextPool_inv by blast
  have pos: "1 < PACKET_POOL_SIZE" "1 < IO_POOL_SIZE" by (simp_all add: PACKET_POOL_SIZE_def IO_POOL_SIZE_def)
  obtain q where q: "mq_inv q" "mq_elems q = [\<lparr>wi_recId = ''u'', wi_packet = 0\<rparr>, \<lparr>wi_recId = ''u'', wi_packet = 1\<rparr>]"
    using queue_with by blast
  define st0 where "st0 = (fresh_mr io undefined undefined)\<lparr>n_packets := two_packets, sm_socketToUserId := [7 \<mapsto> ''u''],
    queue_per_client := [''u'' \<mapsto> \<lparr>cq_queue = q, cq_flag = True\<rparr>]\<rparr>"
  have F: "n_packets st0 = two_packets" "n_io st0 = io" "sm_socketToUserId st0 = [7 \<mapsto> ''u'']" "n_spool st0 = new_SessionPool"
    "queue_per_client st0 = [''u'' \<mapsto> \<lparr>cq_queue = q, cq_flag = True\<rparr>]" "n_posted st0 = []"
    by (simp_all add: st0_def fresh_mr_def)
  have P: "packet_at 0 st0 = small_packet 0" "packet_at (Suc 0) st0 = small_packet (Suc 0)" by (simp_all add: packet_at_def F(1) two_packets_inv)
  have S: "sendable st0 0" "sendable st0 (Suc 0)" using pos(1) by (simp_all add: sendable_def P small_packet_facts DATA_SIZE_def)
  have net: "net_inv st0" using io(1) by (simp add: net_inv_def F two_packets_inv new_SessionPool_inv)
  have inv: "off_inv st0" using net q S by (auto simp: off_inv_def F(5) outbox_def split: if_splits)
  have free: "ic_free (n_io st0) \<noteq> []" using pos(2) io(2) by (simp add: F(2))
  obtain st where st: "initiateSend (\<lambda>_. True) 7 0 st0 = Inr (True, st)" "net_inv st" "same_directory st0 st"
    "attempted (\<lambda>_. True) 7 0 st0 st" "queue_per_client st = queue_per_client st0"
    using initiateSend_off [OF net S(1) free, of "\<lambda>_. True" 7] by auto
  have fl: "in_flight 7 0 st" "bypassQueue (packet_at b st) = bypassQueue (packet_at b st0)" for b
    using initiateSend_in_flight [OF net _ _ st(1)] S(1) by (simp_all add: sendable_def)
  have D: "data (packet_at b st) = data (packet_at b st0)" for b using st(3) by (simp add: same_directory_def)
  have "off_inv st" by (rule off_inv_cong [OF inv st(2,5)]) (simp add: sendable_def toCopy_def D)
  moreover have ob: "outbox st ''u'' = ([0, 1], True)" by (simp add: outbox_def st(5) F(5) q(2))
  moreover have "getUserIdBySocket 7 st = ''u''" using st(3) by (simp add: getUserIdBySocket_def same_directory_def F(3))
  moreover have "ic_free (n_io st) \<noteq> []"
    using st(4) pos(2) by (simp add: attempted_def F(2) io(2))
  moreover have wire: "wire_bytes st b = wire_bytes st0 b" for b by (rule wire_bytes_cong) (rule D)
  moreover have "wire_bytes st0 0 \<noteq> []" "wire_bytes st0 (Suc 0) \<noteq> []"
    using small_packet_facts(1) [of 0] small_packet_facts(1) [of "Suc 0"] by (auto simp: wire_bytes_def P small_packet_facts(2) DATA_SIZE_def)
  moreover have "ps_bytes (last (n_posted st)) = wire_bytes st 0" using st(4) wire by (simp add: attempted_def wire_bytes_def)
  moreover have "pp_availableIdx (n_packets st) = [2..<PACKET_POOL_SIZE]" using st(3) by (simp add: same_directory_def F(1) two_packets_def)
  ultimately obtain st' where "completions (Suc (length [1 :: nat])) (\<lambda>_. True) undefined WouldBlock st = Inr st'" "outbox st' ''u'' = ([], False)"
    using outbox_drains [of st "''u''" 0 "[1]" 7 "\<lambda>_. True" undefined WouldBlock] fl P small_packet_facts(4) by auto
  then show ?thesis using ob by (intro exI [of _ st] exI [of _ st']) (simp add: numeral_2_eq_2)
qed

section \<open>A failed send\<close>

lemma handleDisconnect_queues:
  fixes st :: "'z off_state_scheme"
  shows "handleDisconnect s st = Inr st' \<Longrightarrow> queue_per_client st' = queue_per_client st"
  by (auto simp: handleDisconnect_def removeSession_def return_session_def Let_def bind_res_Inr_iff split: if_splits option.splits)

text \<open>
  C40. When a send fails while it is under way, the outbox of its receiver stops for good. The packet is still
  the first of the outbox, is put at its end a second time, and the outbox stays marked as being under way.
  When the receiver logs in again \<open>notifySend\<close> finds it under way and sends nothing.
\<close>

theorem failed_send_blocks_outbox:
  fixes st :: "'z off_state_scheme"
  assumes inv: "off_inv st" and ob: "outbox st u = (a # ps, True)" and u: "getUserIdBySocket s st = u"
    and ctx: "io_operationType (ic_pool (n_io st) ! k) = 0" "io_packet (ic_pool (n_io st) ! k) = Some a"
    and q: "\<not> bypassQueue (packet_at a st)" and k: "k < IO_POOL_SIZE" "k \<notin> set (ic_free (n_io st))"
    and dir: "sm_inv st" "u \<noteq> []"
  shows "\<exists>st'. on_failure wsa s k st = Inr st' \<and> outbox st' u = (a # ps @ [a], True) \<and> notifySend wsa u st' = Inr st'"
proof -
  obtain cq where cq: "queue_per_client st u = Some cq" "map wi_packet (mq_elems (cq_queue cq)) = a # ps" "cq_flag cq"
    using ob by (auto simp: outbox_def split: option.splits)
  have mq: "mq_inv (cq_queue cq)" using off_invD(2) [OF inv cq(1)] .
  obtain q' where q': "push_mpsc \<lparr>wi_recId = u, wi_packet = a\<rparr> (cq_queue cq) = Inr q'" "mq_inv q'"
    "mq_elems q' = mq_elems (cq_queue cq) @ [\<lparr>wi_recId = u, wi_packet = a\<rparr>]"
    using mpsc.push_ok [OF mq] by blast
  let ?p = "(packet_at a st)\<lparr>isSending := False, isSentFail := True\<rparr>"
  let ?st1 = "set_packet a ?p st"
  have "getUserIdBySocket s ?st1 = u" using u by (simp add: getUserIdBySocket_def set_packet_def)
  moreover have "queue_per_client ?st1 = queue_per_client st" by (simp add: set_packet_def)
  ultimately have "ManageCompletePacket wsa a (getUserIdBySocket s ?st1) ?st1 = Inr (set_queue u (cq\<lparr>cq_queue := q'\<rparr>) ?st1)"
    using cq q'(1) by (simp add: ManageCompletePacket_def)
  moreover define st2 where "st2 = set_queue u (cq\<lparr>cq_queue := q'\<rparr>) ?st1"
  ultimately have f: "on_failure wsa s k st = bind_res (return_io k st2) (handleDisconnect s)"
    using ctx q by (simp add: on_failure_def Let_def)
  have eq: "n_io st2 = n_io st" "n_spool st2 = n_spool st" "sm_sessions st2 = sm_sessions st" "sm_socketToUserId st2 = sm_socketToUserId st"
    by (simp_all add: st2_def set_queue_def set_packet_def)
  obtain p where p: "return_io k st2 = Inr (st2\<lparr>n_io := p\<rparr>)"
    using return_io_ok [of st2 k] k off_invD(1) [OF inv] eq(1) by (auto simp: net_inv_def)
  have "sm_inv (st2\<lparr>n_io := p\<rparr>)" using dir(1) sm_inv_cong [of "st2\<lparr>n_io := p\<rparr>" st] eq by simp
  moreover have "sm_socketToUserId (st2\<lparr>n_io := p\<rparr>) s \<noteq> Some []"
    using u dir(2) eq(4) by (auto simp: getUserIdBySocket_def split: option.splits)
  ultimately obtain st' where st': "handleDisconnect s (st2\<lparr>n_io := p\<rparr>) = Inr st'" using handleDisconnect_spec by blast
  then have Q: "queue_per_client st' u = Some (cq\<lparr>cq_queue := q'\<rparr>)"
    using handleDisconnect_queues [OF st'] by (simp add: st2_def set_queue_def)
  then have "outbox st' u = (a # ps @ [a], True)" using cq(2,3) q'(3) by (simp add: outbox_def)
  moreover have "notifySend wsa u st' = Inr st'" using Q cq(3) mpsc.empty_ok [OF q'(2)] by (simp add: notifySend_def)
  ultimately show ?thesis using f p st' by (intro exI [of _ st']) simp
qed

text \<open>A server with the user \<open>u\<close> on the socket 7, the session of which is the first of the pool.\<close>

definition one_session :: SessionPool where
  "one_session = \<lparr>sp_pool = (replicate SESSION_POOL_SIZE new_Session)[0 := new_Session\<lparr>se_userId := ''u'', se_socket := 7, se_iocp := True\<rparr>],
     sp_freeIndices = [1..<SESSION_POOL_SIZE]\<rparr>"

lemma one_session_inv:
  fixes st :: "'z sm_state_scheme"
  assumes "n_spool st = one_session" "sm_sessions st = [''u'' \<mapsto> Some 0]" "sm_socketToUserId st = [7 \<mapsto> ''u'']"
  shows "sm_inv st"
proof (rule sm_invI)
  have pos: "0 < SESSION_POOL_SIZE" by (simp add: SESSION_POOL_SIZE_def)
  have at: "se_socket (session_at 0 st) = 7" "on_loan 0 st"
    using pos assms(1) by (simp_all add: session_at_def on_loan_def one_session_def)
  show "sp_inv (n_spool st)"
    using pos unfolding assms(1) by (auto simp: one_session_def sp_inv_def new_Session_def nth_list_update)
  show "\<exists>i. x = Some i \<and> on_loan i st \<and> sm_socketToUserId st (se_socket (session_at i st)) = Some v"
    if "sm_sessions st v = Some x" for v x
    using that at by (intro exI [of _ 0]) (simp add: assms(2,3) split: if_splits)
  show "\<exists>i. sm_sessions st v = Some (Some i) \<and> se_socket (session_at i st) = s"
    if "sm_socketToUserId st s = Some v" for s v
    using that at by (intro exI [of _ 0]) (simp add: assms(2,3) split: if_splits)
qed

theorem failed_send_blocks_outbox_witness:
  "\<exists>(st :: off_state) st'. outbox st ''u'' = ([0], True) \<and> on_failure (\<lambda>_. True) 7 0 st = Inr st' \<and> outbox st' ''u'' = ([0, 0], True) \<and>
     notifySend (\<lambda>_. True) ''u'' st' = Inr st'"
proof -
  obtain io where io: "ic_inv io" "ic_free io = [0..<IO_POOL_SIZE]" using new_IOContextPool_inv by blast
  have pos: "0 < PACKET_POOL_SIZE" "0 < IO_POOL_SIZE" by (simp_all add: PACKET_POOL_SIZE_def IO_POOL_SIZE_def)
  obtain q where q: "mq_inv q" "mq_elems q = [\<lparr>wi_recId = ''u'', wi_packet = 0\<rparr>]" using queue_with by blast
  have "ic_inv (n_io (fresh_off io))" using io(1) fresh_off_inv(4) by simp
  then obtain p where p: "ic_inv p" "ic_free p = [1..<IO_POOL_SIZE]"
  proof (cases rule: borrow_io_cases)
    case none
    then show ?thesis using io(2) pos(2) fresh_off_inv(4) by simp
  next
    case (some k ks p)
    then show ?thesis using io(2) pos(2) fresh_off_inv(4) upt_conv_Cons [of 0 IO_POOL_SIZE] by (intro that [of p]) simp_all
  qed
  define p' where "p' = p\<lparr>ic_pool := (ic_pool p)[0 := (ic_pool p ! 0)\<lparr>io_operationType := 0, io_packet := Some 0\<rparr>]\<rparr>"
  have p': "ic_inv p'" "ic_free p' = [1..<IO_POOL_SIZE]"
    using p pos(2) by (auto simp: p'_def ic_inv_def ic_free_def nth_list_update)
  have ctx: "io_operationType (ic_pool p' ! 0) = 0" "io_packet (ic_pool p' ! 0) = Some 0"
    using p(1) pos(2) by (simp_all add: p'_def ic_inv_def)
  have "\<forall>x \<in> set (mq_elems q). wi_packet x < PACKET_POOL_SIZE" by (simp add: q(2) pos(1))
  note B = busy_off_ok [OF p'(1) q(1) this]
  define st where "st = (busy_off p' q)\<lparr>n_spool := one_session, sm_sessions := [''u'' \<mapsto> Some 0], sm_socketToUserId := [7 \<mapsto> ''u'']\<rparr>"
  have dir: "sm_inv st" by (rule one_session_inv) (simp_all add: st_def)
  have ob: "outbox st ''u'' = ([0], True)" using B(2) q(2) by (simp add: st_def outbox_def)
  have inv: "off_inv st"
    using B(1) sm_invD(1) [OF dir] by (auto simp: off_inv_def net_inv_def st_def outbox_def sendable_def packet_at_def)
  have "\<not> bypassQueue (packet_at 0 st)"
    using pos(1) by (simp add: st_def busy_off_def fresh_off_def packet_at_def new_PacketPool_def new_packet_def)
  moreover have "getUserIdBySocket 7 st = ''u''" by (simp add: st_def getUserIdBySocket_def)
  moreover have "n_io st = p'" using B(3) by (simp add: st_def)
  ultimately show ?thesis
    using failed_send_blocks_outbox [OF inv ob, of 7 0 "\<lambda>_. True"] ob ctx dir p'(2) pos(2) by - (rule exI [of _ st], auto)
qed

end
