(* ===== verification/Server.thy ===== *)
theory Server
  imports Iocp
begin

text \<open>
  The server object: \<open>server/Server.cpp\<close>, \<open>main.cpp\<close> and \<open>initialize\<close> and \<open>shutdown\<close> of
  \<open>network/IOCPManager.cpp\<close>. What the system answers is the argument \<open>sys_env\<close>; the calls that open and
  close something, start or stop a worker are recorded in \<open>sv_calls\<close>.
\<close>

section \<open>State\<close>

datatype sys_call =
  WsaStartup | OpenSocket SOCKET | CloseSocket SOCKET | CreatePort | StartWorker | PostStop bool | JoinWorker | ClosePort | WsaCleanup

text \<open>\<open>sv_port\<close> says that \<open>iocpHandle\<close> is not null; \<open>sv_workers\<close> is the number of threads in \<open>workerThreads\<close>.\<close>

record server =
  sv_listenSocket :: SOCKET
  sv_port :: bool
  sv_numWorkerThreads :: int
  sv_workers :: nat
  sv_wsaInitialized :: bool
  sv_isShuttingDown :: bool
  sv_calls :: "sys_call list"

record sys_env =
  sy_startup :: bool
  sy_socket :: SOCKET
  sy_bind :: bool
  sy_listen :: bool
  sy_port :: bool
  sy_processors :: u32

definition sys :: "sys_call list \<Rightarrow> server \<Rightarrow> server" where
  "sys cs sv = sv\<lparr>sv_calls := sv_calls sv @ cs\<rparr>"

definition new_server :: server where
  "new_server = \<lparr>sv_listenSocket = INVALID_SOCKET, sv_port = False, sv_numWorkerThreads = 0, sv_workers = 0,
     sv_wsaInitialized = False, sv_isShuttingDown = False, sv_calls = []\<rparr>"

text \<open>The managers of a server that has just been constructed; the users of the table are known to the authentication manager.\<close>

definition new_managers :: "sodium \<Rightarrow> (byte \<Rightarrow> bool) \<Rightarrow> IOContextPool \<Rightarrow> AuthManager \<Rightarrow> SignUp \<Rightarrow> mr_state" where
  "new_managers S rb io am su =
     fresh_mr io (snd (LoadUsersFromDatabase S (getAllRecords rb (sg_db su)) am)) (su\<lparr>sg_router := True, sg_authManager := True\<rparr>)"

section \<open>Operations\<close>

definition worker_count :: "u32 \<Rightarrow> int" where
  "worker_count processors = (let n = sint (processors * 2) in if n < 2 then 2 else n)"

definition initialize :: "sys_env \<Rightarrow> server \<Rightarrow> bool \<times> server" where
  "initialize sy sv0 =
     (let s = sy_socket sy; sv = sv0\<lparr>sv_listenSocket := s\<rparr> in
      if s = INVALID_SOCKET then (False, sv)
      else let sv1 = sys [OpenSocket s] sv in
      if \<not> sy_bind sy then (False, sys [CloseSocket s] sv1)
      else if \<not> sy_listen sy then (False, sys [CloseSocket s] sv1)
      else if \<not> sy_port sy then (False, sys [CloseSocket s] (sv1\<lparr>sv_port := False\<rparr>))
      else let n = worker_count (sy_processors sy) in
        (True, sys (CreatePort # replicate (nat n) StartWorker)
           (sv1\<lparr>sv_port := True, sv_numWorkerThreads := n, sv_workers := sv_workers sv1 + nat n\<rparr>)))"

definition close_listen :: "server \<Rightarrow> server" where
  "close_listen sv =
     (if sv_listenSocket sv \<noteq> INVALID_SOCKET then (sys [CloseSocket (sv_listenSocket sv)] sv)\<lparr>sv_listenSocket := INVALID_SOCKET\<rparr> else sv)"

definition stop_workers :: "server \<Rightarrow> server" where
  "stop_workers sv =
     (sys (replicate (nat (sv_numWorkerThreads sv)) (PostStop (sv_port sv)) @ replicate (sv_workers sv) JoinWorker) sv)\<lparr>sv_workers := 0\<rparr>"

definition close_port :: "server \<Rightarrow> server" where
  "close_port sv = (if sv_port sv then (sys [ClosePort] sv)\<lparr>sv_port := False\<rparr> else sv)"

definition shutdown :: "server \<Rightarrow> server" where
  "shutdown sv = close_port (stop_workers (close_listen sv))"

definition server_stop :: "server \<Rightarrow> server" where
  "server_stop sv =
     (if sv_isShuttingDown sv then sv
      else let sv1 = shutdown (sv\<lparr>sv_isShuttingDown := True\<rparr>) in
        if sv_wsaInitialized sv1 then (sys [WsaCleanup] sv1)\<lparr>sv_wsaInitialized := False\<rparr> else sv1)"

text \<open>\<open>start\<close> returns when the accept loop ends.\<close>

definition server_start ::
  "sys_env \<Rightarrow> (nat \<Rightarrow> bool) \<Rightarrow> accept_result list \<Rightarrow> server \<Rightarrow> 'z sm_state_scheme \<Rightarrow> (bool \<times> server \<times> 'z sm_state_scheme) res" where
  "server_start sy wsa rs sv st =
     (if \<not> sy_startup sy then Inr (False, sv, st)
      else case initialize sy ((sys [WsaStartup] sv)\<lparr>sv_wsaInitialized := True\<rparr>) of (ok, sv1) \<Rightarrow>
        if \<not> ok then Inr (False, server_stop sv1, st)
        else bind_res (acceptLoop wsa rs st) (\<lambda>st1. Inr (True, sv1, st1)))"

text \<open>
  \<open>main\<close>, with the exit code. \<open>signalled\<close> is the number of a signal that arrived while the server was running;
  its handler stops the server and ends the process without destructors. Otherwise the destructor of
  \<open>IOCPManager\<close> runs at the end.
\<close>

definition server_main ::
  "sys_env \<Rightarrow> (nat \<Rightarrow> bool) \<Rightarrow> accept_result list \<Rightarrow> int option \<Rightarrow> 'z sm_state_scheme \<Rightarrow> (int \<times> server \<times> 'z sm_state_scheme) res" where
  "server_main sy wsa rs signalled st =
     bind_res (server_start sy wsa rs new_server st) (\<lambda>(ok, sv, st1).
       if \<not> ok then Inr (1, shutdown sv, st1)
       else case signalled of
              Some signum \<Rightarrow> Inr (signum, server_stop sv, st1)
            | None \<Rightarrow> Inr (0, shutdown (server_stop sv), st1))"

section \<open>What is opened is closed\<close>

lemmas lifecycle_defs = close_listen_def stop_workers_def close_port_def shutdown_def server_stop_def sys_def new_server_def Let_def

lemma worker_count_pos: "2 \<le> worker_count n"
  by (simp add: worker_count_def Let_def)

lemma count_replicate: "count_list (replicate n x) y = (if x = y then n else 0)"
  by (induction n) auto

lemma server_stop_once: "server_stop (server_stop sv) = server_stop sv"
  by (auto simp: lifecycle_defs)

text \<open>
  The calls of a run: a server that comes up opens and closes its socket and its port once and posts one signal
  to stop for each worker before it waits for the first of them, on a port that is still open. A server that
  fails to bind or to listen or to create its port closes the socket a second time, since
  \<open>initialize\<close> leaves the closed socket in \<open>listenSocket\<close>.
\<close>

lemma server_stop_calls:
  assumes "initialize sy (new_server\<lparr>sv_calls := [WsaStartup], sv_wsaInitialized := True\<rparr>) = (ok, sv)" "sy_socket sy \<noteq> INVALID_SOCKET"
  shows "sv_calls (server_stop sv) =
    (let n = nat (worker_count (sy_processors sy)); s = sy_socket sy in
     if ok then [WsaStartup, OpenSocket s, CreatePort] @ replicate n StartWorker @ [CloseSocket s] @
         replicate n (PostStop True) @ replicate n JoinWorker @ [ClosePort, WsaCleanup]
     else [WsaStartup, OpenSocket s, CloseSocket s, CloseSocket s, WsaCleanup])"
    and "sv_listenSocket (server_stop sv) = INVALID_SOCKET" "\<not> sv_port (server_stop sv)" "sv_workers (server_stop sv) = 0"
  using assms by (auto simp: initialize_def lifecycle_defs split: if_splits)

lemma server_main_closes:
  assumes "server_main sy wsa rs signalled st = Inr (code, sv, st')" "sy_startup sy" "sy_socket sy \<noteq> INVALID_SOCKET"
  shows "count_list (sv_calls sv) (CloseSocket (sy_socket sy)) = (if sy_bind sy \<and> sy_listen sy \<and> sy_port sy then 1 else 2)"
    and "count_list (sv_calls sv) ClosePort = count_list (sv_calls sv) CreatePort"
    and "count_list (sv_calls sv) JoinWorker = count_list (sv_calls sv) StartWorker"
    and "count_list (sv_calls sv) WsaCleanup = 1"
proof -
  obtain ok sv1 where i: "initialize sy (new_server\<lparr>sv_calls := [WsaStartup], sv_wsaInitialized := True\<rparr>) = (ok, sv1)"
    by (cases "initialize sy (new_server\<lparr>sv_calls := [WsaStartup], sv_wsaInitialized := True\<rparr>)")
  have ok: "ok = (sy_bind sy \<and> sy_listen sy \<and> sy_port sy)" using i assms(3) by (auto simp: initialize_def Let_def split: if_splits)
  have "(sys [WsaStartup] new_server)\<lparr>sv_wsaInitialized := True\<rparr> = new_server\<lparr>sv_calls := [WsaStartup], sv_wsaInitialized := True\<rparr>"
    by (simp add: sys_def new_server_def)
  then have sv: "sv = shutdown (server_stop sv1) \<or> ok \<and> sv = server_stop sv1"
    using assms(1,2) i by (auto simp: server_main_def server_start_def bind_res_Inr_iff split: if_splits option.splits)
  note c = server_stop_calls [OF i assms(3)]
  define n where "n = nat (sv_numWorkerThreads (server_stop sv1))"
  have again: "sv_calls (shutdown (server_stop sv1)) = sv_calls (server_stop sv1) @ replicate n (PostStop False)"
    using c(2-4) unfolding n_def shutdown_def [of "server_stop sv1"] by (simp add: close_listen_def stop_workers_def close_port_def sys_def)
  show "count_list (sv_calls sv) (CloseSocket (sy_socket sy)) = (if sy_bind sy \<and> sy_listen sy \<and> sy_port sy then 1 else 2)"
    "count_list (sv_calls sv) ClosePort = count_list (sv_calls sv) CreatePort"
    "count_list (sv_calls sv) JoinWorker = count_list (sv_calls sv) StartWorker"
    "count_list (sv_calls sv) WsaCleanup = 1"
    using sv by (auto simp: again c(1) ok count_replicate Let_def)
qed

end
