(* ===== verification/Client.thy ===== *)
theory Client
  imports Sign_Up "HOL-Library.Sublist"
begin

text \<open>
  The chat client, \<open>client/Client.cpp\<close> and \<open>client/main.cpp\<close>. The receive thread handles what the
  server sends; every upload has a thread of its own, modelled as a machine whose steps end where other
  threads may act. What the client sends is the stream \<open>cl_out\<close>, what it prints the list \<open>cl_shown\<close>.
\<close>

section \<open>State\<close>

record UploadState =
  cu_uploadId :: string
  cu_filepath :: string
  cu_receiver :: string
  cu_totalSize :: u64
  cu_currentRound :: u32
  cu_finalCrc :: u32
  cu_roundBuffer :: "bytes list"
  cu_roundOffsets :: "u64 list"
  cu_bytesWritten :: bool
  cu_startBytes :: u64
  cu_ackReceived :: bool
  cu_missingChunks :: "u32 list"

text \<open>A thread that runs \<open>uploadWorker\<close>, with its local variables \<open>bytesSent\<close> and \<open>chunksThisRound\<close>.\<close>

datatype upload_pc = UpStart | UpRound | UpAsk | UpArm | UpWait | UpDone

record upload_thread =
  ut_uploadId :: string
  ut_bytesSent :: u64
  ut_chunks :: nat
  ut_pc :: upload_pc

record DownloadState =
  cd_uploadId :: string
  cd_fileName :: string
  cd_totalSize :: u64
  cd_receivedOffset :: u64
  cd_currentRound :: u32
  cd_roundReceivedCount :: u32
  cd_finalCrc :: u32
  cd_roundBuffer :: "bytes list"
  cd_open :: bool

datatype notice =
  Private string string | GroupText string string string | Link string string u32 string string
| OtpVerified | AuthFailed string | FileError string | FileStatus string | Downloaded string | DownloadFailed string

record client =
  cl_isConnected :: bool
  cl_userId :: string
  cl_serverId :: bytes
  cl_streamBuffer :: bytes
  cl_messagesReceived :: nat
  cl_uploads :: "string \<rightharpoonup> UploadState"
  cl_threads :: "upload_thread list"
  cl_downloads :: "string \<rightharpoonup> DownloadState"
  cl_access :: bytes
  cl_refresh :: bytes
  cl_accessValid :: bool
  cl_refreshValid :: bool
  cl_files :: "string \<rightharpoonup> bytes"
  cl_out :: bytes
  cl_calls :: nat
  cl_shown :: "notice list"

text \<open>
  The surroundings: \<open>ce_send n len\<close> is the result of the \<open>n\<close>-th \<open>send\<close>, asked for \<open>len\<close> bytes;
  \<open>ce_header\<close> and \<open>ce_data\<close> are what a packet on the stack holds before it is filled; \<open>ce_user_file u\<close> is
  what writing the bytes of the string object itself leaves in a text file; \<open>ce_random\<close> are the bytes of
  a new upload id.
\<close>

record client_env =
  ce_send :: "nat \<Rightarrow> nat \<Rightarrow> int"
  ce_header :: PacketHeader
  ce_data :: bytes
  ce_clock :: u64
  ce_millis :: u64
  ce_can_open :: "string \<Rightarrow> bool"
  ce_user_file :: "string \<Rightarrow> bytes"
  ce_random :: bytes

definition new_client :: client where
  "new_client = \<lparr>cl_isConnected = False, cl_userId = [], cl_serverId = [], cl_streamBuffer = [], cl_messagesReceived = 0,
     cl_uploads = Map.empty, cl_threads = [], cl_downloads = Map.empty, cl_access = replicate sizeof_AccessToken 0,
     cl_refresh = replicate sizeof_RefreshToken 0, cl_accessValid = False, cl_refreshValid = False, cl_files = Map.empty,
     cl_out = [], cl_calls = 0, cl_shown = []\<rparr>"

definition stack_packet :: "client_env \<Rightarrow> Packet" where
  "stack_packet ev = new_packet (ce_header ev) (ce_data ev)"

definition show_notice :: "notice \<Rightarrow> client \<Rightarrow> client" where
  "show_notice x cl = cl\<lparr>cl_shown := cl_shown cl @ [x]\<rparr>"

section \<open>Connection and sending\<close>

text \<open>\<open>ok\<close> says whether the socket could be created and connected.\<close>

definition connectToServer :: "bool \<Rightarrow> client \<Rightarrow> bool \<times> client" where
  "connectToServer ok cl = (if ok then (True, cl\<lparr>cl_isConnected := True\<rparr>) else (False, cl))"

text \<open>The threads of the uploads are joined; nothing they still send goes out.\<close>

definition disconnect :: "client \<Rightarrow> client" where
  "disconnect cl = cl\<lparr>cl_isConnected := False, cl_uploads := Map.empty, cl_threads := []\<rparr>"

text \<open>The loop of \<open>sendRawPacket\<close>: reading past the array \<open>data\<close> is a fault.\<close>

function send_loop :: "client_env \<Rightarrow> bytes \<Rightarrow> nat \<Rightarrow> nat \<Rightarrow> client \<Rightarrow> (bool \<times> client) res" where
  "send_loop ev d totalSize totalSent cl =
     (if totalSize \<le> totalSent then Inr (True, cl)
      else bind_res (read_bytes totalSent (totalSize - totalSent) d) (\<lambda>bs.
        let sent = ce_send ev (cl_calls cl) (totalSize - totalSent); cl1 = cl\<lparr>cl_calls := Suc (cl_calls cl)\<rparr> in
        if sent \<le> 0 then Inr (False, cl1)
        else send_loop ev d totalSize (totalSent + nat sent) (cl1\<lparr>cl_out := cl_out cl1 @ take (nat sent) bs\<rparr>)))"
  by pat_completeness auto
termination by (relation "measure (\<lambda>(ev, d, n, k, cl). n - k)") auto

declare send_loop.simps [simp del]

text \<open>\<open>int totalSize\<close> is negative for the largest payload lengths; nothing is sent then.\<close>

definition sendRawPacket :: "client_env \<Rightarrow> Packet \<Rightarrow> client \<Rightarrow> (bool \<times> client) res" where
  "sendRawPacket ev p cl =
     (if \<not> cl_isConnected cl then Inr (False, cl)
      else let totalSize = sint (payload_length (header p) + 16) in
           if totalSize \<le> 0 then Inr (True, cl) else send_loop ev (data p) (nat totalSize) 0 cl)"

text \<open>A packet is put on the stack, filled, and sent whether or not the serializer has accepted its arguments.\<close>

definition send_new :: "client_env \<Rightarrow> (Packet \<Rightarrow> bool \<times> Packet) \<Rightarrow> client \<Rightarrow> (bool \<times> client) res" where
  "send_new ev fill = sendRawPacket ev (snd (fill (stack_packet ev)))"

fun send_each :: "client_env \<Rightarrow> (Packet \<Rightarrow> bool \<times> Packet) list \<Rightarrow> client \<Rightarrow> client res" where
  "send_each ev [] cl = Inr cl"
| "send_each ev (f # fs) cl = bind_res (send_new ev f cl) (\<lambda>(_, cl1). send_each ev fs cl1)"

section \<open>Authentication\<close>

definition requestOtp :: "client_env \<Rightarrow> string \<Rightarrow> client \<Rightarrow> (bool \<times> client) res" where
  "requestOtp ev email = send_new ev (serializeOtpRequest email)"

definition verifyOtp :: "client_env \<Rightarrow> string \<Rightarrow> string \<Rightarrow> client \<Rightarrow> (bool \<times> client) res" where
  "verifyOtp ev email otp = send_new ev (serializeOtpVerification email otp)"

definition signup :: "client_env \<Rightarrow> string \<Rightarrow> string \<Rightarrow> string \<Rightarrow> string \<Rightarrow> client \<Rightarrow> (bool \<times> client) res" where
  "signup ev email number username password = send_new ev (serializeSignup email number username password)"

definition login :: "client_env \<Rightarrow> string \<Rightarrow> string \<Rightarrow> client \<Rightarrow> (bool \<times> client) res" where
  "login ev identifier password = send_new ev (serializeLogin identifier password)"

definition isAccessTokenValid :: "u64 \<Rightarrow> client \<Rightarrow> bool" where
  "isAccessTokenValid now cl \<longleftrightarrow> cl_accessValid cl \<and> ap_expiry (dec_AccessTokenPayload (cl_access cl)) > now"

definition isRefreshTokenValid :: "u64 \<Rightarrow> client \<Rightarrow> bool" where
  "isRefreshTokenValid now cl \<longleftrightarrow> cl_refreshValid cl \<and> rp_expiry (dec_RefreshTokenPayload (cl_refresh cl)) > now"

definition try_token :: "client_env \<Rightarrow> bool \<Rightarrow> PacketType \<Rightarrow> bytes \<Rightarrow> client \<Rightarrow> (bool \<times> client) res" where
  "try_token ev valid type token cl =
     (if valid then send_new ev (serializeRaw type (bytes_str token)) cl else Inr (False, cl))"

definition reconnectWithToken :: "client_env \<Rightarrow> client \<Rightarrow> (bool \<times> client) res" where
  "reconnectWithToken ev cl =
     (let now = ce_clock ev in
      bind_res (try_token ev (isAccessTokenValid now cl) PKT_TOKEN (cl_access cl) cl) (\<lambda>(ok, cl1).
        if ok then Inr (True, cl1)
        else try_token ev (isRefreshTokenValid now cl1) PKT_REFRESH (cl_refresh cl1) cl1))"

text \<open>
  The files of the last session. The user id is read into the string's own storage, past its end where
  the string is shorter than sixteen characters.
\<close>

definition tokenBuildOnStartUp :: "client \<Rightarrow> (bool \<times> client) res" where
  "tokenBuildOnStartUp cl =
     (case cl_files cl ''userID.bin'' of
        None \<Rightarrow> Inr (False, cl)
      | Some u \<Rightarrow>
          if length u \<noteq> 16 then Inr (False, cl)
          else if length (cl_userId cl) < 16 then Inl OutOfBounds
          else
            let cl1 = cl\<lparr>cl_userId := bytes_str u @ drop 16 (cl_userId cl)\<rparr>;
                cl2 = (case cl_files cl1 ''accessToken.bin'' of
                         None \<Rightarrow> cl1
                       | Some t \<Rightarrow> if sizeof_AccessToken \<le> length t
                                   then cl1\<lparr>cl_access := take sizeof_AccessToken t, cl_accessValid := True\<rparr> else cl1)
            in case cl_files cl2 ''refreshToken.bin'' of
                 None \<Rightarrow> Inr (False, cl2)
               | Some t \<Rightarrow> if length t \<noteq> sizeof_RefreshToken then Inr (False, cl2)
                           else Inr (True, cl2\<lparr>cl_refresh := t, cl_refreshValid := True\<rparr>))"

section \<open>Messages\<close>

definition send_chat :: "client_env \<Rightarrow> PacketType \<Rightarrow> string \<Rightarrow> string \<Rightarrow> client \<Rightarrow> (bool \<times> client) res" where
  "send_chat ev type receiver message cl =
     send_new ev (serialize (ce_millis ev) type (hexToBytes (cl_userId cl)) (hexToBytes receiver) None [] message) cl"

definition sendPrivateMessage :: "client_env \<Rightarrow> string \<Rightarrow> string \<Rightarrow> client \<Rightarrow> (bool \<times> client) res" where
  "sendPrivateMessage ev receiver message = send_chat ev PKT_PRIVATE_MESSAGE receiver message"

definition sendGroupMessage :: "client_env \<Rightarrow> string \<Rightarrow> string \<Rightarrow> client \<Rightarrow> (bool \<times> client) res" where
  "sendGroupMessage ev groupId message = send_chat ev PKT_GROUP_MESSAGE groupId message"

definition client_createGroup :: "client_env \<Rightarrow> string \<Rightarrow> client \<Rightarrow> (bool \<times> client) res" where
  "client_createGroup ev groupId = send_chat ev PKT_CREATE_GROUP groupId []"

definition client_joinGroup :: "client_env \<Rightarrow> string \<Rightarrow> client \<Rightarrow> (bool \<times> client) res" where
  "client_joinGroup ev groupId = send_chat ev PKT_JOIN_GROUP groupId []"

definition client_leaveGroup :: "client_env \<Rightarrow> string \<Rightarrow> client \<Rightarrow> (bool \<times> client) res" where
  "client_leaveGroup ev groupId = send_chat ev PKT_LEAVE_GROUP groupId []"

section \<open>Uploads\<close>

definition set_upload :: "UploadState \<Rightarrow> client \<Rightarrow> client" where
  "set_upload us cl = cl\<lparr>cl_uploads := (cl_uploads cl)(cu_uploadId us \<mapsto> us)\<rparr>"

definition sendFile :: "client_env \<Rightarrow> string \<Rightarrow> string \<Rightarrow> client \<Rightarrow> (bool \<times> client) res" where
  "sendFile ev receiver filepath cl =
     (case cl_files cl filepath of
        None \<Rightarrow> Inr (False, cl)
      | Some content \<Rightarrow>
          if \<not> cl_isConnected cl then Inr (False, cl)
          else
            let us = \<lparr>cu_uploadId = bytesToHex (ce_random ev), cu_filepath = filepath, cu_receiver = receiver,
                   cu_totalSize = of_nat (length content), cu_currentRound = 0, cu_finalCrc = computeFileCRC (Some content),
                   cu_roundBuffer = replicate MAX_CHUNKS_PER_ROUND [], cu_roundOffsets = replicate MAX_CHUNKS_PER_ROUND 0,
                   cu_bytesWritten = False, cu_startBytes = 0, cu_ackReceived = False, cu_missingChunks = []\<rparr>
            in bind_res (send_new ev (serializeFileStart (hexToBytes receiver) (hexToBytes (cu_uploadId us))
                  (path_filename filepath) (cu_totalSize us) (cu_finalCrc us)) (set_upload us cl)) (\<lambda>(_, cl1).
                 Inr (True, cl1)))"

text \<open>The steps of \<open>uploadWorker\<close>. \<open>timeout\<close> says whether the time limit of a wait has passed.\<close>

definition uw_start :: "bool \<Rightarrow> UploadState \<Rightarrow> upload_thread \<Rightarrow> client \<Rightarrow> upload_thread \<times> client" where
  "uw_start timeout us t cl =
     (if cl_files cl (cu_filepath us) = None then (t\<lparr>ut_pc := UpDone\<rparr>, cl)
      else if \<not> cu_bytesWritten us then (if timeout then t\<lparr>ut_pc := UpDone\<rparr> else t, cl)
      else (t\<lparr>ut_bytesSent := cu_startBytes us, ut_pc := UpRound\<rparr>,
            set_upload (us\<lparr>cu_currentRound := of_nat (unat (cu_startBytes us) div (MAX_CHUNK_SIZE * MAX_CHUNKS_PER_ROUND))\<rparr>) cl))"

definition send_chunks :: "client_env \<Rightarrow> string \<Rightarrow> (u64 \<times> bytes) list \<Rightarrow> client \<Rightarrow> client res" where
  "send_chunks ev uploadId cs = send_each ev (map (\<lambda>(off, c). serializeFileChunk (hexToBytes uploadId) off c) cs)"

definition uw_end :: "client_env \<Rightarrow> UploadState \<Rightarrow> upload_thread \<Rightarrow> client \<Rightarrow> (upload_thread \<times> client) res" where
  "uw_end ev us t cl =
     bind_res (send_new ev (serializeFileEnd (hexToBytes (cu_uploadId us)) (cu_finalCrc us)) cl) (\<lambda>(_, cl1).
       Inr (t\<lparr>ut_pc := UpDone\<rparr>, cl1))"

definition uw_round :: "client_env \<Rightarrow> UploadState \<Rightarrow> upload_thread \<Rightarrow> client \<Rightarrow> (upload_thread \<times> client) res" where
  "uw_round ev us t cl =
     (if ut_bytesSent t < cu_totalSize us then
        let content = (case cl_files cl (cu_filepath us) of Some c \<Rightarrow> c | None \<Rightarrow> []);
            blocks = fill_round content (cu_totalSize us) MAX_CHUNKS_PER_ROUND (ut_bytesSent t);
            n = length blocks
        in if length (cu_roundOffsets us) < n then Inl OutOfBounds
           else
             let us1 = us\<lparr>cu_roundBuffer := map snd blocks @ replicate (MAX_CHUNKS_PER_ROUND - n) [],
                          cu_roundOffsets := map fst blocks @ drop n (cu_roundOffsets us)\<rparr>;
                 cl1 = set_upload us1 cl
             in if n = 0 then uw_end ev us1 t cl1
                else bind_res (send_chunks ev (cu_uploadId us) blocks cl1) (\<lambda>cl2.
                       Inr (t\<lparr>ut_bytesSent := ut_bytesSent t + of_nat (length (concat (map snd blocks))), ut_chunks := n, ut_pc := UpAsk\<rparr>, cl2))
      else uw_end ev us t cl)"

definition uw_ask :: "client_env \<Rightarrow> UploadState \<Rightarrow> upload_thread \<Rightarrow> client \<Rightarrow> (upload_thread \<times> client) res" where
  "uw_ask ev us t cl =
     bind_res (send_new ev (serializeRoundEnd (hexToBytes (cu_uploadId us)) (cu_currentRound us) (of_nat (ut_chunks t))) cl) (\<lambda>(_, cl1).
       Inr (t\<lparr>ut_pc := UpArm\<rparr>, cl1))"

definition uw_wait :: "client_env \<Rightarrow> bool \<Rightarrow> UploadState \<Rightarrow> upload_thread \<Rightarrow> client \<Rightarrow> (upload_thread \<times> client) res" where
  "uw_wait ev timeout us t cl =
     (if \<not> cu_ackReceived us then Inr (if timeout then t\<lparr>ut_pc := UpDone\<rparr> else t, cl)
      else if cu_missingChunks us = []
      then Inr (t\<lparr>ut_pc := UpRound\<rparr>, set_upload (us\<lparr>cu_currentRound := cu_currentRound us + 1\<rparr>) cl)
      else
        let idx = filter (\<lambda>i. i < ut_chunks t) (map unat (cu_missingChunks us)) in
        if \<exists>i \<in> set idx. length (cu_roundOffsets us) \<le> i \<or> length (cu_roundBuffer us) \<le> i then Inl OutOfBounds
        else bind_res (send_chunks ev (cu_uploadId us) (map (\<lambda>i. (cu_roundOffsets us ! i, cu_roundBuffer us ! i)) idx) cl) (\<lambda>cl1.
               Inr (t\<lparr>ut_pc := UpAsk\<rparr>, cl1)))"

definition uploadWorker :: "client_env \<Rightarrow> bool \<Rightarrow> upload_thread \<Rightarrow> client \<Rightarrow> (upload_thread \<times> client) res" where
  "uploadWorker ev timeout t cl =
     (case cl_uploads cl (ut_uploadId t) of
        None \<Rightarrow> Inr (t\<lparr>ut_pc := UpDone\<rparr>, cl)
      | Some us \<Rightarrow>
          (case ut_pc t of
             UpStart \<Rightarrow> Inr (uw_start timeout us t cl)
           | UpRound \<Rightarrow> uw_round ev us t cl
           | UpAsk \<Rightarrow> uw_ask ev us t cl
           | UpArm \<Rightarrow> Inr (t\<lparr>ut_pc := UpWait\<rparr>, set_upload (us\<lparr>cu_ackReceived := False\<rparr>) cl)
           | UpWait \<Rightarrow> uw_wait ev timeout us t cl
           | UpDone \<Rightarrow> Inr (t, cl)))"

text \<open>
  The response starts the thread. Where a thread of the upload is still running the receive thread then
  waits for that one; what it handles next it handles later, which the model leaves open anyway.
\<close>

definition HandleFileStartResponse :: "Packet \<Rightarrow> client \<Rightarrow> client" where
  "HandleFileStartResponse p cl =
     (let payload = dec_FileStartResponsePayload (getPayloadRaw p); upId = bytesToHex (fr_upload_id payload) in
      case cl_uploads cl upId of
        None \<Rightarrow> cl
      | Some us \<Rightarrow>
          (set_upload (us\<lparr>cu_startBytes := fr_resume_offset payload, cu_bytesWritten := True\<rparr>) cl)
          \<lparr>cl_threads := cl_threads cl @ [\<lparr>ut_uploadId = upId, ut_bytesSent = 0, ut_chunks = 0, ut_pc = UpStart\<rparr>]\<rparr>)"

definition handleFileAck :: "Packet \<Rightarrow> client \<Rightarrow> client res" where
  "handleFileAck p cl =
     (let payload = dec_FileAckPayload (getPayloadRaw p);
          upId = bytesToHex (fa_upload_id payload);
          n = unat (fa_missing_count payload)
      in bind_res (read_bytes (HEADER_SIZE + sizeof_FileAckPayload) (4 * n) (data p)) (\<lambda>bs.
           let missing = map (\<lambda>i. rd32 (drop (4 * i) bs)) [0..<n] in
           case cl_uploads cl upId of
             None \<Rightarrow> Inr cl
           | Some us \<Rightarrow>
               if fa_round_id payload \<noteq> cu_currentRound us then Inr cl
               else Inr (set_upload (us\<lparr>cu_missingChunks := missing, cu_ackReceived := True\<rparr>) cl)))"

section \<open>Downloads\<close>

definition downloadFile :: "client_env \<Rightarrow> string \<Rightarrow> client \<Rightarrow> (bool \<times> client) res" where
  "downloadFile ev uploadId cl =
     (if \<not> cl_isConnected cl then Inr (False, cl)
      else send_new ev (serializeDownloadReq (hexToBytes (cl_userId cl)) (hexToBytes uploadId) 0) cl)"

definition download_path :: "string \<Rightarrow> string" where
  "download_path fileName = ''./downloads/'' @ fileName"

definition set_download :: "string \<Rightarrow> DownloadState \<Rightarrow> client \<Rightarrow> client" where
  "set_download upId s cl = cl\<lparr>cl_downloads := (cl_downloads cl)(upId \<mapsto> s)\<rparr>"

text \<open>The file is opened for appending, which creates it; the download resumes at its end.\<close>

definition client_handleFileStart :: "client_env \<Rightarrow> Packet \<Rightarrow> client \<Rightarrow> client res" where
  "client_handleFileStart ev p cl =
     (let payload = dec_FileStartPayload (getPayloadRaw p); uploadId = bytesToHex (fs_upload_id payload) in
      bind_res (read_bytes (HEADER_SIZE + sizeof_FileStartPayload) (unat (fs_filename_len payload)) (data p)) (\<lambda>name.
        let fileName = sanitize (unat (ce_clock ev)) (bytes_str name);
            path = download_path fileName;
            content = (case cl_files cl path of Some c \<Rightarrow> c | None \<Rightarrow> []);
            opened = ce_can_open ev path;
            offset = (if opened then of_nat (length content) else 0) :: u64;
            s = \<lparr>cd_uploadId = uploadId, cd_fileName = fileName, cd_totalSize = fs_total_size payload, cd_receivedOffset = offset,
                 cd_currentRound = of_nat (unat offset div (MAX_CHUNK_SIZE * MAX_CHUNKS_PER_ROUND)), cd_roundReceivedCount = 0,
                 cd_finalCrc = fs_final_crc payload, cd_roundBuffer = replicate MAX_CHUNKS_PER_ROUND [], cd_open = opened\<rparr>
        in Inr (set_download uploadId s (if opened then cl\<lparr>cl_files := (cl_files cl)(path \<mapsto> content)\<rparr> else cl))))"

definition cd_store :: "u64 \<Rightarrow> bytes \<Rightarrow> DownloadState \<Rightarrow> DownloadState" where
  "cd_store byteOffset chunk s =
     (let i = (unat byteOffset div MAX_CHUNK_SIZE) mod MAX_CHUNKS_PER_ROUND in
      if length (cd_roundBuffer s) \<le> i then s
      else if cd_roundBuffer s ! i \<noteq> [] then s
      else s\<lparr>cd_roundBuffer := (cd_roundBuffer s)[i := chunk], cd_roundReceivedCount := cd_roundReceivedCount s + 1\<rparr>)"

definition client_handleFileChunk :: "Packet \<Rightarrow> client \<Rightarrow> client res" where
  "client_handleFileChunk p cl =
     (let payload = dec_FileChunkPayload (getPayloadRaw p); uploadId = bytesToHex (fc_upload_id payload) in
      bind_res (read_bytes (HEADER_SIZE + sizeof_FileChunkPayload) (unat (fc_chunk_size payload)) (data p)) (\<lambda>chunkData.
        case cl_downloads cl uploadId of
          None \<Rightarrow> Inr cl
        | Some s \<Rightarrow>
            if CRC32C_compute chunkData 0 \<noteq> fc_chunk_crc payload then Inr cl
            else Inr (set_download uploadId (cd_store (fc_byte_offset payload) chunkData s) cl)))"

definition client_writeRoundToDisk :: "DownloadState \<Rightarrow> client \<Rightarrow> DownloadState \<times> client" where
  "client_writeRoundToDisk s cl =
     (let written = concat (filter (\<lambda>c. c \<noteq> []) (cd_roundBuffer s));
          path = download_path (cd_fileName s);
          old = (case cl_files cl path of Some c \<Rightarrow> c | None \<Rightarrow> [])
      in (s\<lparr>cd_receivedOffset := cd_receivedOffset s + of_nat (length written)\<rparr>,
          if cd_open s then cl\<lparr>cl_files := (cl_files cl)(path \<mapsto> old @ written)\<rparr> else cl))"

definition sendRoundAck :: "client_env \<Rightarrow> string \<Rightarrow> u32 \<Rightarrow> u32 list \<Rightarrow> client \<Rightarrow> client res" where
  "sendRoundAck ev uploadId roundId missing cl =
     bind_res (send_new ev (serializeFileAck (hexToBytes uploadId) roundId missing) cl) (\<lambda>(_, cl1). Inr cl1)"

definition client_handleRoundEnd :: "client_env \<Rightarrow> Packet \<Rightarrow> client \<Rightarrow> client res" where
  "client_handleRoundEnd ev p cl =
     (let payload = dec_RoundEndPayload (getPayloadRaw p);
          uploadId = bytesToHex (re_upload_id payload);
          roundId = re_round_id payload
      in case cl_downloads cl uploadId of
           None \<Rightarrow> Inr cl
         | Some s \<Rightarrow>
             if roundId \<noteq> cd_currentRound s then sendRoundAck ev uploadId (cd_currentRound s) [] cl
             else bind_res (missing_chunks (unat (re_chunk_count payload)) (cd_roundBuffer s)) (\<lambda>missing.
               sendRoundAck ev uploadId roundId missing
                 (if missing = [] then
                    let (s1, cl1) = client_writeRoundToDisk s cl
                    in set_download uploadId (s1\<lparr>cd_roundReceivedCount := 0, cd_roundBuffer := replicate MAX_CHUNKS_PER_ROUND [],
                         cd_currentRound := cd_currentRound s1 + 1\<rparr>) cl1
                  else cl)))"

definition client_handleFileEnd :: "Packet \<Rightarrow> client \<Rightarrow> client" where
  "client_handleFileEnd p cl =
     (let payload = dec_FileEndPayload (getPayloadRaw p);
          uploadId = bytesToHex (fe_upload_id payload);
          finalCrc = fe_final_crc payload
      in case cl_downloads cl uploadId of
           None \<Rightarrow> cl
         | Some s \<Rightarrow>
             let success = (cd_receivedOffset s = cd_totalSize s \<and>
                   (finalCrc = 0 \<or> computeFileCRC (cl_files cl (download_path (cd_fileName s))) = finalCrc))
             in show_notice (if success then Downloaded (cd_fileName s) else DownloadFailed (cd_fileName s))
                  (cl\<lparr>cl_downloads := (cl_downloads cl)(uploadId := None)\<rparr>))"

section \<open>What the server sends\<close>

text \<open>A string of \<open>n\<close> bytes behind a struct of \<open>k\<close> bytes, read from the packet without a test of its length.\<close>

definition text_at :: "nat \<Rightarrow> nat \<Rightarrow> Packet \<Rightarrow> string res" where
  "text_at k n p = bind_res (read_bytes (HEADER_SIZE + k) n (data p)) (\<lambda>bs. Inr (bytes_str bs))"

definition handleUserIdPacket :: "client_env \<Rightarrow> Packet \<Rightarrow> client \<Rightarrow> client" where
  "handleUserIdPacket ev p cl =
     (let u = bytes_str (segment (HEADER_SIZE + 16) 16 (data p));
          cl1 = cl\<lparr>cl_serverId := segment HEADER_SIZE 16 (data p), cl_userId := u\<rparr>
      in if ce_can_open ev ''userID.bin'' then cl1\<lparr>cl_files := (cl_files cl1)(''userID.bin'' \<mapsto> ce_user_file ev u)\<rparr> else cl1)"

definition save_file :: "client_env \<Rightarrow> string \<Rightarrow> bytes \<Rightarrow> client \<Rightarrow> client" where
  "save_file ev path bs cl = (if ce_can_open ev path then cl\<lparr>cl_files := (cl_files cl)(path \<mapsto> bs)\<rparr> else cl)"

definition handleTokenGranted :: "client_env \<Rightarrow> Packet \<Rightarrow> client \<Rightarrow> client res" where
  "handleTokenGranted ev p0 cl =
     bind_res (parseData p0) (\<lambda>(_, p).
       let payload = dec_TokenGrantedPayload (getPayloadRaw p);
           accessLen = unat (tg_access_token_len payload);
           refreshLen = unat (tg_refresh_token_len payload)
       in if accessLen \<noteq> sizeof_AccessToken \<or> refreshLen \<noteq> sizeof_RefreshToken then Inr cl
          else
            let a = segment (HEADER_SIZE + sizeof_TokenGrantedPayload) accessLen (data p);
                r = segment (HEADER_SIZE + sizeof_TokenGrantedPayload + accessLen) refreshLen (data p)
            in Inr ((save_file ev ''refreshToken.bin'' r (save_file ev ''accessToken.bin'' a cl))
                 \<lparr>cl_access := a, cl_refresh := r, cl_refreshValid := True, cl_accessValid := True\<rparr>))"

definition string_payload :: "Packet \<Rightarrow> string res" where
  "string_payload p = text_at sizeof_StringPayload (unat (sp_str_len (dec_StringPayload (getPayloadRaw p)))) p"

definition handleAuthFail :: "Packet \<Rightarrow> client \<Rightarrow> client res" where
  "handleAuthFail p cl = bind_res (string_payload p) (\<lambda>msg. Inr (show_notice (AuthFailed msg) cl))"

definition HandleFileStatus :: "Packet \<Rightarrow> client \<Rightarrow> client res" where
  "HandleFileStatus p cl = bind_res (string_payload p) (\<lambda>msg. Inr (show_notice (FileStatus msg) cl))"

definition handleDownloadLink :: "Packet \<Rightarrow> client \<Rightarrow> client res" where
  "handleDownloadLink p cl =
     (let payload = dec_DownloadLinkPayload (getPayloadRaw p); n = unat (dl_filename_len payload) in
      bind_res (text_at sizeof_DownloadLinkPayload n p) (\<lambda>filename.
      bind_res (text_at (sizeof_DownloadLinkPayload + n) (unat (dl_timestamp_len payload)) p) (\<lambda>timestamp.
        Inr (show_notice (Link (bytesToHex (dl_sender_id payload)) (bytesToHex (dl_upload_id payload)) (dl_total_size payload)
               filename timestamp) cl))))"

definition chat_text :: "Packet \<Rightarrow> string res" where
  "chat_text p = (let payload = dec_ChatMessagePayload (getPayloadRaw p) in
     text_at (sizeof_ChatMessagePayload + unat (cm_username_len payload)) (unat (cm_text_len payload)) p)"

definition show_chat :: "bool \<Rightarrow> Packet \<Rightarrow> client \<Rightarrow> client res" where
  "show_chat grp p cl =
     (let payload = dec_ChatMessagePayload (getPayloadRaw p); sender = bytesToHex (cm_sender_id payload) in
      bind_res (chat_text p) (\<lambda>txt.
        if grp then Inr (show_notice (GroupText (bytesToHex (cm_receiver_id payload)) sender txt) cl)
        else Inr ((show_notice (Private sender txt) cl)\<lparr>cl_messagesReceived := cl_messagesReceived cl + 1\<rparr>)))"

definition handle_ack :: "Packet \<Rightarrow> client \<Rightarrow> client res" where
  "handle_ack p cl =
     bind_res (string_payload p) (\<lambda>msg.
       if sublist ''OTP Verified'' msg then Inr (show_notice OtpVerified cl)
       else bind_res (parseData p) (\<lambda>_. Inr cl))"

definition handleIncomingPacket :: "client_env \<Rightarrow> Packet \<Rightarrow> client \<Rightarrow> client res" where
  "handleIncomingPacket ev p cl =
     (case type_of_code (type_field (header p)) of
        None \<Rightarrow> Inr cl
      | Some t \<Rightarrow> (case t of
          PKT_USER_ID \<Rightarrow> Inr (handleUserIdPacket ev p cl)
        | PKT_PRIVATE_MESSAGE \<Rightarrow> show_chat False p cl
        | PKT_GROUP_MESSAGE \<Rightarrow> show_chat True p cl
        | DOWNLOAD_LINK \<Rightarrow> handleDownloadLink p cl
        | PKT_FILE_START \<Rightarrow> client_handleFileStart ev p cl
        | PKT_FILE_CHUNK \<Rightarrow> client_handleFileChunk p cl
        | PKT_ROUND_END \<Rightarrow> client_handleRoundEnd ev p cl
        | PKT_FILE_END \<Rightarrow> Inr (client_handleFileEnd p cl)
        | PKT_FILE_ACK \<Rightarrow> handleFileAck p cl
        | PKT_FILE_STATUS \<Rightarrow> HandleFileStatus p cl
        | FILE_START_RESPONSE \<Rightarrow> Inr (HandleFileStartResponse p cl)
        | PKT_ACKNOWLEDGMENT \<Rightarrow> handle_ack p cl
        | PKT_TOKEN_GRANTED \<Rightarrow> handleTokenGranted ev p cl
        | PKT_AUTH_FAIL \<Rightarrow> handleAuthFail p cl
        | PKT_SIGNUP_ERROR \<Rightarrow> handleAuthFail p cl
        | PKT_FILE_ERROR \<Rightarrow> bind_res (string_payload p) (\<lambda>msg. Inr (show_notice (FileError msg) cl))
        | _ \<Rightarrow> Inr cl))"

section \<open>The receive thread\<close>

text \<open>\<open>fuel\<close> bounds the turns of the inner loop.\<close>

fun client_loop :: "nat \<Rightarrow> client_env \<Rightarrow> client \<Rightarrow> client res" where
  "client_loop fuel ev cl =
     (let buf = cl_streamBuffer cl; skip = (\<lambda>k. cl\<lparr>cl_streamBuffer := drop k buf\<rparr>);
          again = (\<lambda>cl1. case fuel of 0 \<Rightarrow> Inl Diverges | Suc n \<Rightarrow> client_loop n ev cl1)
      in if length buf < HEADER_SIZE then Inr cl
         else if hd buf \<noteq> START_BYTE then again (skip 1)
         else
           let packetSize = unat (16 + rd32 (drop 4 buf)) in
           if length buf < packetSize \<or> DATA_SIZE < packetSize
           then Inr (if DATA_SIZE < packetSize then skip HEADER_SIZE else cl)
           else
             let p = stack_packet ev;
                 (parsed, p1) = parseHeader (p\<lparr>data := blit (data p) 0 (take packetSize buf), in_pos := packetSize\<rparr>)
             in bind_res (if parsed then parseData p1 else Inr (False, p1)) (\<lambda>(ok, p2).
                  if \<not> ok then again (skip packetSize)
                  else bind_res (handleIncomingPacket ev p2 (skip packetSize)) again))"

declare client_loop.simps [simp del]

text \<open>
  The thread over what \<open>recv\<close> returns, an empty list for an error or the end of the connection. One turn of the
  inner loop takes at least one byte unless it can go on for ever, so that the length of the buffer is fuel enough.
\<close>

fun receiveLoop :: "client_env \<Rightarrow> bytes list \<Rightarrow> client \<Rightarrow> client res" where
  "receiveLoop ev [] cl = Inr cl"
| "receiveLoop ev (bs # bss) cl =
     (if \<not> cl_isConnected cl then Inr cl
      else if bs = [] then Inr (cl\<lparr>cl_isConnected := False\<rparr>)
      else let cl1 = cl\<lparr>cl_streamBuffer := cl_streamBuffer cl @ bs\<rparr>
           in bind_res (client_loop (length (cl_streamBuffer cl1)) ev cl1) (receiveLoop ev bss))"

section \<open>The command line\<close>

text \<open>\<open>ss >> word\<close>: the next word and the rest of the line; the word is empty when there is none.\<close>

definition next_word :: "string \<Rightarrow> string \<times> string" where
  "next_word s = (let t = dropWhile isspace s in (takeWhile (\<lambda>c. \<not> isspace c) t, dropWhile (\<lambda>c. \<not> isspace c) t))"

text \<open>The rest of the line without the blank that separates it.\<close>

definition rest_text :: "string \<Rightarrow> string" where
  "rest_text s = (if s \<noteq> [] \<and> hd s = CHR '' '' then tl s else s)"

definition one_word :: "(string \<Rightarrow> client \<Rightarrow> (bool \<times> client) res) \<Rightarrow> string \<Rightarrow> client \<Rightarrow> client res" where
  "one_word f s cl = (let w = fst (next_word s) in
     if w \<noteq> [] then bind_res (f w cl) (\<lambda>(_, cl1). Inr cl1) else Inr cl)"

definition two_words :: "(string \<Rightarrow> string \<Rightarrow> client \<Rightarrow> (bool \<times> client) res) \<Rightarrow> string \<Rightarrow> client \<Rightarrow> client res" where
  "two_words f s cl = (let (w, s1) = next_word s; v = fst (next_word s1) in
     if w \<noteq> [] \<and> v \<noteq> [] then bind_res (f w v cl) (\<lambda>(_, cl1). Inr cl1) else Inr cl)"

definition word_and_text :: "(string \<Rightarrow> string \<Rightarrow> client \<Rightarrow> (bool \<times> client) res) \<Rightarrow> string \<Rightarrow> client \<Rightarrow> client res" where
  "word_and_text f s cl = (let (w, txt) = next_word s in
     if w \<noteq> [] \<and> txt \<noteq> [] then bind_res (f w (rest_text txt) cl) (\<lambda>(_, cl1). Inr cl1) else Inr cl)"

definition register_command :: "client_env \<Rightarrow> string \<Rightarrow> client \<Rightarrow> client res" where
  "register_command ev s cl =
     (let (email, s1) = next_word s; (number, s2) = next_word s1; (user, s3) = next_word s2; password = fst (next_word s3) in
      if email \<noteq> [] \<and> number \<noteq> [] \<and> user \<noteq> [] \<and> password \<noteq> []
      then bind_res (signup ev email number user password cl) (\<lambda>(_, cl1). Inr cl1) else Inr cl)"

definition run_command :: "client_env \<Rightarrow> string \<Rightarrow> client \<Rightarrow> client res" where
  "run_command ev line cl =
     (let (cmd, s) = next_word line in
      if cmd = ''/signup'' then one_word (requestOtp ev) s cl
      else if cmd = ''/verify'' then two_words (verifyOtp ev) s cl
      else if cmd = ''/register'' then register_command ev s cl
      else if cmd = ''/login'' then two_words (login ev) s cl
      else if cmd = ''/connect'' then bind_res (reconnectWithToken ev cl) (\<lambda>(_, cl1). Inr cl1)
      else if cmd = ''/msg'' then word_and_text (sendPrivateMessage ev) s cl
      else if cmd = ''/gmsg'' then word_and_text (sendGroupMessage ev) s cl
      else if cmd = ''/create'' then one_word (client_createGroup ev) s cl
      else if cmd = ''/join'' then one_word (client_joinGroup ev) s cl
      else if cmd = ''/leave'' then one_word (client_leaveGroup ev) s cl
      else if cmd = ''/sendfile'' then word_and_text (sendFile ev) s cl
      else if cmd = ''/download'' then one_word (downloadFile ev) s cl
      else Inr cl)"

text \<open>The lines typed, each handled in the surroundings of its time; \<open>/quit\<close> and the end of the input disconnect.\<close>

fun command_loop :: "(client_env \<times> string) list \<Rightarrow> client \<Rightarrow> client res" where
  "command_loop [] cl = Inr (disconnect cl)"
| "command_loop ((ev, line) # ls) cl =
     (if line = [] then command_loop ls cl
      else if fst (next_word line) = ''/quit'' then Inr (disconnect cl)
      else bind_res (run_command ev line cl) (command_loop ls))"

definition client_main :: "client_env \<Rightarrow> bool \<Rightarrow> (client_env \<times> string) list \<Rightarrow> client \<Rightarrow> client res" where
  "client_main ev ok ls cl =
     (let (connected, cl1) = connectToServer ok cl in
      if \<not> connected then Inr cl1
      else bind_res (tokenBuildOnStartUp cl1) (\<lambda>(found, cl2).
           bind_res (if found then reconnectWithToken ev cl2 else Inr (False, cl2)) (\<lambda>(_, cl3). command_loop ls cl3)))"

section \<open>Packets go out whole\<close>

text \<open>The system takes at least one byte, and no more than it is given.\<close>

definition sends_some :: "client_env \<Rightarrow> bool" where
  "sends_some ev \<longleftrightarrow> (\<forall>n len. 0 < len \<longrightarrow> 1 \<le> ce_send ev n len \<and> ce_send ev n len \<le> int len)"

lemma send_loop_ok:
  assumes "sends_some ev" "k \<le> n" "n \<le> length d"
  shows "\<exists>calls. send_loop ev d n k cl = Inr (True, cl\<lparr>cl_out := cl_out cl @ take (n - k) (drop k d), cl_calls := calls\<rparr>)"
  using assms(2)
proof (induction "n - k" arbitrary: k cl rule: less_induct)
  case less
  show ?case
  proof (cases "n = k")
    case True
    then show ?thesis by (intro exI [of _ "cl_calls cl"]) (subst send_loop.simps, simp)
  next
    case False
    define m where "m = nat (ce_send ev (cl_calls cl) (n - k))"
    have m: "0 < m" "m \<le> n - k" "\<not> ce_send ev (cl_calls cl) (n - k) \<le> 0"
    proof -
      have "1 \<le> ce_send ev (cl_calls cl) (n - k) \<and> ce_send ev (cl_calls cl) (n - k) \<le> int (n - k)"
        using assms(1) [unfolded sends_some_def, rule_format, of "n - k" "cl_calls cl"] less.prems False by linarith
      then show "0 < m" "m \<le> n - k" "\<not> ce_send ev (cl_calls cl) (n - k) \<le> 0" by (auto simp: m_def)
    qed
    let ?cl = "cl\<lparr>cl_calls := Suc (cl_calls cl), cl_out := cl_out cl @ take m (drop k d)\<rparr>"
    obtain calls where IH: "send_loop ev d n (k + m) ?cl =
        Inr (True, ?cl\<lparr>cl_out := cl_out ?cl @ take (n - (k + m)) (drop (k + m) d), cl_calls := calls\<rparr>)"
    proof -
      have "n - (k + m) < n - k" "k + m \<le> n" using m(1,2) by linarith+
      then show ?thesis using less.hyps [of "k + m" ?cl] that by blast
    qed
    have rd: "read_bytes k (n - k) d = Inr (take (n - k) (drop k d))"
      using assms(3) less.prems by (simp add: read_bytes_def segment_def)
    have "take m (drop k d) @ take (n - (k + m)) (drop (k + m) d) = take (n - k) (drop k d)"
    proof -
      have "m + (n - (k + m)) = n - k" using m(2) by linarith
      then show ?thesis using take_add [of m "n - (k + m)" "drop k d"] by (simp add: add.commute)
    qed
    moreover have "send_loop ev d n k cl = send_loop ev d n (k + m) ?cl"
      using False less.prems m(2,3) by (subst send_loop.simps) (simp add: rd Let_def m_def [symmetric] min_def)
    ultimately show ?thesis using IH by (intro exI [of _ calls]) simp
  qed
qed

lemma frame_size_int: "length payload \<le> 4080 \<Longrightarrow> sint (of_nat (length payload) + 16 :: u32) = 16 + int (length payload)"
proof -
  assume n: "length payload \<le> 4080"
  have "unat (of_nat (length payload) + 16 :: u32) = length payload + 16"
    using n by (simp add: unat_word_ariths unat_of_nat)
  then show ?thesis using n sint_small [of "of_nat (length payload) + 16"] by simp
qed

lemma send_new_frame:
  assumes "sends_some ev" "cl_isConnected cl" "emits type payload (stack_packet ev) (fill (stack_packet ev))"
  shows "\<exists>calls. send_new ev fill cl = Inr (True, cl\<lparr>cl_out := cl_out cl @ frame type payload, cl_calls := calls\<rparr>)"
proof -
  let ?p = "snd (fill (stack_packet ev))"
  have h: "holds_frame type payload ?p" "header ?p = frame_header type payload" using assms(3) by (simp_all add: emits_def)
  then have n: "length payload \<le> 4080" "length (data ?p) = 4096" "take (16 + length payload) (data ?p) = frame type payload"
    by (simp_all add: holds_frame_def packet_consts)
  have size: "sint (payload_length (header ?p) + 16) = 16 + int (length payload)"
    using frame_size_int [OF n(1)] by (simp add: h(2) frame_header_def)
  obtain calls where "send_loop ev (data ?p) (16 + length payload) 0 cl =
      Inr (True, cl\<lparr>cl_out := cl_out cl @ take (16 + length payload - 0) (drop 0 (data ?p)), cl_calls := calls\<rparr>)"
    using send_loop_ok [OF assms(1), of 0 "16 + length payload" "data ?p" cl] n(1,2) by auto
  then show ?thesis
    using assms(2) n(3) by (intro exI [of _ calls]) (simp add: send_new_def sendRawPacket_def size nat_add_distrib)
qed

lemma hexToBytes_length [simp]: "length (hexToBytes s) = 16"
proof -
  have "length (hex_pairs s) = length s div 2" by (induction s rule: hex_pairs.induct) simp_all
  then show ?thesis by (simp add: hexToBytes_def min_def)
qed

text \<open>The payload of a message as the client sends it: no number and no user name.\<close>

definition chat_payload :: "bytes \<Rightarrow> bytes \<Rightarrow> u64 \<Rightarrow> string \<Rightarrow> bytes" where
  "chat_payload sender receiver t txt = enc_ChatMessagePayload \<lparr>cm_sender_id = sender, cm_receiver_id = receiver, cm_timestamp = t,
     cm_message_number = 0, cm_username_len = 0, cm_text_len = of_nat (length txt)\<rparr> @ str_bytes txt"

text \<open>
  C15. What the user types is what goes over the wire: a private message of at most 4032 bytes is sent as one
  packet, complete and once, however the system splits the sending, with the sender's and the receiver's
  id and the text. A longer message is refused by the serializer, and the client then sends the packet
  as it found it on its stack, with whatever length and bytes are there.
\<close>

theorem private_message_sent:
  assumes "sends_some ev" "cl_isConnected cl" "length (ce_data ev) = DATA_SIZE"
  shows "if length message \<le> 4032
    then \<exists>calls. sendPrivateMessage ev receiver message cl = Inr (True, cl\<lparr>cl_out := cl_out cl @ frame PKT_PRIVATE_MESSAGE
        (chat_payload (hexToBytes (cl_userId cl)) (hexToBytes receiver) (ce_millis ev) message), cl_calls := calls\<rparr>)
    else sendPrivateMessage ev receiver message cl = sendRawPacket ev (stack_packet ev) cl"
proof -
  have wf: "wf_packet (stack_packet ev)" using assms(3) by (simp add: wf_packet_def stack_packet_def new_packet_def)
  show ?thesis
  proof (cases "length message \<le> 4032")
    case True
    let ?fill = "serialize (ce_millis ev) PKT_PRIVATE_MESSAGE (hexToBytes (cl_userId cl)) (hexToBytes receiver) None [] message"
    have "emits PKT_PRIVATE_MESSAGE (chat_payload (hexToBytes (cl_userId cl)) (hexToBytes receiver) (ce_millis ev) message)
      (stack_packet ev) (?fill (stack_packet ev))"
      using serialize_emits [OF wf, of "hexToBytes (cl_userId cl)" "hexToBytes receiver" "[]" message PKT_PRIVATE_MESSAGE "ce_millis ev" None] True
      by (simp add: str_bytes_def chat_payload_def)
    then show ?thesis
      using True send_new_frame [OF assms(1,2), where fill = ?fill] by (simp add: sendPrivateMessage_def send_chat_def)
  next
    case False
    then show ?thesis
      by (simp add: sendPrivateMessage_def send_chat_def send_new_def serialize_def resetWritePos_def stack_packet_def new_packet_def Let_def
          sizeof_ChatMessagePayload_def packet_consts)
  qed
qed

text \<open>A system that takes one byte at a time.\<close>

definition quiet_env :: client_env where
  "quiet_env = \<lparr>ce_send = \<lambda>n len. 1, ce_header = zero_header, ce_data = replicate DATA_SIZE 0, ce_clock = 0, ce_millis = 7,
     ce_can_open = \<lambda>_. True, ce_user_file = \<lambda>_. [], ce_random = []\<rparr>"

theorem private_message_sent_witness:
  "\<exists>calls. sendPrivateMessage quiet_env ''bob'' ''hi'' (new_client\<lparr>cl_isConnected := True\<rparr>) =
    Inr (True, new_client\<lparr>cl_isConnected := True, cl_out := frame PKT_PRIVATE_MESSAGE (chat_payload (hexToBytes []) (hexToBytes ''bob'') 7 ''hi''),
      cl_calls := calls\<rparr>)"
proof -
  have "sends_some quiet_env" by (auto simp: sends_some_def quiet_env_def)
  then show ?thesis
    using private_message_sent [of quiet_env "new_client\<lparr>cl_isConnected := True\<rparr>" "''hi''" "''bob''"] by (simp add: new_client_def quiet_env_def)
qed

section \<open>The receive loop\<close>

text \<open>A handler leaves the bytes that are still to be read alone, and ends.\<close>

definition tame :: "bytes \<Rightarrow> client res \<Rightarrow> bool" where
  "tame buf r \<longleftrightarrow> (case r of Inl e \<Rightarrow> e \<noteq> Diverges | Inr cl \<Rightarrow> cl_streamBuffer cl = buf)"

lemma tame_Inr [simp]: "tame buf (Inr cl) \<longleftrightarrow> cl_streamBuffer cl = buf"
  by (simp add: tame_def)

lemma tame_Inl [simp]: "tame buf (Inl e) \<longleftrightarrow> e \<noteq> Diverges"
  by (simp add: tame_def)

lemma tame_read [simp]: "(\<And>bs. tame buf (f bs)) \<Longrightarrow> tame buf (bind_res (read_bytes off n d) f)"
  by (simp add: read_bytes_def)

lemma tame_parse [simp]: "(\<And>r. tame buf (f r)) \<Longrightarrow> tame buf (bind_res (parseData p) f)"
  by (simp add: parseData_def read_bytes_def Let_def)

lemma tame_missing [simp]: "(\<And>ms. tame buf (f ms)) \<Longrightarrow> tame buf (bind_res (missing_chunks n b) f)"
  by (simp add: missing_chunks_def)

lemma tame_text [simp]: "(\<And>t. tame buf (f t)) \<Longrightarrow> tame buf (bind_res (text_at k n p) f)"
  by (simp add: text_at_def read_bytes_def)

lemma send_loop_tame: "tame (cl_streamBuffer cl) (bind_res (send_loop ev d n k cl) (\<lambda>(b, cl1). Inr cl1))"
proof (induction ev d n k cl rule: send_loop.induct)
  case (1 ev d n k cl)
  show ?case
  proof (cases "n \<le> k")
    case True
    then show ?thesis by (subst send_loop.simps) simp
  next
    case False
    let ?sent = "ce_send ev (cl_calls cl) (n - k)"
    show ?thesis
    proof (cases "k + (n - k) \<le> length d \<and> 0 < ?sent")
      case True
      then have "read_bytes k (n - k) d = Inr (segment k (n - k) d)" by (simp add: read_bytes_def)
      with "1.IH" [OF False refl refl, of "segment k (n - k) d"] True False show ?thesis
        by (subst send_loop.simps) (simp add: Let_def)
    next
      case no: False
      then show ?thesis using False by (subst send_loop.simps) (auto simp: read_bytes_def Let_def)
    qed
  qed
qed

lemma send_new_tame: "tame (cl_streamBuffer cl) (bind_res (send_new ev fill cl) (\<lambda>(b, cl1). Inr cl1))"
  using send_loop_tame by (simp add: send_new_def sendRawPacket_def Let_def)

lemma sendRoundAck_tame [simp]: "cl_streamBuffer cl = buf \<Longrightarrow> tame buf (sendRoundAck ev u r ms cl)"
  using send_new_tame [of cl ev "serializeFileAck (hexToBytes u) r ms"] by (simp add: sendRoundAck_def)

lemma state_tame [simp]:
  "cl_streamBuffer (show_notice x cl) = cl_streamBuffer cl" "cl_streamBuffer (set_upload us cl) = cl_streamBuffer cl"
  "cl_streamBuffer (set_download u s cl) = cl_streamBuffer cl" "cl_streamBuffer (save_file ev path bs cl) = cl_streamBuffer cl"
  by (simp_all add: show_notice_def set_upload_def set_download_def save_file_def)

lemma handleIncomingPacket_tame: "tame (cl_streamBuffer cl) (handleIncomingPacket ev p cl)"
proof -
  have 1: "tame (cl_streamBuffer cl) (show_chat b p cl)" for b by (simp add: show_chat_def chat_text_def Let_def)
  have 2: "tame (cl_streamBuffer cl) (handleDownloadLink p cl)" "tame (cl_streamBuffer cl) (handleAuthFail p cl)" "tame (cl_streamBuffer cl) (HandleFileStatus p cl)"
    "tame (cl_streamBuffer cl) (handle_ack p cl)" "tame (cl_streamBuffer cl) (bind_res (string_payload p) (\<lambda>msg. Inr (show_notice (FileError msg) cl)))"
    by (simp_all add: handleDownloadLink_def handleAuthFail_def HandleFileStatus_def handle_ack_def string_payload_def Let_def)
  have 3: "tame (cl_streamBuffer cl) (client_handleFileStart ev p cl)" "tame (cl_streamBuffer cl) (client_handleFileChunk p cl)" "tame (cl_streamBuffer cl) (handleFileAck p cl)"
    by (simp_all add: client_handleFileStart_def client_handleFileChunk_def handleFileAck_def Let_def split: option.split)
  have 4: "tame (cl_streamBuffer cl) (client_handleRoundEnd ev p cl)"
    by (simp add: client_handleRoundEnd_def client_writeRoundToDisk_def Let_def split: option.split)
  have 5: "tame (cl_streamBuffer cl) (handleTokenGranted ev p cl)"
    by (simp add: handleTokenGranted_def Let_def split: prod.split)
  have 6: "cl_streamBuffer (client_handleFileEnd p cl) = cl_streamBuffer cl" "cl_streamBuffer (HandleFileStartResponse p cl) = cl_streamBuffer cl"
    "cl_streamBuffer (handleUserIdPacket ev p cl) = cl_streamBuffer cl"
    by (simp_all add: client_handleFileEnd_def HandleFileStartResponse_def handleUserIdPacket_def Let_def split: option.split)
  show ?thesis
    unfolding handleIncomingPacket_def using 1 2 3 4 5 6 by (simp split: option.split PacketType.split)
qed

text \<open>A header whose length makes the size of the packet zero.\<close>

definition stuck_at :: "bytes \<Rightarrow> bool" where
  "stuck_at buf \<longleftrightarrow> HEADER_SIZE \<le> length buf \<and> hd buf = START_BYTE \<and> rd32 (drop 4 buf) = 0xFFFFFFF0"

lemma client_loop_unfold:
  "client_loop (Suc n) ev cl =
     (let buf = cl_streamBuffer cl; skip = (\<lambda>k. cl\<lparr>cl_streamBuffer := drop k buf\<rparr>) in
      if length buf < HEADER_SIZE then Inr cl
      else if hd buf \<noteq> START_BYTE then client_loop n ev (skip 1)
      else
        let packetSize = unat (16 + rd32 (drop 4 buf)) in
        if length buf < packetSize \<or> DATA_SIZE < packetSize
        then Inr (if DATA_SIZE < packetSize then skip HEADER_SIZE else cl)
        else
          let p = stack_packet ev;
              (parsed, p1) = parseHeader (p\<lparr>data := blit (data p) 0 (take packetSize buf), in_pos := packetSize\<rparr>)
          in bind_res (if parsed then parseData p1 else Inr (False, p1)) (\<lambda>(ok, p2).
               if \<not> ok then client_loop n ev (skip packetSize)
               else bind_res (handleIncomingPacket ev p2 (skip packetSize)) (client_loop n ev)))"
  by (subst client_loop.simps) (simp add: Let_def)

lemma stuck_loop: "stuck_at (cl_streamBuffer cl) \<Longrightarrow> client_loop fuel ev cl = Inl Diverges"
proof (induction fuel)
  case 0
  then show ?case
    by (subst client_loop.simps) (simp add: stuck_at_def Let_def stack_packet_def parseHeader_def bytesReceived_def HEADER_SIZE_def)
next
  case (Suc n)
  then show ?case
    by (subst client_loop_unfold) (simp add: stuck_at_def Let_def stack_packet_def parseHeader_def bytesReceived_def HEADER_SIZE_def)
qed

lemma packet_size_zero: "unat (16 + w :: u32) = 0 \<longleftrightarrow> w = 0xFFFFFFF0"
proof -
  have "16 + w = 0 \<longleftrightarrow> w = - 16" by (metis add.commute add_eq_0_iff)
  moreover have "(- 16 :: u32) = 0xFFFFFFF0" by code_simp
  ultimately show ?thesis by (simp add: unat_eq_0)
qed

lemma tame_again:
  assumes "tame buf r" "\<And>cl. cl_streamBuffer cl = buf \<Longrightarrow> f cl \<noteq> Inl Diverges"
  shows "bind_res r f \<noteq> Inl Diverges"
  using assms by (cases r) simp_all

lemma client_loop_ends:
  assumes "length (cl_streamBuffer cl) \<le> fuel" "\<forall>k. \<not> stuck_at (drop k (cl_streamBuffer cl))"
  shows "client_loop fuel ev cl \<noteq> Inl Diverges"
  using assms
proof (induction fuel arbitrary: cl)
  case 0
  then show ?case by (subst client_loop.simps) (simp add: HEADER_SIZE_def)
next
  case (Suc n)
  let ?buf = "cl_streamBuffer cl"
  define size where "size = unat (16 + rd32 (drop 4 ?buf))"
  have IH: "client_loop n ev cl1 \<noteq> Inl Diverges" if "cl_streamBuffer cl1 = drop (Suc j) ?buf" for cl1 j
    using Suc.IH [of cl1] Suc.prems that by simp
  show ?case
  proof (cases "length ?buf < HEADER_SIZE \<or> hd ?buf \<noteq> START_BYTE \<or> length ?buf < size \<or> DATA_SIZE < size")
    case True
    then show ?thesis using IH [of _ 0] by (subst client_loop_unfold) (auto simp: Let_def size_def)
  next
    case False
    then have "size \<noteq> 0" using Suc.prems(2) [rule_format, of 0] packet_size_zero by (auto simp: stuck_at_def size_def)
    then obtain j where j: "size = Suc j" by (cases size) auto
    let ?cl = "cl\<lparr>cl_streamBuffer := drop size ?buf\<rparr>"
    have "bind_res (handleIncomingPacket ev p ?cl) (client_loop n ev) \<noteq> Inl Diverges" for p
      by (rule tame_again [OF handleIncomingPacket_tame]) (use IH [of _ j] j in simp)
    moreover have "client_loop n ev ?cl \<noteq> Inl Diverges" using IH [of ?cl j] j by simp
    moreover have "parseData p \<noteq> Inl Diverges" for p by (simp add: parseData_def read_bytes_def Let_def)
    ultimately have B: "bind_res (if b then parseData p else Inr (False, p)) (\<lambda>(ok, p2).
        if \<not> ok then client_loop n ev ?cl else bind_res (handleIncomingPacket ev p2 ?cl) (client_loop n ev)) \<noteq> Inl Diverges" for b p
      by (cases "parseData p") (auto split: prod.split)
    obtain b p1 where "parseHeader ((stack_packet ev)\<lparr>data := blit (data (stack_packet ev)) 0 (take size ?buf), in_pos := size\<rparr>) = (b, p1)"
      by fastforce
    then show ?thesis using False B [of b p1] by (subst client_loop_unfold) (simp add: Let_def size_def [symmetric] del: if_split)
  qed
qed

text \<open>
  C29. The receive loop of the client ends, after at most as many turns as there are bytes in its buffer and
  whatever the bytes are, unless it meets a header with the payload length 0xFFFFFFF0. For that one the
  size of the packet is computed as zero, nothing is taken from the buffer, and the loop goes on for ever.
\<close>

theorem client_loop_ends_unless_stuck:
  "(stuck_at (cl_streamBuffer cl) \<longrightarrow> (\<forall>fuel. client_loop fuel ev cl = Inl Diverges)) \<and>
   ((\<forall>k. \<not> stuck_at (drop k (cl_streamBuffer cl))) \<longrightarrow> client_loop (length (cl_streamBuffer cl)) ev cl \<noteq> Inl Diverges)"
  using stuck_loop client_loop_ends by blast

theorem client_loop_ends_unless_stuck_witness:
  "client_loop 100 undefined (new_client\<lparr>cl_streamBuffer := [0xD5, 1, 0, 3, 0xFF, 0xFF, 0xFF, 0xF0, 0, 0, 0, 0, 0, 0, 0, 0]\<rparr>) = Inl Diverges \<and>
   client_loop 3 undefined (new_client\<lparr>cl_streamBuffer := [0xD5, 1, 0]\<rparr>) \<noteq> Inl Diverges"
proof -
  let ?buf = "[0xD5, 1, 0, 3, 0xFF, 0xFF, 0xFF, 0xF0, 0, 0, 0, 0, 0, 0, 0, 0]"
  have "stuck_at ?buf" by (simp add: stuck_at_def packet_consts drop_Cons')
  moreover have "\<forall>k. \<not> stuck_at (drop k [0xD5, 1, 0])" by (simp add: stuck_at_def HEADER_SIZE_def)
  ultimately show ?thesis
    using client_loop_ends_unless_stuck [of "new_client\<lparr>cl_streamBuffer := ?buf\<rparr>"]
      client_loop_ends_unless_stuck [of "new_client\<lparr>cl_streamBuffer := [0xD5, 1, 0]\<rparr>" undefined]
    by (simp add: numeral_3_eq_3)
qed

section \<open>Messages that arrive\<close>

lemma frame_start:
  assumes "length payload \<le> 4080"
  shows "hd (frame type payload @ rest) = START_BYTE" "unat (16 + rd32 (drop 4 (frame type payload @ rest))) = 16 + length payload"
proof -
  have "magic (decode_header (frame type payload @ rest)) = START_BYTE"
    "payload_length (decode_header (frame type payload @ rest)) = of_nat (length payload)"
    by (simp_all add: decode_frame frame_header_def)
  then show "hd (frame type payload @ rest) = START_BYTE" "unat (16 + rd32 (drop 4 (frame type payload @ rest))) = 16 + length payload"
    using assms by (simp_all add: decode_header_def unat_word_ariths unat_of_nat)
qed

lemma client_loop_frame:
  assumes d: "length (ce_data ev) = DATA_SIZE" and n: "length payload \<le> 4080" and buf: "cl_streamBuffer cl = frame type payload @ rest"
  shows "\<exists>p. holds_frame type payload p \<and> header p = frame_header type payload \<and>
    client_loop (Suc fuel) ev cl = bind_res (handleIncomingPacket ev p (cl\<lparr>cl_streamBuffer := rest\<rparr>)) (client_loop fuel ev)"
proof -
  define p where "p = (stack_packet ev)\<lparr>data := blit (data (stack_packet ev)) 0 (take (16 + length payload) (cl_streamBuffer cl)), in_pos := 16 + length payload\<rparr>"
  have "take (16 + length payload) (cl_streamBuffer cl) = frame type payload" by (simp add: buf HEADER_SIZE_def)
  then have p: "holds_frame type payload p"
    using d n by (simp add: p_def holds_frame_def stack_packet_def new_packet_def blit_def packet_consts)
  note P = parse_frame [OF p]
  let ?p = "p\<lparr>header := frame_header type payload, parsedHeader := True, parsedData := True\<rparr>"
  have "holds_frame type payload ?p" using p by (simp add: holds_frame_def)
  moreover have A: "\<not> length (cl_streamBuffer cl) < HEADER_SIZE" "hd (cl_streamBuffer cl) = START_BYTE"
    "unat (16 + rd32 (drop 4 (cl_streamBuffer cl))) = 16 + length payload" "\<not> length (cl_streamBuffer cl) < 16 + length payload"
    "\<not> DATA_SIZE < 16 + length payload" "drop (16 + length payload) (cl_streamBuffer cl) = rest"
    unfolding buf using frame_start [OF n, of type rest] n by (simp_all add: packet_consts)
  have "client_loop (Suc fuel) ev cl = bind_res (handleIncomingPacket ev ?p (cl\<lparr>cl_streamBuffer := rest\<rparr>)) (client_loop fuel ev)"
    by (subst client_loop_unfold) (simp add: Let_def A p_def [symmetric] P del: if_split)
  ultimately show ?thesis by (intro exI [of _ ?p]) simp
qed

lemma chat_payload_frame:
  assumes "holds_frame type (chat_payload sender receiver t txt) p" "length sender = 16" "length receiver = 16"
  shows "dec_ChatMessagePayload (getPayloadRaw p) = \<lparr>cm_sender_id = sender, cm_receiver_id = receiver, cm_timestamp = t, cm_message_number = 0,
      cm_username_len = 0, cm_text_len = of_nat (length txt)\<rparr>"
    and "read_bytes (HEADER_SIZE + sizeof_ChatMessagePayload) (length txt) (data p) = Inr (str_bytes txt)"
proof -
  let ?m = "\<lparr>cm_sender_id = sender, cm_receiver_id = receiver, cm_timestamp = t, cm_message_number = 0, cm_username_len = 0,
     cm_text_len = of_nat (length txt)\<rparr> :: ChatMessagePayload"
  obtain rest where raw: "getPayloadRaw p = enc_ChatMessagePayload ?m @ str_bytes txt @ rest"
    using holds_frame_payload [OF assms(1)] by (auto simp: chat_payload_def)
  have wf: "wf_ChatMessagePayload ?m" using assms(2,3) by (simp add: wf_ChatMessagePayload_def)
  show "dec_ChatMessagePayload (getPayloadRaw p) = ?m" unfolding raw using cm_struct.dec_enc [OF wf] by simp
  have len: "length (enc_ChatMessagePayload ?m) = sizeof_ChatMessagePayload" using cm_struct.enc_length [OF wf] .
  have "drop (HEADER_SIZE + sizeof_ChatMessagePayload) (data p) = drop sizeof_ChatMessagePayload (getPayloadRaw p)"
    by (simp add: getPayloadRaw_def add.commute)
  then have "segment (HEADER_SIZE + sizeof_ChatMessagePayload) (length txt) (data p) = str_bytes txt"
    using raw len by (simp add: segment_def)
  moreover have "length (data p) = DATA_SIZE" "HEADER_SIZE + length (chat_payload sender receiver t txt) \<le> DATA_SIZE"
    using assms(1) by (simp_all add: holds_frame_def)
  ultimately show "read_bytes (HEADER_SIZE + sizeof_ChatMessagePayload) (length txt) (data p) = Inr (str_bytes txt)"
    using len by (simp add: read_bytes_def chat_payload_def)
qed

lemma show_chat_frame:
  assumes "holds_frame type (chat_payload sender receiver t txt) p" "length sender = 16" "length receiver = 16" "length txt \<le> 4032"
  shows "show_chat False p cl = Inr ((show_notice (Private (bytesToHex sender) txt) cl)\<lparr>cl_messagesReceived := cl_messagesReceived cl + 1\<rparr>)"
  using chat_payload_frame [OF assms(1-3)] assms(4)
  by (simp add: show_chat_def chat_text_def text_at_def Let_def unat_of_nat_u16)

lemma rd32_take: "4 \<le> m \<Longrightarrow> rd32 (take m xs) = rd32 xs"
  by (cases xs rule: rd32.cases) (auto simp: take_Cons' eval_nat_numeral)

lemma client_loop_short: "length (cl_streamBuffer cl) < HEADER_SIZE \<Longrightarrow> client_loop fuel ev cl = Inr cl"
  by (subst client_loop.simps) simp

lemma client_loop_waits:
  assumes n: "length payload \<le> 4080" and k: "k < 16 + length payload" and buf: "cl_streamBuffer cl = take k (frame type payload)"
  shows "client_loop fuel ev cl = Inr cl"
proof (cases "k < 16")
  case True
  then show ?thesis using buf by (intro client_loop_short) (simp add: HEADER_SIZE_def)
next
  case False
  have len: "length (cl_streamBuffer cl) = k" using buf k by (simp add: HEADER_SIZE_def)
  have "rd32 (drop 4 (cl_streamBuffer cl)) = rd32 (drop 4 (frame type payload))"
    using False rd32_take [of "k - 4" "drop 4 (frame type payload)"] by (simp add: buf drop_take)
  then have size: "unat (16 + rd32 (drop 4 (cl_streamBuffer cl))) = 16 + length payload"
    using frame_start(2) [OF n, of type "[]"] by simp
  have "hd (cl_streamBuffer cl) = START_BYTE"
    using frame_start(1) [OF n, of type "[]"] False by (simp add: buf hd_take)
  then show ?thesis using len size k n by (subst client_loop.simps) (simp add: Let_def packet_consts)
qed

lemma receiveLoop_append: "receiveLoop ev (xs @ ys) cl = bind_res (receiveLoop ev xs cl) (receiveLoop ev ys)"
proof (induction xs arbitrary: cl)
  case (Cons x xs)
  have stop: "receiveLoop ev ys cl1 = Inr cl1" if "\<not> cl_isConnected cl1" for cl1 using that by (cases ys) simp_all
  have assoc: "bind_res (bind_res r f) g = bind_res r (\<lambda>x. bind_res (f x) g)" for r :: "client res" and f g :: "client \<Rightarrow> client res"
    by (cases r) simp_all
  have "receiveLoop ev (xs @ ys) = (\<lambda>x. bind_res (receiveLoop ev xs x) (receiveLoop ev ys))" using Cons.IH by (rule ext)
  then show ?case using stop by (simp add: Let_def assoc)
qed simp

lemma receiveLoop_waits:
  assumes n: "length payload \<le> 4080" and k: "k < 16 + length payload" and con: "cl_isConnected cl" and ps: "\<forall>b \<in> set ps. b \<noteq> []"
    and eq: "cl_streamBuffer cl @ concat ps = take k (frame type payload)"
  shows "receiveLoop ev ps cl = Inr (cl\<lparr>cl_streamBuffer := take k (frame type payload)\<rparr>)"
  using con ps eq
proof (induction ps arbitrary: cl)
  case Nil
  then show ?case by (cases cl) simp
next
  case (Cons b ps)
  let ?cl = "cl\<lparr>cl_streamBuffer := cl_streamBuffer cl @ b\<rparr>"
  let ?m = "min (length (cl_streamBuffer cl @ b)) k"
  have "(cl_streamBuffer cl @ b) @ concat ps = take k (frame type payload)" using Cons.prems(3) by simp
  then have "cl_streamBuffer cl @ b = take (length (cl_streamBuffer cl @ b)) (take k (frame type payload))" by (metis append_eq_conv_conj)
  then have "cl_streamBuffer cl @ b = take ?m (frame type payload)" unfolding take_take .
  moreover have "cl_streamBuffer ?cl = cl_streamBuffer cl @ b" by simp
  moreover have "?m < 16 + length payload" using k by simp
  ultimately have "client_loop fuel ev ?cl = Inr ?cl" for fuel using client_loop_waits [OF n, of ?m ?cl type fuel ev] by metis
  then show ?case using Cons.IH [of ?cl] Cons.prems by simp
qed

text \<open>
  C16. A client shows a private message exactly when it has arrived whole. However the connection cuts the
  packet into pieces, once all bytes are there the sender and the text are shown, the message is
  counted and nothing is left in the buffer. As long as bytes are missing nothing is shown and the
  client waits.
\<close>

theorem message_shown_when_whole:
  assumes d: "length (ce_data ev) = DATA_SIZE" and ids: "length sender = 16" "length receiver = 16" and fits: "length txt \<le> 4032"
    and f: "f = frame PKT_PRIVATE_MESSAGE (chat_payload sender receiver t txt)"
    and cl: "cl_isConnected cl" "cl_streamBuffer cl = []" and ps: "\<forall>b \<in> set ps. b \<noteq> []" and bytes: "concat ps = take k f"
  shows "receiveLoop ev ps cl =
    (if length f \<le> k then Inr (cl\<lparr>cl_shown := cl_shown cl @ [Private (bytesToHex sender) txt], cl_messagesReceived := cl_messagesReceived cl + 1\<rparr>)
     else Inr (cl\<lparr>cl_streamBuffer := take k f\<rparr>))"
proof -
  let ?pl = "chat_payload sender receiver t txt"
  have n: "length ?pl \<le> 4080" using fits ids by (simp add: chat_payload_def enc_lengths wf_struct_defs sizeof_defs)
  have len: "length f = 16 + length ?pl" by (simp add: f HEADER_SIZE_def)
  show ?thesis
  proof (cases "length f \<le> k")
    case False
    then show ?thesis using receiveLoop_waits [OF n _ cl(1) ps, of k PKT_PRIVATE_MESSAGE ev] bytes cl(2) len by (simp add: f)
  next
    case True
    then have all: "concat ps = f" using bytes by simp
    then have "ps \<noteq> []" using len by auto
    then obtain qs l where ps': "ps = qs @ [l]" by (metis rev_exhaust)
    have l: "l \<noteq> []" "concat qs @ l = f" using ps ps' all by auto
    define j where "j = length (concat qs)"
    have j: "concat qs = take j f" "j < 16 + length ?pl"
      using l(2) len arg_cong [OF l(2), of length] l(1) by (auto simp: j_def simp flip: length_greater_0_conv)
    have 1: "receiveLoop ev qs cl = Inr (cl\<lparr>cl_streamBuffer := take j f\<rparr>)"
      using receiveLoop_waits [OF n j(2) cl(1), of qs PKT_PRIVATE_MESSAGE ev] ps ps' j(1) cl(2) by (simp add: f)
    let ?cl = "cl\<lparr>cl_streamBuffer := f\<rparr>"
    obtain m where m: "length f = Suc m" using len by (cases "length f") auto
    obtain p where p: "holds_frame PKT_PRIVATE_MESSAGE ?pl p" "header p = frame_header PKT_PRIVATE_MESSAGE ?pl"
      "client_loop (Suc m) ev ?cl = bind_res (handleIncomingPacket ev p (?cl\<lparr>cl_streamBuffer := []\<rparr>)) (client_loop m ev)"
      using client_loop_frame [OF d n, of ?cl PKT_PRIVATE_MESSAGE "[]" m] f by auto
    have "handleIncomingPacket ev p cl2 = show_chat False p cl2" for cl2 by (simp add: handleIncomingPacket_def p(2) frame_header_def)
    then have "client_loop (length f) ev ?cl = Inr (cl\<lparr>cl_shown := cl_shown cl @ [Private (bytesToHex sender) txt], cl_messagesReceived := cl_messagesReceived cl + 1\<rparr>)"
      using p(3) show_chat_frame [OF p(1) ids fits] cl(2) client_loop_short [of _ m ev] by (cases cl) (simp add: m show_notice_def HEADER_SIZE_def)
    moreover have "take j f @ l = f" using l(2) j(1) by simp
    ultimately have "receiveLoop ev [l] (cl\<lparr>cl_streamBuffer := take j f\<rparr>) = Inr (cl\<lparr>cl_shown := cl_shown cl @ [Private (bytesToHex sender) txt],
        cl_messagesReceived := cl_messagesReceived cl + 1\<rparr>)"
      using l(1) cl(1) by simp
    then show ?thesis using True 1 by (simp add: ps' receiveLoop_append)
  qed
qed

theorem message_shown_when_whole_witness:
  "receiveLoop quiet_env
    [take 20 (frame PKT_PRIVATE_MESSAGE (chat_payload (replicate 16 1) (replicate 16 2) 7 ''hi'')),
     drop 20 (frame PKT_PRIVATE_MESSAGE (chat_payload (replicate 16 1) (replicate 16 2) 7 ''hi''))] (new_client\<lparr>cl_isConnected := True\<rparr>) =
   Inr (new_client\<lparr>cl_isConnected := True, cl_messagesReceived := 1, cl_shown := [Private (bytesToHex (replicate 16 1)) ''hi'']\<rparr>)"
proof -
  let ?f = "frame PKT_PRIVATE_MESSAGE (chat_payload (replicate 16 1) (replicate 16 2) 7 ''hi'')"
  have "length ?f = 66" by (simp add: chat_payload_def enc_lengths wf_struct_defs sizeof_defs HEADER_SIZE_def)
  then have "\<forall>b \<in> set [take 20 ?f, drop 20 ?f]. b \<noteq> []" "concat [take 20 ?f, drop 20 ?f] = take 66 ?f"
    by (auto simp del: length_frame)
  then show ?thesis
    using \<open>length ?f = 66\<close> message_shown_when_whole [OF _ _ _ _ refl, of quiet_env "replicate 16 1" "replicate 16 2" "''hi''"
        "new_client\<lparr>cl_isConnected := True\<rparr>" "[take 20 ?f, drop 20 ?f]" 66 7]
    by (simp add: new_client_def quiet_env_def del: receiveLoop.simps)
qed

end
