(* ===== verification/Client_Files.thy ===== *)
theory Client_Files
  imports Client
begin

text \<open>
  An upload from end to end: the rounds the thread of a client sends and what the server makes of them
  (\<open>Client::uploadWorker\<close> of \<open>client/Client.cpp\<close> with \<open>handleFileChunk\<close> and \<open>handleRoundEnd\<close> of
  \<open>filetransfer/FileTransferManager.cpp\<close>).
\<close>

section \<open>What the client sends\<close>

definition round_bytes :: nat where
  "round_bytes = MAX_CHUNKS_PER_ROUND * MAX_CHUNK_SIZE"

lemma upto_round: "r * round_bytes \<le> n \<Longrightarrow> r * round_bytes + min (n - r * round_bytes) round_bytes = min n (Suc r * round_bytes)"
proof -
  assume "r * round_bytes \<le> n"
  moreover have "a + min (n - a) k = min n (a + k)" if "a \<le> n" for a k :: nat using that by (auto simp: min_def)
  ultimately show ?thesis by (simp add: add.commute)
qed

text \<open>The blocks of round \<open>r\<close> of the file \<open>c\<close>.\<close>

definition round_blocks :: "bytes \<Rightarrow> nat \<Rightarrow> (u64 \<times> bytes) list" where
  "round_blocks c r = fill_round c (of_nat (length c)) MAX_CHUNKS_PER_ROUND (of_nat (r * round_bytes))"

lemma unat_of_nat_u64: "n \<le> m \<Longrightarrow> m < 2 ^ 50 \<Longrightarrow> unat (of_nat n :: u64) = n"
  by (simp add: unat_of_nat)

lemma round_blocks_spec:
  assumes c: "length c < 2 ^ 50" and r: "r * round_bytes \<le> length c"
  shows "concat (map snd (round_blocks c r)) = take round_bytes (drop (r * round_bytes) c)"
    and "length (round_blocks c r) \<le> MAX_CHUNKS_PER_ROUND" "r * round_bytes < length c \<Longrightarrow> round_blocks c r \<noteq> []"
    and "i < length (round_blocks c r) \<Longrightarrow> fst (round_blocks c r ! i) = chunk_offset r i"
    and "i < length (round_blocks c r) \<Longrightarrow> length (snd (round_blocks c r ! i)) \<le> MAX_CHUNK_SIZE"
proof -
  let ?tot = "of_nat (length c) :: u64" and ?sent = "of_nat (r * round_bytes) :: u64"
  have u: "unat ?tot = length c" "unat ?sent = r * round_bytes" using unat_of_nat_u64 [OF _ c] r by blast+
  have le: "?sent \<le> ?tot" unfolding word_le_nat_alt u by (rule r)
  note F = fill_round_spec [OF _ le, of c MAX_CHUNKS_PER_ROUND, unfolded u, OF refl, folded round_blocks_def round_bytes_def]
  show "concat (map snd (round_blocks c r)) = take round_bytes (drop (r * round_bytes) c)" using F by blast
  show "length (round_blocks c r) \<le> MAX_CHUNKS_PER_ROUND" using F by blast
  show "round_blocks c r \<noteq> []" if "r * round_bytes < length c"
  proof -
    have "?sent < ?tot" unfolding word_less_nat_alt u by (rule that)
    moreover have "MAX_CHUNKS_PER_ROUND \<noteq> 0" by (simp add: MAX_CHUNKS_PER_ROUND_def)
    ultimately show ?thesis using F by blast
  qed
  show "length (snd (round_blocks c r ! i)) \<le> MAX_CHUNK_SIZE" if "i < length (round_blocks c r)" using F that by blast
  show "fst (round_blocks c r ! i) = chunk_offset r i" if "i < length (round_blocks c r)"
  proof -
    have "unat (fst (round_blocks c r ! i)) = r * round_bytes + i * MAX_CHUNK_SIZE" using F that by blast
    then have "of_nat (unat (fst (round_blocks c r ! i))) = (of_nat (r * round_bytes + i * MAX_CHUNK_SIZE) :: u64)" by simp
    then show ?thesis by (simp add: chunk_offset_def round_bytes_def algebra_simps)
  qed
qed

lemma uw_round_sends:
  assumes c: "length c < 2 ^ 50" and r: "r * round_bytes < length c"
    and cl: "cl_files cl (cu_filepath us) = Some c" and us: "cu_totalSize us = of_nat (length c)" "length (cu_roundOffsets us) = MAX_CHUNKS_PER_ROUND"
    and t: "ut_bytesSent t = of_nat (r * round_bytes)"
  shows "\<exists>us1 t1. uw_round ev us t cl = bind_res (send_chunks ev (cu_uploadId us) (round_blocks c r) (set_upload us1 cl)) (\<lambda>cl1. Inr (t1, cl1)) \<and>
    ut_bytesSent t1 = of_nat (min (length c) (Suc r * round_bytes)) \<and> ut_chunks t1 = length (round_blocks c r) \<and> ut_pc t1 = UpAsk"
proof -
  have B: "concat (map snd (round_blocks c r)) = take round_bytes (drop (r * round_bytes) c)"
    "length (round_blocks c r) \<le> MAX_CHUNKS_PER_ROUND" "round_blocks c r \<noteq> []"
    using round_blocks_spec(1-3) [OF c order_less_imp_le [OF r]] r by simp_all
  have less: "ut_bytesSent t < cu_totalSize us"
    unfolding t us(1) word_less_nat_alt using r unat_of_nat_u64 [OF _ c] by (simp del: of_nat_mult)
  have fill: "fill_round c (cu_totalSize us) MAX_CHUNKS_PER_ROUND (ut_bytesSent t) = round_blocks c r"
    by (simp add: round_blocks_def us(1) t)
  define us1 where "us1 = us\<lparr>cu_roundBuffer := map snd (round_blocks c r) @ replicate (MAX_CHUNKS_PER_ROUND - length (round_blocks c r)) [],
    cu_roundOffsets := map fst (round_blocks c r) @ drop (length (round_blocks c r)) (cu_roundOffsets us)\<rparr>"
  define t1 where "t1 = t\<lparr>ut_bytesSent := ut_bytesSent t + of_nat (length (concat (map snd (round_blocks c r)))),
    ut_chunks := length (round_blocks c r), ut_pc := UpAsk\<rparr>"
  have "uw_round ev us t cl = bind_res (send_chunks ev (cu_uploadId us) (round_blocks c r) (set_upload us1 cl)) (\<lambda>cl1. Inr (t1, cl1))"
    using less B(2,3) us(2) unfolding uw_round_def us1_def t1_def by (simp add: cl fill Let_def)
  moreover have "ut_bytesSent t1 = of_nat (min (length c) (Suc r * round_bytes))"
  proof -
    have "r * round_bytes + length (take round_bytes (drop (r * round_bytes) c)) = min (length c) (Suc r * round_bytes)"
      using upto_round [of r "length c"] r by simp
    then show ?thesis unfolding t1_def B(1) using t by (simp del: of_nat_mult flip: of_nat_add)
  qed
  ultimately show ?thesis by (intro exI [of _ us1] exI [of _ t1]) (simp add: t1_def)
qed

section \<open>What the server receives\<close>

text \<open>The packet of a chunk, once it is in the server, stores exactly that chunk.\<close>

lemma chunk_packet_stored:
  assumes p: "holds_frame PKT_FILE_CHUNK (enc_FileChunkPayload \<lparr>fc_upload_id = uid, fc_byte_offset = off, fc_chunk_size = of_nat (length chunk),
      fc_chunk_crc = CRC32C_compute chunk 0\<rparr> @ chunk) (packet_at a st)"
    and len: "length uid = 16" "length chunk \<le> 4048"
    and q: "ft_uploadIdToTransferState (st_files st) (bytesToHex uid) = Some q" "ft_heap (st_files st) q = Some ts"
  shows "handleFileChunk a st = Inr (set_ts q (store_chunk off chunk ts) (return_packet a st))"
proof -
  let ?h = "\<lparr>fc_upload_id = uid, fc_byte_offset = off, fc_chunk_size = of_nat (length chunk), fc_chunk_crc = CRC32C_compute chunk 0\<rparr> :: FileChunkPayload"
  let ?p = "packet_at a st"
  have wf: "wf_FileChunkPayload ?h" using len(1) by (simp add: wf_FileChunkPayload_def)
  obtain rest where raw: "getPayloadRaw ?p = enc_FileChunkPayload ?h @ chunk @ rest" using holds_frame_payload [OF p] by auto
  have dec: "dec_FileChunkPayload (getPayloadRaw ?p) = ?h" unfolding raw using fc_struct.dec_enc [OF wf] by simp
  have size: "length (enc_FileChunkPayload ?h) = sizeof_FileChunkPayload" using fc_struct.enc_length [OF wf] .
  have "length (data ?p) = DATA_SIZE" "HEADER_SIZE + (sizeof_FileChunkPayload + length chunk) \<le> DATA_SIZE"
    using p size by (simp_all add: holds_frame_def)
  moreover have "segment (HEADER_SIZE + sizeof_FileChunkPayload) (length chunk) (data ?p) = chunk"
  proof -
    have "drop (HEADER_SIZE + sizeof_FileChunkPayload) (data ?p) = drop sizeof_FileChunkPayload (getPayloadRaw ?p)"
      by (simp add: getPayloadRaw_def add.commute)
    then show ?thesis using raw size by (simp add: segment_def)
  qed
  ultimately have "read_bytes (HEADER_SIZE + sizeof_FileChunkPayload) (unat (fc_chunk_size ?h)) (data ?p) = Inr chunk"
    using len(2) by (simp add: read_bytes_def unat_of_nat_u32)
  moreover have "st_files (return_packet a st) = st_files st" by (simp add: return_packet_def)
  ultimately show ?thesis
    using q by (simp add: handleFileChunk_def dec Let_def getTransferState_def deref_ts_def)
qed

text \<open>Round \<open>r\<close> at the server: its blocks arrive in the order \<open>js\<close>, then its end.\<close>

definition server_round :: "nat \<Rightarrow> (u64 \<times> bytes) list \<Rightarrow> nat list \<Rightarrow> FileTransferManager \<Rightarrow> FileTransferManager" where
  "server_round q bs js m =
     (case ft_heap m q of None \<Rightarrow> m
      | Some ts \<Rightarrow> finish_round q (fold (\<lambda>j. store_chunk (fst (bs ! j)) (snd (bs ! j))) js ts) m)"

fun server_rounds :: "nat \<Rightarrow> bytes \<Rightarrow> nat \<Rightarrow> nat list list \<Rightarrow> FileTransferManager \<Rightarrow> FileTransferManager" where
  "server_rounds q c r [] m = m"
| "server_rounds q c r (js # jss) m = server_rounds q c (Suc r) jss (server_round q (round_blocks c r) js m)"

text \<open>The server has received the first \<open>n\<close> bytes of the file \<open>c\<close> and waits for the next round.\<close>

definition received :: "nat \<Rightarrow> string \<Rightarrow> bytes \<Rightarrow> nat \<Rightarrow> FileTransferManager \<Rightarrow> bool" where
  "received q path c n m \<longleftrightarrow> ft_files m path = Some (take n c) \<and>
     (\<exists>ts. ft_heap m q = Some ts \<and> ts_tempPath ts = path \<and> ts_open ts \<and> ts_receivedOffset ts = of_nat (min n (length c)) \<and>
        ts_roundBuffer ts = replicate MAX_CHUNKS_PER_ROUND [])"

lemma server_round_received:
  assumes c: "length c < 2 ^ 50" and r: "r * round_bytes \<le> length c" and m: "received q path c (r * round_bytes) m"
    and js: "set js = {..<length (round_blocks c r)}"
  shows "received q path c (Suc r * round_bytes) (server_round q (round_blocks c r) js m)"
proof -
  obtain ts where ts: "ft_heap m q = Some ts" "ts_tempPath ts = path" "ts_open ts" "ts_receivedOffset ts = of_nat (r * round_bytes)"
    "ts_roundBuffer ts = replicate MAX_CHUNKS_PER_ROUND []" and disk: "ft_files m path = Some (take (r * round_bytes) c)"
    using m r by (auto simp: received_def min_absorb1)
  note B = round_blocks_spec [OF c r]
  let ?cs = "map snd (round_blocks c r)"
  have r40: "r < 2 ^ 40" using c r by (simp add: round_bytes_def MAX_CHUNKS_PER_ROUND_def MAX_CHUNK_SIZE_def)
  have "fold (\<lambda>j. store_chunk (fst (round_blocks c r ! j)) (snd (round_blocks c r ! j))) js ts = arrivals r ?cs js ts"
    unfolding arrivals_def using js B(4) by (intro fold_cong refl) auto
  then have run: "server_round q (round_blocks c r) js m = finish_round q (arrivals r ?cs js ts) m"
    using ts(1) by (simp add: server_round_def)
  have A: "length (ts_roundBuffer (arrivals r ?cs js ts)) = MAX_CHUNKS_PER_ROUND"
    "\<And>i. i < MAX_CHUNKS_PER_ROUND \<Longrightarrow> ts_roundBuffer (arrivals r ?cs js ts) ! i = (if i \<in> set js then ?cs ! i else [])"
    "ts_tempPath (arrivals r ?cs js ts) = path" "ts_open (arrivals r ?cs js ts)"
    "ts_receivedOffset (arrivals r ?cs js ts) = of_nat (r * round_bytes)"
    using arrivals_buffer [OF r40 ts(5), of ?cs js] js B(2) ts(2-4) by auto
  have "ts_roundBuffer (arrivals r ?cs js ts) = ?cs @ replicate (MAX_CHUNKS_PER_ROUND - length ?cs) []"
    using A(1,2) js B(2) by (intro nth_equalityI) (auto simp: nth_append)
  then have w: "concat (filter (\<lambda>x. x \<noteq> []) (ts_roundBuffer (arrivals r ?cs js ts))) = take round_bytes (drop (r * round_bytes) c)"
    by (simp add: concat_filter_ne B(1))
  have n: "r * round_bytes + length (take round_bytes (drop (r * round_bytes) c)) = min (Suc r * round_bytes) (length c)"
    using upto_round [OF r] by (simp add: min.commute)
  have t: "take (r * round_bytes) c @ take round_bytes (drop (r * round_bytes) c) = take (Suc r * round_bytes) c"
    by (simp add: take_add [symmetric] add.commute)
  show ?thesis
    unfolding received_def run finish_round_def writeRoundToDisk_def
    using A disk t n by (simp add: w Let_def del: of_nat_mult flip: of_nat_add)
qed

lemma server_rounds_received:
  assumes c: "length c < 2 ^ 50" and "received q path c (r * round_bytes) m" "(r + length jss) * round_bytes < length c + round_bytes"
    and "\<forall>i < length jss. set (jss ! i) = {..<length (round_blocks c (r + i))}"
  shows "received q path c ((r + length jss) * round_bytes) (server_rounds q c r jss m)"
  using assms(2-4)
proof (induction jss arbitrary: r m)
  case (Cons js jss)
  have r: "r * round_bytes \<le> length c"
    using Cons.prems(2) by (simp add: algebra_simps)
  have js: "set js = {..<length (round_blocks c r)}" using Cons.prems(3) [rule_format, of 0] by simp
  have rest: "\<forall>i < length jss. set (jss ! i) = {..<length (round_blocks c (Suc r + i))}"
    using Cons.prems(3) by (metis Suc_less_eq add_Suc_shift length_Cons nth_Cons_Suc)
  show ?case using Cons.IH [OF server_round_received [OF c r Cons.prems(1) js] _ rest] Cons.prems(2) by simp
qed simp

text \<open>
  C7. A file the client uploads arrives at the server byte for byte. In round \<open>r\<close> the thread of the upload sends
  the next 1024 blocks of the file with their offsets. A packet that carries a block stores that block.
  When the blocks of all rounds have arrived, in any order within their round and any number of times,
  the partial file on the server is the file of the client and the length received is its size,
  so that the end of the file is accepted.
\<close>

theorem uploaded_file_arrives:
  assumes c: "length c < 2 ^ 50" and m: "received q path c 0 m"
    and enough: "length c \<le> length jss * round_bytes" "length jss * round_bytes < length c + round_bytes"
    and js: "\<forall>i < length jss. set (jss ! i) = {..<length (round_blocks c i)}"
  shows "(\<forall>r ev us t cl. r * round_bytes < length c \<and> cl_files cl (cu_filepath us) = Some c \<and> cu_totalSize us = of_nat (length c) \<and>
      length (cu_roundOffsets us) = MAX_CHUNKS_PER_ROUND \<and> ut_bytesSent t = of_nat (r * round_bytes) \<longrightarrow>
      (\<exists>us1 t1. uw_round ev us t cl = bind_res (send_chunks ev (cu_uploadId us) (round_blocks c r) (set_upload us1 cl)) (\<lambda>cl1. Inr (t1, cl1)) \<and>
         ut_bytesSent t1 = of_nat (min (length c) (Suc r * round_bytes)))) \<and>
    (\<forall>r i uid ev a q1 ts st. i < length (round_blocks c r) \<and> r * round_bytes \<le> length c \<and> length uid = 16 \<and> length (ce_data ev) = DATA_SIZE \<and>
      packet_at a st = snd (serializeFileChunk uid (fst (round_blocks c r ! i)) (snd (round_blocks c r ! i)) (stack_packet ev)) \<and>
      ft_uploadIdToTransferState (st_files st) (bytesToHex uid) = Some q1 \<and> ft_heap (st_files st) q1 = Some ts \<longrightarrow>
      handleFileChunk a st = Inr (set_ts q1 (store_chunk (fst (round_blocks c r ! i)) (snd (round_blocks c r ! i)) ts) (return_packet a (st :: ft_state)))) \<and>
    ft_files (server_rounds q c 0 jss m) path = Some c \<and>
    (\<exists>ts. ft_heap (server_rounds q c 0 jss m) q = Some ts \<and> ts_receivedOffset ts = of_nat (length c))"
proof (intro conjI allI impI; (elim conjE)?)
  fix r ev and t :: upload_thread and us :: UploadState and cl :: client
  assume "r * round_bytes < length c" "cl_files cl (cu_filepath us) = Some c" "cu_totalSize us = of_nat (length c)"
    "length (cu_roundOffsets us) = MAX_CHUNKS_PER_ROUND" "ut_bytesSent t = of_nat (r * round_bytes)"
  from uw_round_sends [OF c this, of ev]
  show "\<exists>us1 t1. uw_round ev us t cl = bind_res (send_chunks ev (cu_uploadId us) (round_blocks c r) (set_upload us1 cl)) (\<lambda>cl1. Inr (t1, cl1)) \<and>
         ut_bytesSent t1 = of_nat (min (length c) (Suc r * round_bytes))"
    by blast
next
  fix r i uid ev a q1 ts and st :: ft_state
  assume i: "i < length (round_blocks c r)" "r * round_bytes \<le> length c" and uid: "length uid = 16" and d: "length (ce_data ev) = DATA_SIZE"
    and p: "packet_at a st = snd (serializeFileChunk uid (fst (round_blocks c r ! i)) (snd (round_blocks c r ! i)) (stack_packet ev))"
    and h: "ft_uploadIdToTransferState (st_files st) (bytesToHex uid) = Some q1" "ft_heap (st_files st) q1 = Some ts"
  have len: "length (snd (round_blocks c r ! i)) \<le> 4048" using round_blocks_spec(5) [OF c i(2,1)] by (simp add: MAX_CHUNK_SIZE_def)
  have "wf_packet (stack_packet ev)" using d by (simp add: wf_packet_def stack_packet_def new_packet_def)
  from serializeFileChunk_emits [OF this uid len]
  show "handleFileChunk a st = Inr (set_ts q1 (store_chunk (fst (round_blocks c r ! i)) (snd (round_blocks c r ! i)) ts) (return_packet a st))"
    by (intro chunk_packet_stored [OF _ uid len h]) (simp add: emits_def p)
next
  have R: "received q path c (length jss * round_bytes) (server_rounds q c 0 jss m)"
    using server_rounds_received [OF c, of q path 0 m jss] m enough(2) js by simp
  then show "ft_files (server_rounds q c 0 jss m) path = Some c" using enough(1) by (simp add: received_def)
  show "\<exists>ts. ft_heap (server_rounds q c 0 jss m) q = Some ts \<and> ts_receivedOffset ts = of_nat (length c)"
    using R enough(1) by (auto simp: received_def min_absorb2)
qed

text \<open>A server at the start of an upload, and a client that has the file.\<close>

definition small_upload :: FileTransferManager where
  "small_upload = new_FileTransferManager\<lparr>ft_heap := [0 \<mapsto> new_TransferState\<lparr>ts_tempPath := ''f'', ts_open := True\<rparr>],
     ft_files := [''f'' \<mapsto> []], ft_uploadIdToTransferState := [bytesToHex (replicate 16 9) \<mapsto> 0]\<rparr>"

definition small_state :: UploadState where
  "small_state = \<lparr>cu_uploadId = bytesToHex (replicate 16 9), cu_filepath = ''f'', cu_receiver = [], cu_totalSize = 3, cu_currentRound = 0,
     cu_finalCrc = 0, cu_roundBuffer = [], cu_roundOffsets = replicate MAX_CHUNKS_PER_ROUND 0, cu_bytesWritten = True, cu_startBytes = 0,
     cu_ackReceived = False, cu_missingChunks = []\<rparr>"

theorem uploaded_file_arrives_witness:
  "ft_files (server_rounds 0 [1, 2, 3] 0 [[0]] small_upload) ''f'' = Some [1, 2, 3] \<and>
   (\<exists>us1 t1. uw_round quiet_env small_state \<lparr>ut_uploadId = [], ut_bytesSent = 0, ut_chunks = 0, ut_pc = UpRound\<rparr> (new_client\<lparr>cl_files := [''f'' \<mapsto> [1, 2, 3]]\<rparr>) =
      bind_res (send_chunks quiet_env (bytesToHex (replicate 16 9)) [(0, [1, 2, 3])] (set_upload us1 (new_client\<lparr>cl_files := [''f'' \<mapsto> [1, 2, 3]]\<rparr>))) (\<lambda>cl1. Inr (t1, cl1))) \<and>
   (\<exists>st ts. handleFileChunk 0 st = Inr (set_ts 0 (store_chunk 0 [1, 2, 3] ts) (return_packet 0 (st :: ft_state))))"
proof -
  let ?c = "[1, 2, 3] :: bytes"
  have b: "round_blocks ?c 0 = [(0, ?c)]"
  proof -
    have "fill_round ?c 3 (Suc n) 0 = [(0, ?c)]" for n by (simp add: fill_round_done MAX_CHUNK_SIZE_def)
    from this [of 1023] show ?thesis by (simp add: round_blocks_def MAX_CHUNKS_PER_ROUND_def del: fill_round.simps)
  qed
  have js: "\<forall>i < length [[0 :: nat]]. set ([[0 :: nat]] ! i) = {..<length (round_blocks ?c i)}" by (simp add: b lessThan_Suc)
  have rec: "received 0 ''f'' ?c 0 small_upload" by (simp add: received_def small_upload_def new_TransferState_def)
  have rb: "3 \<le> round_bytes" by (simp add: round_bytes_def MAX_CHUNKS_PER_ROUND_def MAX_CHUNK_SIZE_def)
  have len: "length ?c < 2 ^ 50" "length ?c \<le> length [[0 :: nat]] * round_bytes" "length [[0 :: nat]] * round_bytes < length ?c + round_bytes"
    using rb by simp_all
  note T = uploaded_file_arrives [OF len(1) rec len(2,3) js]
  define p where "p = snd (serializeFileChunk (replicate 16 9) 0 ?c (stack_packet quiet_env))"
  define st where "st = (undefined :: ft_state)\<lparr>n_packets := new_PacketPool\<lparr>pp_pool := [p]\<rparr>, st_files := small_upload\<rparr>"
  have "packet_at 0 st = p" "st_files st = small_upload" by (simp_all add: st_def packet_at_def)
  then have 3: "handleFileChunk 0 st = Inr (set_ts 0 (store_chunk 0 ?c (new_TransferState\<lparr>ts_tempPath := ''f'', ts_open := True\<rparr>)) (return_packet 0 st))"
    using T [THEN conjunct2, THEN conjunct1, rule_format, of 0 0 "replicate 16 9" quiet_env 0 st 0] b
    by (simp add: p_def quiet_env_def small_upload_def)
  have 2: "\<exists>us1 t1. uw_round quiet_env small_state \<lparr>ut_uploadId = [], ut_bytesSent = 0, ut_chunks = 0, ut_pc = UpRound\<rparr> (new_client\<lparr>cl_files := [''f'' \<mapsto> ?c]\<rparr>) =
      bind_res (send_chunks quiet_env (bytesToHex (replicate 16 9)) [(0, ?c)] (set_upload us1 (new_client\<lparr>cl_files := [''f'' \<mapsto> ?c]\<rparr>))) (\<lambda>cl1. Inr (t1, cl1))"
    using T [THEN conjunct1, rule_format, of 0 "new_client\<lparr>cl_files := [''f'' \<mapsto> ?c]\<rparr>" small_state
        "\<lparr>ut_uploadId = [], ut_bytesSent = 0, ut_chunks = 0, ut_pc = UpRound\<rparr>" quiet_env] b by (auto simp: small_state_def)
  show ?thesis using T 2 3 by blast
qed

end
