(* ===== verification/Spec2Isabelle.thy ===== *)
theory Spec2Isabelle
  imports Packet Circular_Buffer Fixed_Queue Mpsc Pools Group_Manager Network Auth_Manager File_Download Sign_Up Iocp Server Client_Files
begin

text \<open>
  This library verifies a chat server for Windows, built on an I/O completion port, and its console client. It
  follows the C++ sources under \<^verbatim>\<open>src/\<close>; each definition has the name of the function or type it models unless
  that name is taken.

  \<^bold>\<open>The program.\<close> A client keeps one connection to the server. All traffic consists of packets: a header of 16
  bytes (magic byte, version, type, payload length, sequence number, checksum) and a payload, 4096 bytes at most
  together. On the server a worker takes a completion from the port, reads the socket into the ring buffer of
  the connection, cuts complete packets off it into packets borrowed from a pool and hands each to the message
  router. The router refuses what is not allowed without a login and otherwise calls a manager: authentication,
  registration, groups, file transfer, or, for messages, the outgoing queues. Those keep one queue per receiver and at
  most one packet of it under way; the completion of a send starts the next one. Users are kept on disk in a
  table of encrypted records. Uploads and downloads run in rounds of 1024 chunks, and the receiving side acknowledges
  every round.

  \<^bold>\<open>The state.\<close> The server's state is one extensible record. Each component adds its fields to the record of those
  below it, in the order \<open>net_state\<close> (pools, posted operations, ring buffers, closed sockets), \<open>sm_state\<close>
  (directory of sessions), \<open>off_state\<close> (outgoing queues), \<open>auth_state\<close>, \<open>grp_state\<close>, \<open>ft_state\<close> (transfers),
  \<open>sg_state\<close> (registration) and \<open>mr_state\<close>. An operation is polymorphic in the part of the record it does not
  know, so a handler composes the operations as the code does, and \<open>Frames\<close> collects what each leaves alone. A pointer
  into a pool is an index, a pointer to the heap an address. Exceptions and undefined behaviour are values of the
  type \<open>fault\<close>; an operation that may fail so has a result in \<open>fault + 'a\<close>, written \<open>'a res\<close>.

  \<^bold>\<open>The theories and the code.\<close>

  \<^item> \<open>Prelude\<close>: integers of fixed width, byte strings, wire order, faults.
  \<^item> \<open>CRC32C\<close>: \<^verbatim>\<open>protocol/CRC32C.cpp\<close>, both builds. A changed byte changes the checksum; the table is not that of the polynomial
    its comment names, so the two builds disagree.
  \<^item> \<open>Wire_Structs\<close>: the structs of \<^verbatim>\<open>protocol/ProtocolStructs.h\<close>, each an instance of the locale \<open>wire_struct\<close>
    (length of the image, decoding inverts encoding).
  \<^item> \<open>Packet\<close>: \<^verbatim>\<open>protocol/Packet.cpp\<close>. Parsing rejects corrupted packets and inverts every serializer; a length field
    from \<open>0x7FFFFFF0\<close> on passes the signed test and makes the parser read outside the buffer.
  \<^item> \<open>Circular_Buffer\<close>, \<open>Fixed_Queue\<close>, \<open>Mpsc\<close>: the three structures of \<^verbatim>\<open>datastructure/\<close>. Each implements a locale
    (\<open>byte_fifo\<close>, \<open>bounded_queue\<close>, \<open>fifo_queue\<close>), with counters at their width of 64 bits. For the linked queue the
    atomic accesses of any number of producers and the consumer are also interleaved, in \<open>mpsc_step\<close>.
  \<^item> \<open>Pools\<close>: \<^verbatim>\<open>pool/\<close> and \<^verbatim>\<open>session/Session.cpp\<close>. All three pools are instances of \<open>index_pool\<close>: an object is free
    or held by one borrower.
  \<^item> \<open>Network\<close>, \<open>Framing\<close>, \<open>Iocp\<close>: \<^verbatim>\<open>network/IOCPManager.cpp\<close>, from below: posting sends and receives, cutting packets
    off the ring buffer, accepting, the worker and the disconnection. What is cut off depends on the bytes received and
    not on the pieces they arrive in; a socket is closed once; an outbox drains as its sends complete.
  \<^item> \<open>Session_Manager\<close>, \<open>Manage_Offline\<close>: \<^verbatim>\<open>session/SessionManager.cpp\<close> and \<^verbatim>\<open>offlineManager/ManageOffline.cpp\<close>. The
    outgoing queues refine an abstract outbox, a list of packets and a flag.
  \<^item> \<open>Auth_Store\<close>, \<open>Auth_Manager\<close>: \<^verbatim>\<open>authentication/auth_store.h\<close>, \<^verbatim>\<open>auth_types.h\<close>, \<^verbatim>\<open>AuthManager.cpp\<close>. The user store refines a
    set of records; tokens are valid exactly until they expire; a refresh token is accepted once; a login has one of the
    listed outcomes.
  \<^item> \<open>Group_Manager\<close>, \<open>Group_Messages\<close>: \<^verbatim>\<open>chat/Group.cpp\<close>, \<^verbatim>\<open>chat/GroupManager.cpp\<close> and \<open>routeGroupMessage\<close>; groups refine a
    relation between groups and members.
  \<^item> \<open>File_Transfer\<close>, \<open>File_Download\<close>: \<^verbatim>\<open>filetransfer/\<close>. Rounds are reassembled whatever the order of their chunks; paths
    stay within the upload directory; a download's thread is a machine. Malformed packets lead to faults.
  \<^item> \<open>Table\<close>: \<^verbatim>\<open>datastructure/table.h\<close>. Users survive a restart; the type invariant of stored records; users that the indexes
    and the cache lose.
  \<^item> \<open>Sign_Up\<close>: \<^verbatim>\<open>authentication/SignUp.cpp\<close>. An address is verified only by its one-time password, which allows a bounded
    number of guesses.
  \<^item> \<open>Message_Router\<close>: \<open>handlePacket\<close> of \<^verbatim>\<open>chat/MessageRouter.cpp\<close>. Without a login only the types of packets exempt from the check
    are dispatched.
  \<^item> \<open>Server\<close>: \<^verbatim>\<open>server/Server.cpp\<close>, \<^verbatim>\<open>main.cpp\<close>, \<open>initialize\<close> and \<open>shutdown\<close>. What a run opens it closes.
  \<^item> \<open>Client\<close>, \<open>Client_Files\<close>: \<^verbatim>\<open>client/Client.cpp\<close> and \<^verbatim>\<open>client/main.cpp\<close>. What is typed is sent whole, what arrives whole is shown,
    and the file a client uploads is the file the server writes.
  \<^item> This theory: properties that span the client and the server.

  \<^bold>\<open>Parameters.\<close> Code outside the repository appears as arguments. \<open>wsa\<close>, \<open>accept_result\<close>, \<open>recv_result\<close>,
  \<open>completion\<close>, \<open>sys_env\<close> and \<open>client_env\<close> are what the operating system answers; \<open>sodium\<close> is libsodium, with the promises
  of its manual as the predicates \<open>sodium_auth_ok\<close>, \<open>sodium_hex_ok\<close>, \<open>sodium_pwhash_ok\<close> and \<open>sodium_random_ok\<close>; \<open>zcrc\<close> is
  zlib's checksum, \<open>hasher\<close> is \<open>std::hash\<close>. Clocks and random numbers are arguments too. \<open>example_sodium\<close> meets the
  predicates and serves the witnesses.

  \<^bold>\<open>Bounds.\<close> \<open>frame_loop\<close> runs with fuel 1024: the ring buffer holds 16384 bytes and every packet takes at least 16 of them;
  that the loop ends within this fuel is proved. \<open>client_loop\<close> runs with the length of its buffer as fuel; it is proved to
  end within it unless the buffer starts with a header on which the source itself loops for ever. \<open>sendDownloadLinkLoop\<close> takes
  one upload per turn, so the length of its queue is enough, and \<open>destroy_mpsc\<close> needs one turn more than there are elements.
  A wait of the source that nobody ends is the result \<open>None\<close> (\<open>pop_mpsc\<close>, \<open>push_fq\<close>), which \<open>returns\<close> turns into the fault \<open>Diverges\<close>.
  All other loops are structural or have a termination proof.

  \<^bold>\<open>Not modelled.\<close> Operations protected by a mutex are atomic, and completions are handled one after the other; other
  interleavings are modelled only for \<open>Mpsc\<close> and for the threads of downloads and uploads. Memory is sequentially
  consistent. The logger (\<^verbatim>\<open>utils/\<close>) only prints. The periodic copy of the table's file and the destructor of \<open>AuthManager\<close>,
  which wipes keys, are left out, since nothing reads their effect. Of \<open>generateUploadId\<close> the random bytes are a parameter.
  \<^verbatim>\<open>build/\<close> holds copies of older sources, which are not compiled, and a file that CMake generates.
\<close>

section \<open>A private message on its way through the server\<close>

text \<open>
  C1. A private message of a client that is logged in reaches its addressee's outbox. The packet, as the client
  has sent it, passes the checks, is put at the end of the outbox of the user it is addressed to and of no
  other, and is handed to the connection of that user at once when the user is online and nothing is
  under way there. Accounts, groups, files and registrations are as before.
\<close>

theorem private_message_reaches_outbox:
  fixes st :: "'z mr_state_scheme"
  assumes inv: "off_inv st" and a: "a < PACKET_POOL_SIZE" and io: "ic_free (n_io st) \<noteq> []"
    and p: "holds_frame PKT_PRIVATE_MESSAGE (chat_payload sender receiver t txt) (packet_at a st)"
    and ids: "length sender = 16" "length receiver = 16"
    and login: "ValidateSessionHotPath (ev_clock (ev a) 0) (session_at i st)"
    and u: "u = UserIdToHexString (ev_sodium (ev a)) receiver" and dir: "online st u \<or> offline st u"
  shows "\<exists>st'. handle_all ev i [a] st = Inr st' \<and> off_inv st' \<and>
    outbox st' u = ob_put (online st u \<and> ev_wsa (ev a) (n_calls st)) a (outbox st u) \<and>
    (\<forall>v. v \<noteq> u \<longrightarrow> outbox st' v = outbox st v) \<and>
    delivers (ev_wsa (ev a)) u (ob_next (ob_put False a (outbox st u))) st st' \<and>
    off_state.more st' = off_state.more st"
proof -
  let ?pl = "chat_payload sender receiver t txt"
  define p2 where "p2 = (packet_at a st)\<lparr>header := frame_header PKT_PRIVATE_MESSAGE ?pl, parsedHeader := True, parsedData := True\<rparr>"
  define st1 where "st1 = set_packet a p2 st"
  have len: "length (data (packet_at a st)) = DATA_SIZE" using p by (simp add: holds_frame_def)
  have pool: "a < length (pp_pool (n_packets st))" using off_invD(1) [OF inv] pp_invD(1) a by (simp add: net_inv_def)
  have pk: "packet_at a st1 = p2" "data (packet_at b st1) = data (packet_at b st)" for b
    using pool by (simp_all add: st1_def p2_def set_packet_def packet_at_def nth_list_update)
  have same: "outbox st1 v = outbox st v" "online st1 v = online st v" "offline st1 v = offline st v" "n_calls st1 = n_calls st"
    "n_io st1 = n_io st" "session_at j st1 = session_at j st" "off_state.more st1 = off_state.more st" "sendable st1 b = sendable st b"
    "delivers wsa v x st1 st' = delivers wsa v x st st'" for v j b wsa x and st' :: "'z mr_state_scheme"
    using pk(2) by (simp_all add: st1_def set_packet_def outbox_def online_def offline_def findSession_def session_at_def sendable_def toCopy_def
        delivers_def same_directory_def untouched_def attempted_def socket_of_def packet_at_def split: option.split)
  have "length (data p2) = DATA_SIZE" "pkt_id p2 = pkt_id (packet_at a st)" using len by (simp_all add: p2_def)
  then have net1: "net_inv st1" unfolding st1_def using set_packet_ok [OF off_invD(1) [OF inv]] by blast
  have inv1: "off_inv st1"
    by (rule off_inv_cong [OF inv]) (use net1 same(8) in \<open>simp_all add: st1_def set_packet_def\<close>)
  have "sendable st a" using a holds_frame_toCopy [OF p] p by (simp add: sendable_def holds_frame_def packet_consts)
  then obtain st' where st': "ManageCompletePacket (ev_wsa (ev a)) a u st1 = Inr st'" "off_inv st'"
    "outbox st' u = ob_put (online st u \<and> ev_wsa (ev a) (n_calls st)) a (outbox st u)" "\<forall>v. v \<noteq> u \<longrightarrow> outbox st' v = outbox st v"
    "delivers (ev_wsa (ev a)) u (ob_next (ob_put False a (outbox st u))) st st'"
    using ManageCompletePacket_spec [OF inv1, of a u "ev_wsa (ev a)"] io dir unfolding same by blast
  have "chat_ids (ev_sodium (ev a)) p2 = (u, UserIdToHexString (ev_sodium (ev a)) sender)"
    using chat_payload_frame(1) [OF p ids] by (simp add: chat_ids_def p2_def u getPayloadRaw_def Let_def)
  moreover have "type_field (header p2) = type_code PKT_PRIVATE_MESSAGE" by (simp add: p2_def frame_header_def)
  ultimately have "handlePacket (ev a) a i st1 = Inr (True, st')"
    using login st'(1) by (simp add: handlePacket_def dispatch_def pk(1) same(6) Let_def)
  then have "handle_all ev i [a] st = Inr st'"
    using parse_frame [OF p] by (simp add: p2_def [symmetric] st1_def [symmetric])
  then show ?thesis using st' ManageCompletePacket_frame [OF st'(1)] same(7) by (intro exI [of _ st']) simp
qed

text \<open>A server on which the client of the first session is logged in and has sent the first packet.\<close>

definition chat_mr :: "IOContextPool \<Rightarrow> Packet \<Rightarrow> mr_state" where
  "chat_mr io p = (let st = fresh_mr io undefined undefined in
     st\<lparr>n_packets := (n_packets st)\<lparr>pp_pool := (pp_pool (n_packets st))[0 := p]\<rparr>,
        n_spool := (n_spool st)\<lparr>sp_pool := (sp_pool (n_spool st))[0 := new_Session\<lparr>se_auth_state := AUTHENTICATED, se_cached_expiry := 9\<rparr>]\<rparr>\<rparr>)"

definition sample_packet :: Packet where
  "sample_packet = snd (serialize 7 PKT_PRIVATE_MESSAGE (replicate 16 1) (replicate 16 2) None [] ''hi'' (stack_packet quiet_env))"

lemma sample_packet_frame: "holds_frame PKT_PRIVATE_MESSAGE (chat_payload (replicate 16 1) (replicate 16 2) 7 ''hi'') sample_packet"
proof -
  have "wf_packet (stack_packet quiet_env)" by (simp add: wf_packet_def stack_packet_def new_packet_def quiet_env_def)
  from serialize_emits [OF this, of "replicate 16 1" "replicate 16 2" "[]" "''hi''" PKT_PRIVATE_MESSAGE 7 None]
  show ?thesis by (simp add: emits_def sample_packet_def chat_payload_def str_bytes_def)
qed

lemma sample_pool: "pp_inv (new_PacketPool\<lparr>pp_pool := (pp_pool new_PacketPool)[0 := sample_packet]\<rparr>)"
proof -
  have "0 < PACKET_POOL_SIZE" by (simp add: PACKET_POOL_SIZE_def)
  moreover have "length (data sample_packet) = DATA_SIZE" using sample_packet_frame by (simp add: holds_frame_def)
  ultimately show ?thesis using new_PacketPool_inv by (simp add: pp_inv_def new_PacketPool_def nth_list_update new_packet_def)
qed

definition plain_env :: env where
  "plain_env = \<lparr>ev_wsa = \<lambda>_. True, ev_sodium = example_sodium, ev_hasher = \<lambda>_. 0, ev_can_open = \<lambda>_. True, ev_clock = \<lambda>_. 5\<rparr>"

theorem private_message_reaches_outbox_witness:
  "\<exists>(st :: mr_state) st' u. handle_all (\<lambda>_. plain_env) 0 [0] st = Inr st' \<and> outbox st u = ([], False) \<and> outbox st' u = ([0], False)"
proof -
  obtain io where io: "ic_inv io" "ic_free io = [0..<IO_POOL_SIZE]" using new_IOContextPool_inv by blast
  have pos: "0 < SESSION_POOL_SIZE" "0 < PACKET_POOL_SIZE" by (simp_all add: SESSION_POOL_SIZE_def PACKET_POOL_SIZE_def)
  let ?st = "chat_mr io sample_packet"
  have free: "ic_free (n_io ?st) \<noteq> []" by (simp add: chat_mr_def fresh_mr_def io(2) IO_POOL_SIZE_def)
  have empty: "outbox ?st v = ([], False)" "offline ?st v" "\<not> online ?st v" for v
    by (simp_all add: chat_mr_def fresh_mr_def outbox_def offline_def online_def findSession_def)
  have p: "holds_frame PKT_PRIVATE_MESSAGE (chat_payload (replicate 16 1) (replicate 16 2) 7 ''hi'') (packet_at 0 ?st)"
    using pos sample_packet_frame by (simp add: chat_mr_def fresh_mr_def packet_at_def new_PacketPool_def)
  have "sp_inv (n_spool ?st)"
    using new_SessionPool_inv pos by (simp add: chat_mr_def fresh_mr_def new_SessionPool_def sp_inv_def)
  then have inv: "off_inv ?st"
    using io(1) empty(1) sample_pool by (simp add: off_inv_def net_inv_def chat_mr_def fresh_mr_def)
  have login: "ValidateSessionHotPath (ev_clock plain_env 0) (session_at 0 ?st)"
    using pos by (simp add: chat_mr_def fresh_mr_def session_at_def new_SessionPool_def ValidateSessionHotPath_def plain_env_def)
  let ?u = "UserIdToHexString (ev_sodium plain_env) (replicate 16 2)"
  obtain st' where "handle_all (\<lambda>_. plain_env) 0 [0] ?st = Inr st'" "outbox st' ?u = ([0], False)"
    using private_message_reaches_outbox [OF inv pos(2) free p _ _ _ refl disjI2 [OF empty(2)], of "\<lambda>_. plain_env" 0] login empty(1,3)
    by auto
  then show ?thesis using empty(1) by blast
qed

section \<open>A message that the server passes on\<close>

text \<open>
  C32. A private message that the server passes on is not shown to its receiver. The server hands the packet
  to the system without its last sixteen bytes; a client that receives what was handed over, in whatever
  pieces, waits for the rest and shows nothing.
\<close>

theorem forwarded_message_not_shown:
  fixes st :: "'z net_state_scheme"
  assumes inv: "net_inv st" and a: "a < PACKET_POOL_SIZE" and io: "ic_free (n_io st) = k # ks" and ok: "wsa (n_calls st)"
    and p: "holds_frame PKT_PRIVATE_MESSAGE (chat_payload sender receiver t txt) (packet_at a st)"
    and pieces: "\<forall>b \<in> set ps. b \<noteq> []" "concat ps = take (length (chat_payload sender receiver t txt)) (data (packet_at a st))"
    and cl: "cl_isConnected cl" "cl_streamBuffer cl = []"
  shows "\<exists>st'. initiateSend wsa s a st = Inr (True, st') \<and>
    n_posted st' = n_posted st @ [\<lparr>ps_socket = s, ps_context = k, ps_bytes = concat ps\<rparr>] \<and>
    receiveLoop ev ps cl = Inr (cl\<lparr>cl_streamBuffer := concat ps\<rparr>)"
proof -
  let ?pl = "chat_payload sender receiver t txt"
  have n: "length ?pl \<le> 4080" and fr: "take (HEADER_SIZE + length ?pl) (data (packet_at a st)) = frame PKT_PRIVATE_MESSAGE ?pl"
    using p by (simp_all add: holds_frame_def packet_consts)
  have c: "unat (toCopy (packet_at a st)) = length ?pl" using holds_frame_toCopy [OF p] .
  have "take (length ?pl) (frame PKT_PRIVATE_MESSAGE ?pl) = concat ps"
    unfolding fr [symmetric] pieces(2) by simp
  then have "receiveLoop ev ps cl = Inr (cl\<lparr>cl_streamBuffer := concat ps\<rparr>)"
    using receiveLoop_waits [OF n _ cl(1) pieces(1), of "length ?pl" PKT_PRIVATE_MESSAGE ev] cl(2) by simp
  moreover obtain st' where "initiateSend wsa s a st = Inr (True, st')"
    "n_posted st' = n_posted st @ [\<lparr>ps_socket = s, ps_context = k, ps_bytes = concat ps\<rparr>]"
    using initiateSend_spec [OF inv a _ io, of wsa s] ok n unfolding c pieces(2) by (auto simp: DATA_SIZE_def)
  ultimately show ?thesis by blast
qed

theorem forwarded_message_not_shown_witness:
  "\<exists>(st :: net_state) st' bs. initiateSend (\<lambda>_. True) 7 0 st = Inr (True, st') \<and> map ps_bytes (n_posted st') = [bs] \<and>
     receiveLoop quiet_env [bs] (new_client\<lparr>cl_isConnected := True\<rparr>) = Inr (new_client\<lparr>cl_isConnected := True, cl_streamBuffer := bs\<rparr>)"
proof -
  obtain io where io: "ic_inv io" "ic_free io = [0..<IO_POOL_SIZE]" using new_IOContextPool_inv by blast
  have pos: "0 < IO_POOL_SIZE" "0 < PACKET_POOL_SIZE" by (simp_all add: IO_POOL_SIZE_def PACKET_POOL_SIZE_def)
  let ?pl = "chat_payload (replicate 16 1) (replicate 16 2) 7 ''hi''" and ?p = sample_packet
  define st where "st = (fresh_net io)\<lparr>n_packets := new_PacketPool\<lparr>pp_pool := (pp_pool new_PacketPool)[0 := ?p]\<rparr>\<rparr>"
  have pk: "packet_at 0 st = ?p" using pos(2) by (simp add: st_def packet_at_def new_PacketPool_def)
  have "length (data ?p) = DATA_SIZE" using sample_packet_frame by (simp add: holds_frame_def)
  have inv: "net_inv st" using io(1) sample_pool by (simp add: net_inv_def st_def fresh_net_def new_SessionPool_inv)
  have free: "ic_free (n_io st) = 0 # [1..<IO_POOL_SIZE]"
    using io(2) pos(1) upt_conv_Cons [of 0 IO_POOL_SIZE] by (simp add: st_def fresh_net_def)
  define bs where "bs = take (length ?pl) (data ?p)"
  have "length ?pl = 50" by (simp add: chat_payload_def enc_lengths wf_struct_defs sizeof_defs)
  then have "bs \<noteq> []" using \<open>length (data ?p) = DATA_SIZE\<close> by (auto simp: bs_def DATA_SIZE_def)
  then have P: "\<forall>b \<in> set [bs]. b \<noteq> []" "concat [bs] = take (length ?pl) (data (packet_at 0 st))" by (simp_all add: bs_def pk)
  have cl: "cl_isConnected (new_client\<lparr>cl_isConnected := True\<rparr>)" "cl_streamBuffer (new_client\<lparr>cl_isConnected := True\<rparr>) = []"
    by (simp_all add: new_client_def)
  obtain st' where "initiateSend (\<lambda>_. True) 7 0 st = Inr (True, st')" "n_posted st' = n_posted st @ [\<lparr>ps_socket = 7, ps_context = 0, ps_bytes = concat [bs]\<rparr>]"
    "receiveLoop quiet_env [bs] (new_client\<lparr>cl_isConnected := True\<rparr>) = Inr (new_client\<lparr>cl_isConnected := True, cl_streamBuffer := concat [bs]\<rparr>)"
    using forwarded_message_not_shown [OF inv pos(2) free _ _ P cl, of "\<lambda>_. True" 7 quiet_env] sample_packet_frame pk by auto
  then show ?thesis by (intro exI [of _ st] exI [of _ st'] exI [of _ bs]) (simp add: st_def fresh_net_def del: receiveLoop.simps)
qed

end
